(* ===== verification/Prelude.thy ===== *)
theory Prelude
  imports Main "HOL-Library.Word" "HOL-Library.Multiset"
begin

text \<open>
  Shared ground of the development: the machine types of the C++ sources, the arithmetic of
  power-of-two masks (\<open>x & (Capacity - 1)\<close>), circular array positions, and facts on list
  updates that the containers use.
\<close>

unbundle bit_operations_syntax

type_synonym u8 = "8 word"
type_synonym u32 = "32 word"
type_synonym u64 = "64 word"
type_synonym i32 = "32 word"
type_synonym i64 = "64 word"

named_theorems circ_simps \<open>arithmetic of circular array positions\<close>

section \<open>Power-of-two capacities\<close>

text \<open>
  The two static assertions of \<open>FlatHashMap\<close> and \<open>SPSCQueue\<close>:
  \<open>(Capacity & (Capacity - 1)) == 0\<close> and \<open>Capacity > 0\<close>.
\<close>

definition cap_ok :: "u64 \<Rightarrow> bool" where
  "cap_ok cap \<longleftrightarrow> cap AND (cap - 1) = 0 \<and> cap > 0"

lemma unat_u64_less: "unat (w :: u64) < 2 ^ 64"
  using unsigned_less [of w, where ?'a = nat] by simp

lemma unat_step_down:
  fixes n i :: "'a::len word"
  assumes "n \<noteq> i"
  shows "unat (n - (i + 1)) < unat (n - i)"
proof -
  have ne: "n - i \<noteq> 0" using assms by simp
  have "n - (i + 1) = (n - i) - 1" by simp
  then have "unat (n - (i + 1)) = unat (n - i) - 1" using ne by (metis unat_minus_one)
  moreover have "0 < unat (n - i)" using ne unat_gt_0 [of "n - i"] by blast
  ultimately show ?thesis by simp
qed

lemma unat_step_down2:
  fixes n i :: "'a::len word"
  assumes "i + 1 \<noteq> n"
  shows "unat (n - i - 2) < unat (n - 1 - i)"
proof -
  have "n - 1 \<noteq> i" using assms by (auto simp: diff_eq_eq)
  from unat_step_down [OF this] show ?thesis by (simp add: algebra_simps)
qed

lemma unat_u64_succ: "unat (w :: u64) < unat (b :: u64) \<Longrightarrow> unat (w + 1) = unat w + 1"
  using unat_u64_less [of b] by (simp add: unat_word_ariths)

lemma bit_top_nat:
  fixes n :: nat
  assumes "2 ^ k \<le> n" "n < 2 ^ Suc k"
  shows "bit n k"
proof -
  have "n div 2 ^ k = 1"
    using assms by (intro div_nat_eqI) (simp_all add: mult.commute)
  then show ?thesis by (simp add: bit_iff_odd)
qed

lemma nat_between_powers:
  fixes n :: nat
  assumes "0 < n"
  obtains k where "2 ^ k \<le> n" "n < 2 ^ Suc k"
  using ex_power_ivl1 [of 2 n] assms by auto

lemma bit_unat_iff_u64: "bit (unat (w :: u64)) k \<longleftrightarrow> bit w k"
  by transfer (auto simp: bit_take_bit_iff bit_nat_iff)

lemma cap_ok_pow2:
  assumes "cap_ok cap"
  obtains k where "k < 64" "unat cap = 2 ^ k"
proof -
  from assms have pos: "0 < unat cap" by (simp add: cap_ok_def word_gt_0 unat_gt_0)
  obtain k where k: "2 ^ k \<le> unat cap" "unat cap < 2 ^ Suc k"
    by (rule nat_between_powers [OF pos])
  have "(2 :: nat) ^ k < 2 ^ 64"
    using k(1) unat_u64_less [of cap] by (simp add: le_less_trans)
  then have k64: "k < 64" by (rule power_less_imp_less_exp [rotated]) simp
  have "unat cap = 2 ^ k"
  proof (rule ccontr)
    assume "unat cap \<noteq> 2 ^ k"
    with k(1) have gt: "2 ^ k < unat cap" by simp
    have m1: "unat (cap - 1) = unat cap - 1"
      using pos by (metis less_numeral_extra(3) unat_0 unat_minus_one)
    have "bit (unat (cap - 1)) k"
      by (rule bit_top_nat) (use gt k(2) in \<open>simp_all add: m1\<close>)
    moreover have "bit (unat cap) k" by (rule bit_top_nat) (use k in simp_all)
    ultimately have "bit (cap AND (cap - 1)) k"
      by (simp add: bit_and_iff bit_unat_iff_u64)
    with assms show False by (simp add: cap_ok_def)
  qed
  with k64 that show thesis by blast
qed

lemma cap_ok_pos: "cap_ok cap \<Longrightarrow> 0 < unat cap"
  by (simp add: cap_ok_def word_gt_0 unat_gt_0)

text \<open>Masking with \<open>Capacity - 1\<close> is the remainder modulo \<open>Capacity\<close>.\<close>

lemma unat_and_mask:
  assumes "cap_ok cap"
  shows "unat (x AND (cap - 1)) = unat x mod unat cap"
proof -
  obtain k where k: "k < 64" "unat cap = 2 ^ k"
    by (rule cap_ok_pow2 [OF assms])
  have cap: "cap = 2 ^ k"
    using arg_cong [OF k(2), of "of_nat :: nat \<Rightarrow> u64"] by simp
  have "x AND (cap - 1) = take_bit k x"
    by (simp add: cap take_bit_eq_mask mask_eq_exp_minus_1)
  then show ?thesis
    by (simp only: k(2) unsigned_take_bit_eq take_bit_eq_mod [of k "unat x"])
qed

lemma unat_cap_dvd: "cap_ok cap \<Longrightarrow> unat cap dvd 2 ^ 64"
  by (erule cap_ok_pow2) (metis le_imp_power_dvd less_imp_le)

lemma mod_mod_cap: "cap_ok cap \<Longrightarrow> n mod 2 ^ 64 mod unat cap = n mod unat cap"
  by (rule mod_mod_cancel [OF unat_cap_dvd])

lemma unat_succ_mask:
  assumes "cap_ok cap"
  shows "unat ((p + 1) AND (cap - 1)) = (unat p + 1) mod unat cap"
  using mod_mod_cap [OF assms, of "unat p + 1"]
  by (simp add: unat_and_mask [OF assms] unat_word_ariths)

lemma unat_of_nat_mod_cap:
  assumes "cap_ok cap"
  shows "unat (of_nat n AND (cap - 1)) = n mod unat cap"
  using mod_mod_cap [OF assms, of n]
  by (simp add: unat_and_mask [OF assms] unat_of_nat)

lemma mod_complement:
  fixes p h C N :: nat
  assumes "C dvd N" "h \<le> N" "0 < C"
  shows "(p + (N - h)) mod C = (p + C - h mod C) mod C"
proof -
  obtain q where q: "N = C * q" using assms(1) by (rule dvdE)
  have h: "h mod C \<le> C" using assms(3) by (simp add: less_imp_le)
  have "int ((p + (N - h)) mod C) = (int p - int h + int q * int C) mod int C"
    using assms(2) by (simp add: zmod_int of_nat_diff q algebra_simps)
  also have "\<dots> = (int p - int h) mod int C"
    by (rule mod_mult_self1)
  also have "\<dots> = (int p - int (h mod C) + int C) mod int C"
    by (simp add: zmod_int mod_diff_right_eq)
  also have "\<dots> = int ((p + C - h mod C) mod C)"
    using h by (simp add: zmod_int of_nat_diff algebra_simps)
  finally show ?thesis by (simp only: of_nat_eq_iff)
qed

text \<open>The wrapped difference \<open>(p - h) & mask\<close> is the circular distance from \<open>h\<close> to \<open>p\<close>.\<close>

lemma unat_diff_mask:
  assumes "cap_ok cap" "unat p < unat cap"
  shows "unat ((p - h) AND (cap - 1)) =
    (unat p + unat cap - unat (h AND (cap - 1))) mod unat cap"
proof -
  let ?C = "unat cap"
  have h: "unat h mod ?C < ?C" using cap_ok_pos [OF assms(1)] by simp
  have "unat (p - h) = (unat p + (2 ^ 64 - unat h)) mod 2 ^ 64"
  proof -
    have le: "unat h \<le> 2 ^ 64" using unat_u64_less [of h] by simp
    have "(p - h) = of_nat (unat p + (2 ^ 64 - unat h))"
      using le by (simp add: of_nat_diff)
    then show ?thesis by (simp only: unat_of_nat) simp
  qed
  then have "unat ((p - h) AND (cap - 1)) = (unat p + (2 ^ 64 - unat h)) mod ?C"
    by (simp only: unat_and_mask [OF assms(1)] mod_mod_cap [OF assms(1)])
  also have "\<dots> = (unat p + ?C - unat h mod ?C) mod ?C"
    by (rule mod_complement [OF unat_cap_dvd [OF assms(1)] less_imp_le [OF unat_u64_less]
          cap_ok_pos [OF assms(1)]])
  finally show ?thesis by (simp add: unat_and_mask [OF assms(1)])
qed

section \<open>Circular positions\<close>

text \<open>\<open>circ n p j\<close> is the position \<open>j\<close> slots after \<open>p\<close> in an array of \<open>n\<close> slots.\<close>

definition circ :: "nat \<Rightarrow> nat \<Rightarrow> nat \<Rightarrow> nat" where
  "circ n p j = (p + j) mod n"

lemma circ_less [simp]: "0 < n \<Longrightarrow> circ n p j < n"
  by (simp add: circ_def)

lemma circ_0 [circ_simps]: "p < n \<Longrightarrow> circ n p 0 = p"
  by (simp add: circ_def)

lemma circ_Suc [circ_simps]: "(circ n p j + 1) mod n = circ n p (Suc j)"
  by (simp add: circ_def mod_Suc_eq)

lemma circ_circ [circ_simps]: "circ n (circ n p i) j = circ n p (i + j)"
  by (simp add: circ_def mod_add_left_eq add.assoc)

lemma circ_add_n [circ_simps]: "circ n p (n + j) = circ n p j" "circ n p (j + n) = circ n p j"
proof -
  have "(p + (n + j)) mod n = ((p + j) + n) mod n" by (simp add: ac_simps)
  then show "circ n p (n + j) = circ n p j" by (simp add: circ_def)
  then show "circ n p (j + n) = circ n p j" by (simp add: add.commute)
qed

lemma circ_inj: "i < n \<Longrightarrow> j < n \<Longrightarrow> circ n p i = circ n p j \<Longrightarrow> i = j"
proof (induction i j rule: linorder_wlog)
  case (le i j)
  then have "n dvd (p + j) - (p + i)"
    by (metis circ_def add_le_cancel_left mod_eq_dvd_iff_nat)
  then have "n dvd j - i" by simp
  with le show ?case by (metis dvd_imp_le le_antisym less_imp_diff_less not_less zero_less_diff)
next
  case (sym a b)
  then show ?case by simp
qed

lemma circ_cases:
  assumes "q < n" "p < n"
  obtains j where "j < n" "q = circ n p j"
proof
  show "(q + n - p) mod n < n" using assms by simp
  have "(p + (q + n - p) mod n) mod n = (p + (q + n - p)) mod n" by (simp add: mod_add_right_eq)
  also have "\<dots> = q" using assms by simp
  finally show "q = circ n p ((q + n - p) mod n)" by (simp add: circ_def)
qed

section \<open>List updates\<close>

lemma filter_mset_update:
  assumes "i < length xs"
  shows "mset (filter P (xs[i := x])) + (if P (xs ! i) then {#xs ! i#} else {#}) =
    mset (filter P xs) + (if P x then {#x#} else {#})"
proof -
  have "mset (xs[i := x]) + {#xs ! i#} = mset xs + {#x#}"
    using assms by (simp add: mset_update)
  then have "filter_mset P (mset (xs[i := x]) + {#xs ! i#}) = filter_mset P (mset xs + {#x#})"
    by simp
  then show ?thesis by (simp add: mset_filter split: if_splits)
qed

lemma distinct_filter_nth:
  assumes "distinct (map f (filter P xs))"
    and "i < length xs" "j < length xs" "P (xs ! i)" "P (xs ! j)" "f (xs ! i) = f (xs ! j)"
  shows "i = j"
  using assms
proof (induction xs arbitrary: i j)
  case Nil
  then show ?case by simp
next
  case (Cons x xs)
  have *: "P x \<Longrightarrow> f x \<noteq> f (xs ! m)" if "m < length xs" "P (xs ! m)" for m
    using Cons.prems(1) that by (auto dest: nth_mem)
  show ?case
    using Cons * by (cases i; cases j) (fastforce split: if_splits)+
qed

lemma length_filter_eq_length: "length (filter P xs) = length xs \<Longrightarrow> x \<in> set xs \<Longrightarrow> P x"
  using length_filter_less [of x xs P] by auto

section \<open>Small words as array indices\<close>

lemma unat_of_nat_u8: "i < 256 \<Longrightarrow> unat (of_nat i :: u8) = i"
  by (simp add: unsigned_of_nat take_bit_nat_eq_self)

lemma of_nat_eq_u8: "i < 256 \<Longrightarrow> of_nat i = (p :: u8) \<longleftrightarrow> i = unat p"
  using unat_of_nat_u8 [of i] by auto

lemma in_set_of_nat_u8:
  "n \<le> 256 \<Longrightarrow> (p :: u8) \<in> set (map of_nat [m..<n]) \<longleftrightarrow> m \<le> unat p \<and> unat p < n"
proof
  assume n: "n \<le> 256" and "p \<in> set (map of_nat [m..<n])"
  then obtain i where "p = of_nat i" "m \<le> i" "i < n" by auto
  then show "m \<le> unat p \<and> unat p < n" using n by (simp add: unat_of_nat_u8)
next
  assume "m \<le> unat p \<and> unat p < n"
  then have "p \<in> of_nat ` {m..<n}" by (intro image_eqI [of _ _ "unat p"]) auto
  then show "p \<in> set (map of_nat [m..<n])" by simp
qed

lemma distinct_of_nat_u8: "n \<le> 256 \<Longrightarrow> distinct (map of_nat [m..<n] :: u8 list)"
proof -
  assume n: "n \<le> 256"
  have "inj_on (of_nat :: nat \<Rightarrow> u8) {m..<n}"
  proof (rule inj_onI)
    fix i j assume ij: "i \<in> {m..<n}" "j \<in> {m..<n}" "of_nat i = (of_nat j :: u8)"
    have "unat (of_nat i :: u8) = i" "unat (of_nat j :: u8) = j"
      using ij(1,2) n by (simp_all add: unat_of_nat_u8)
    then show "i = j" using ij(3) by metis
  qed
  then show ?thesis by (simp add: distinct_map)
qed

end
