(* ===== verification/Map_Interface.thy ===== *)
theory Map_Interface
  imports Prelude
begin

text \<open>
  The contract of a fixed-capacity map, as the order index of the matching engine and the
  ticker dispatch of the hot path use it: keys other than the sentinel are looked up, inserted
  while there is room, and erased. The provider is \<open>FlatHashMap\<close>.
\<close>

datatype ('k, 'v) map_op = Insert 'k 'v | Erase 'k

fun op_key :: "('k, 'v) map_op \<Rightarrow> 'k" where
  "op_key (Insert k v) = k"
| "op_key (Erase k) = k"

fun apply_map :: "('k, 'v) map_op \<Rightarrow> ('k \<rightharpoonup> 'v) \<Rightarrow> ('k \<rightharpoonup> 'v)" where
  "apply_map (Insert k v) f = f(k \<mapsto> v)"
| "apply_map (Erase k) f = f(k := None)"

text \<open>Running a sequence of calls; \<open>None\<close> when a call fails or does not return.\<close>

fun run_op :: "('m \<Rightarrow> 'k \<Rightarrow> 'v \<Rightarrow> 'm \<times> bool) \<Rightarrow> ('m \<Rightarrow> 'k \<Rightarrow> ('m \<times> bool) option) \<Rightarrow>
    ('k, 'v) map_op \<Rightarrow> 'm \<Rightarrow> 'm option" where
  "run_op ins del (Insert k v) m = (case ins m k v of (m', ok) \<Rightarrow> if ok then Some m' else None)"
| "run_op ins del (Erase k) m = map_option fst (del m k)"

fun run_ops :: "('m \<Rightarrow> 'k \<Rightarrow> 'v \<Rightarrow> 'm \<times> bool) \<Rightarrow> ('m \<Rightarrow> 'k \<Rightarrow> ('m \<times> bool) option) \<Rightarrow>
    ('k, 'v) map_op list \<Rightarrow> 'm \<Rightarrow> 'm option" where
  "run_ops ins del [] m = Some m"
| "run_ops ins del (x # xs) m =
     (case run_op ins del x m of None \<Rightarrow> None | Some m' \<Rightarrow> run_ops ins del xs m')"

text \<open>The sequence uses valid keys only and never inserts a new key beyond the capacity.\<close>

fun ops_fit :: "('k \<Rightarrow> bool) \<Rightarrow> nat \<Rightarrow> ('k, 'v) map_op list \<Rightarrow> ('k \<rightharpoonup> 'v) \<Rightarrow> bool" where
  "ops_fit vld cap [] f \<longleftrightarrow> True"
| "ops_fit vld cap (x # xs) f \<longleftrightarrow> vld (op_key x) \<and>
     (case x of Insert k v \<Rightarrow> card (dom f) < cap \<or> k \<in> dom f | Erase k \<Rightarrow> True) \<and>
     ops_fit vld cap xs (apply_map x f)"

locale fixed_map =
  fixes inv :: "'m \<Rightarrow> bool"
    and valid :: "'k \<Rightarrow> bool"
    and abs :: "'m \<Rightarrow> 'k \<rightharpoonup> 'v"
    and capacity :: nat
    and lookup :: "'m \<Rightarrow> 'k \<Rightarrow> 'v option"
    and insert_op :: "'m \<Rightarrow> 'k \<Rightarrow> 'v \<Rightarrow> 'm \<times> bool"
    and erase_op :: "'m \<Rightarrow> 'k \<Rightarrow> ('m \<times> bool) option"
  assumes lookup_abs: "inv m \<Longrightarrow> valid k \<Longrightarrow> lookup m k = abs m k"
    and insert_abs: "inv m \<Longrightarrow> valid k \<Longrightarrow> card (dom (abs m)) < capacity \<or> k \<in> dom (abs m) \<Longrightarrow>
      \<exists>m'. insert_op m k v = (m', True) \<and> inv m' \<and> abs m' = (abs m)(k \<mapsto> v)"
    and erase_abs: "inv m \<Longrightarrow> valid k \<Longrightarrow>
      \<exists>m'. erase_op m k = Some (m', k \<in> dom (abs m)) \<and> inv m' \<and> abs m' = (abs m)(k := None)"
    and finite_abs: "inv m \<Longrightarrow> finite (dom (abs m))"
begin

lemma lookup_insert:
  assumes "inv m" "valid k" "valid k'" "card (dom (abs m)) < capacity" "insert_op m k v = (m', b)"
  shows "b \<and> inv m' \<and> lookup m' k' = (if k' = k then Some v else lookup m k')"
  using insert_abs [OF assms(1,2), of v] assms by (auto simp: lookup_abs)

lemma lookup_erase:
  assumes "inv m" "valid k" "valid k'" "erase_op m k = Some (m', b)"
  shows "inv m' \<and> b = (lookup m k \<noteq> None) \<and> lookup m' k' = (if k' = k then None else lookup m k')"
  using erase_abs [OF assms(1,2)] assms by (auto simp: lookup_abs)

lemma run_op_abs:
  assumes "inv m" "ops_fit valid capacity (x # xs) (abs m)"
  shows "\<exists>m'. run_op insert_op erase_op x m = Some m' \<and> inv m' \<and> abs m' = apply_map x (abs m)"
proof (cases x)
  case (Insert k v)
  then show ?thesis using insert_abs [OF assms(1), of k v] assms(2) by auto
next
  case (Erase k)
  then show ?thesis using erase_abs [OF assms(1), of k] assms(2) by auto
qed

text \<open>Any run that never inserts into a full table succeeds and acts like a map.\<close>

lemma run_ops_abs:
  assumes "inv m" "ops_fit valid capacity xs (abs m)"
  shows "\<exists>m'. run_ops insert_op erase_op xs m = Some m' \<and> inv m' \<and>
    abs m' = fold apply_map xs (abs m)"
  using assms
proof (induction xs arbitrary: m)
  case Nil
  then show ?case by simp
next
  case (Cons x xs)
  obtain m1 where m1: "run_op insert_op erase_op x m = Some m1" "inv m1" "abs m1 = apply_map x (abs m)"
    using run_op_abs [OF Cons.prems] by blast
  have "ops_fit valid capacity xs (abs m1)" using Cons.prems(2) m1(3) by simp
  from Cons.IH [OF m1(2) this] m1 show ?case by simp
qed

end

end
