(* ===== verification/Flat_Hash_Map.thy ===== *)
theory Flat_Hash_Map
  imports Map_Interface
begin

text \<open>
  The Robin Hood hash map of \<open>src/core/flat_hash_map.h\<close>, at the key type its users
  instantiate (\<open>uint64_t\<close>). The template parameter \<open>Capacity\<close> is the argument
  \<open>cap\<close>; the slot array is a list; all index arithmetic is on 64-bit words as in the source.
  A \<open>Value*\<close> returned by \<open>find\<close> is the position of its slot.
\<close>

section \<open>The class\<close>

record 'v slot =
  slot_key :: u64
  slot_value :: 'v

record 'v flat_hash_map =
  fm_slots :: "'v slot list"
  fm_size :: u64

definition fhm_mask :: "u64 \<Rightarrow> u64" where
  "fhm_mask cap = cap - 1"

definition EMPTY :: u64 where
  "EMPTY = - 1"

definition fhm_hash :: "u64 \<Rightarrow> u64" where
  "fhm_hash key =
    (let x = key;
         x = x XOR drop_bit 30 x;
         x = x * 0xbf58476d1ce4e5b9;
         x = x XOR drop_bit 27 x;
         x = x * 0x94d049bb133111eb;
         x = x XOR drop_bit 31 x
     in x)"

definition probe_distance :: "u64 \<Rightarrow> u64 \<Rightarrow> u64 \<Rightarrow> u64" where
  "probe_distance cap key pos = (pos - fhm_hash key) AND fhm_mask cap"

text \<open>
  The constructor: the argument is what \<open>mmap\<close> returned for \<open>Capacity\<close> slots
  (\<open>None\<close> for \<open>MAP_FAILED\<close>); the result \<open>None\<close> is the call of \<open>abort\<close>.
\<close>

definition FlatHashMap_new :: "'v slot list option \<Rightarrow> 'v flat_hash_map option" where
  "FlatHashMap_new mem =
    (case mem of
       None \<Rightarrow> None
     | Some sl \<Rightarrow> Some \<lparr>fm_slots = map (\<lambda>s. s\<lparr>slot_key := EMPTY\<rparr>) sl, fm_size = 0\<rparr>)"

text \<open>
  The probe loop of \<open>insert\<close>: \<open>None\<close> is the \<open>return false\<close> inside it, \<open>Some (k, v, pos)\<close>
  the values of the loop variables when the loop condition fails.
\<close>

function insert_loop ::
  "u64 \<Rightarrow> 'v slot list \<Rightarrow> u64 \<Rightarrow> 'v \<Rightarrow> u64 \<Rightarrow> u64 \<Rightarrow> u64 \<Rightarrow>
   'v slot list \<times> (u64 \<times> 'v \<times> u64) option" where
  "insert_loop cap sl k v pos ctr dist =
    (let s = sl ! unat pos in
     if slot_key s \<noteq> EMPTY \<and> slot_key s \<noteq> k then
       if ctr + 1 = cap then (sl, None)
       else
         let resident_dist = probe_distance cap (slot_key s) pos in
         if resident_dist < dist then
           insert_loop cap (sl[unat pos := \<lparr>slot_key = k, slot_value = v\<rparr>])
             (slot_key s) (slot_value s) ((pos + 1) AND fhm_mask cap) (ctr + 1) (resident_dist + 1)
         else insert_loop cap sl k v ((pos + 1) AND fhm_mask cap) (ctr + 1) (dist + 1)
     else (sl, Some (k, v, pos)))"
  by pat_completeness auto
termination
  by (relation "measure (\<lambda>(cap, sl, k, v, pos, ctr, dist). unat (cap - 1 - ctr))")
     (auto intro!: unat_step_down2)

declare insert_loop.simps [simp del]

definition fhm_insert :: "u64 \<Rightarrow> 'v flat_hash_map \<Rightarrow> u64 \<Rightarrow> 'v \<Rightarrow> 'v flat_hash_map \<times> bool" where
  "fhm_insert cap m key value =
    (case insert_loop cap (fm_slots m) key value (fhm_hash key AND fhm_mask cap) 0 0 of
       (sl, None) \<Rightarrow> (m\<lparr>fm_slots := sl\<rparr>, False)
     | (sl, Some (k, v, pos)) \<Rightarrow>
         let inserting_new = (slot_key (sl ! unat pos) = EMPTY)
         in (m\<lparr>fm_slots := sl[unat pos := \<lparr>slot_key = k, slot_value = v\<rparr>],
               fm_size := (if inserting_new then fm_size m + 1 else fm_size m)\<rparr>, True))"

text \<open>The search loop shared by \<open>find\<close> and \<open>erase\<close>.\<close>

function find_loop :: "u64 \<Rightarrow> 'v slot list \<Rightarrow> u64 \<Rightarrow> u64 \<Rightarrow> u64 \<Rightarrow> u64 option" where
  "find_loop cap sl key pos ctr =
    (if slot_key (sl ! unat pos) \<noteq> key then
       if slot_key (sl ! unat pos) = EMPTY \<or> ctr = cap then None
       else find_loop cap sl key ((pos + 1) AND fhm_mask cap) (ctr + 1)
     else Some pos)"
  by pat_completeness auto
termination
  by (relation "measure (\<lambda>(cap, sl, key, pos, ctr). unat (cap - ctr))")
     (auto intro!: unat_step_down)

declare find_loop.simps [simp del]

definition fhm_find :: "u64 \<Rightarrow> 'v flat_hash_map \<Rightarrow> u64 \<Rightarrow> u64 option" where
  "fhm_find cap m key = find_loop cap (fm_slots m) key (fhm_hash key AND fhm_mask cap) 0"

text \<open>The backshift loop of \<open>erase\<close>; \<open>None\<close> would be a loop that never ends.\<close>

partial_function (option) backshift ::
  "u64 \<Rightarrow> 'v slot list \<Rightarrow> u64 \<Rightarrow> u64 \<Rightarrow> 'v slot list option" where
  "backshift cap sl pos nxt =
    (if slot_key (sl ! unat nxt) \<noteq> EMPTY then
       if probe_distance cap (slot_key (sl ! unat nxt)) nxt = 0 then Some sl
       else
         (let sl1 = sl[unat pos := sl ! unat nxt];
              sl2 = sl1[unat nxt := (sl1 ! unat nxt)\<lparr>slot_key := EMPTY\<rparr>]
          in backshift cap sl2 nxt ((nxt + 1) AND fhm_mask cap))
     else Some sl)"

definition fhm_erase :: "u64 \<Rightarrow> 'v flat_hash_map \<Rightarrow> u64 \<Rightarrow> ('v flat_hash_map \<times> bool) option" where
  "fhm_erase cap m key =
    (case find_loop cap (fm_slots m) key (fhm_hash key AND fhm_mask cap) 0 of
       None \<Rightarrow> Some (m, False)
     | Some pos \<Rightarrow>
         let sl = (fm_slots m)[unat pos := (fm_slots m ! unat pos)\<lparr>slot_key := EMPTY\<rparr>]
         in (case backshift cap sl pos ((pos + 1) AND fhm_mask cap) of
               None \<Rightarrow> None
             | Some sl' \<Rightarrow> Some (m\<lparr>fm_slots := sl', fm_size := fm_size m - 1\<rparr>, True)))"

definition fhm_size :: "'v flat_hash_map \<Rightarrow> u64" where
  "fhm_size m = fm_size m"

definition fhm_empty :: "'v flat_hash_map \<Rightarrow> bool" where
  "fhm_empty m \<longleftrightarrow> fm_size m = 0"

text \<open>Reading through the pointer that \<open>find\<close> returned.\<close>

definition fhm_get :: "u64 \<Rightarrow> 'v flat_hash_map \<Rightarrow> u64 \<Rightarrow> 'v option" where
  "fhm_get cap m key = map_option (\<lambda>p. slot_value (fm_slots m ! unat p)) (fhm_find cap m key)"

section \<open>The invariant and the abstract map\<close>

definition occ :: "'v slot list \<Rightarrow> nat \<Rightarrow> bool" where
  "occ sl i \<longleftrightarrow> slot_key (sl ! i) \<noteq> EMPTY"

definition occs :: "'v slot list \<Rightarrow> 'v slot list" where
  "occs sl = filter (\<lambda>s. slot_key s \<noteq> EMPTY) sl"

definition home :: "u64 \<Rightarrow> u64 \<Rightarrow> nat" where
  "home cap k = unat (fhm_hash k AND fhm_mask cap)"

definition pdist :: "u64 \<Rightarrow> u64 \<Rightarrow> nat \<Rightarrow> nat" where
  "pdist cap k p = (p + unat cap - home cap k) mod unat cap"

abbreviation pd :: "u64 \<Rightarrow> 'v slot list \<Rightarrow> nat \<Rightarrow> nat" where
  "pd cap sl i \<equiv> pdist cap (slot_key (sl ! i)) i"

text \<open>A slot that no probe sequence runs through from the slot before: empty, or at home.\<close>

definition good :: "u64 \<Rightarrow> 'v slot list \<Rightarrow> nat \<Rightarrow> bool" where
  "good cap sl i \<longleftrightarrow> \<not> occ sl i \<or> pd cap sl i = 0"

text \<open>
  The Robin Hood order: walking forward, the probe distance grows by at most one, and a
  displaced entry has an occupied slot before it.
\<close>

definition robin_hood :: "u64 \<Rightarrow> 'v slot list \<Rightarrow> bool" where
  "robin_hood cap sl \<longleftrightarrow>
    (\<forall>i < unat cap. good cap sl (circ (unat cap) i 1) \<or>
       occ sl i \<and> pd cap sl (circ (unat cap) i 1) \<le> pd cap sl i + 1)"

definition slots_inv :: "u64 \<Rightarrow> 'v slot list \<Rightarrow> bool" where
  "slots_inv cap sl \<longleftrightarrow>
     cap_ok cap \<and> length sl = unat cap \<and> distinct (map slot_key (occs sl)) \<and>
     robin_hood cap sl \<and> (\<exists>z < unat cap. good cap sl z)"

definition fhm_inv :: "u64 \<Rightarrow> 'v flat_hash_map \<Rightarrow> bool" where
  "fhm_inv cap m \<longleftrightarrow> slots_inv cap (fm_slots m) \<and> unat (fm_size m) = length (occs (fm_slots m))"

definition fhm_abs :: "'v flat_hash_map \<Rightarrow> (u64 \<rightharpoonup> 'v)" where
  "fhm_abs m = map_of (map (\<lambda>s. (slot_key s, slot_value s)) (occs (fm_slots m)))"

section \<open>Probe distances\<close>

lemma home_less: "cap_ok cap \<Longrightarrow> home cap k < unat cap"
  using cap_ok_pos [of cap] by (simp add: home_def fhm_mask_def unat_and_mask)

lemma pdist_less: "cap_ok cap \<Longrightarrow> pdist cap k p < unat cap"
  using cap_ok_pos [of cap] by (simp add: pdist_def)

lemma unat_probe_distance:
  "cap_ok cap \<Longrightarrow> unat p < unat cap \<Longrightarrow> unat (probe_distance cap k p) = pdist cap k (unat p)"
  by (simp add: probe_distance_def pdist_def home_def fhm_mask_def unat_diff_mask)

lemma probe_distance_eq_0:
  assumes "cap_ok cap" "unat p < unat cap"
  shows "probe_distance cap k p = 0 \<longleftrightarrow> pdist cap k (unat p) = 0"
  unfolding unat_probe_distance [OF assms, symmetric] by (rule unat_eq_zero [symmetric])

lemma unat_next:
  "cap_ok cap \<Longrightarrow> unat ((p + 1) AND fhm_mask cap) = circ (unat cap) (unat p) 1"
  by (simp add: fhm_mask_def circ_def unat_succ_mask)

lemma circ_home_pdist:
  assumes "cap_ok cap" "p < unat cap"
  shows "circ (unat cap) (home cap k) (pdist cap k p) = p"
proof -
  have "(home cap k + (p + unat cap - home cap k)) mod unat cap = p"
    using assms home_less [OF assms(1), of k] by simp
  then show ?thesis by (simp add: circ_def pdist_def mod_add_right_eq)
qed

lemma pdist_circ_home:
  assumes "cap_ok cap" "j < unat cap"
  shows "pdist cap k (circ (unat cap) (home cap k) j) = j"
proof -
  let ?p = "circ (unat cap) (home cap k) j"
  have "circ (unat cap) (home cap k) (pdist cap k ?p) = ?p"
    using assms cap_ok_pos by (intro circ_home_pdist) simp_all
  then show ?thesis using assms pdist_less [OF assms(1)] by (blast intro: circ_inj)
qed

lemma pdist_next:
  assumes "cap_ok cap" "p < unat cap" "pdist cap k p + 1 < unat cap"
  shows "pdist cap k (circ (unat cap) p 1) = pdist cap k p + 1"
proof -
  have "circ (unat cap) p 1 = circ (unat cap) (home cap k) (pdist cap k p + 1)"
    by (subst (1) circ_home_pdist [OF assms(1,2), symmetric, of k]) (simp only: circ_circ)
  then show ?thesis by (simp only: pdist_circ_home [OF assms(1,3)])
qed

lemma pdist_next_pos:
  assumes "cap_ok cap" "p < unat cap" "pdist cap k (circ (unat cap) p 1) \<noteq> 0"
  shows "pdist cap k (circ (unat cap) p 1) = pdist cap k p + 1"
proof (cases "pdist cap k p + 1 < unat cap")
  case True
  then show ?thesis by (rule pdist_next [OF assms(1,2)])
next
  case False
  then have "pdist cap k p + 1 = unat cap" using pdist_less [OF assms(1), of k p] by simp
  then have "circ (unat cap) p 1 = circ (unat cap) (home cap k) (unat cap + 0)"
    by (subst (1) circ_home_pdist [OF assms(1,2), symmetric, of k]) (simp only: circ_circ add_0_right)
  then have "pdist cap k (circ (unat cap) p 1) = 0"
    using pdist_circ_home [OF assms(1), of 0 k] cap_ok_pos [OF assms(1)] by (simp only: circ_add_n)
  with assms show ?thesis by simp
qed

section \<open>Entries as a multiset\<close>

lemma slot_eta [simp]: "\<lparr>slot_key = slot_key s, slot_value = slot_value s\<rparr> = s"
  by (cases s) simp

lemma slot_eq_iff:
  fixes s :: "'v slot"
  shows "s = \<lparr>slot_key = k, slot_value = v\<rparr> \<longleftrightarrow> slot_key s = k \<and> slot_value s = v"
  by (cases s) auto

lemma mset_occs_update:
  assumes "i < length sl"
  shows "mset (occs (sl[i := s])) + (if occ sl i then {#sl ! i#} else {#}) =
    mset (occs sl) + (if slot_key s \<noteq> EMPTY then {#s#} else {#})"
  unfolding occs_def occ_def by (rule filter_mset_update [OF assms])

lemma occs_unique:
  assumes "distinct (map slot_key (occs sl))" "i < length sl" "j < length sl"
    and "slot_key (sl ! i) = slot_key (sl ! j)" "occ sl i"
  shows "i = j"
  using distinct_filter_nth [of slot_key "\<lambda>s. slot_key s \<noteq> EMPTY" sl i j] assms
  by (simp add: occs_def occ_def)

lemma fhm_abs_Some_iff:
  assumes "distinct (map slot_key (occs (fm_slots m)))"
  shows "fhm_abs m k = Some v \<longleftrightarrow> \<lparr>slot_key = k, slot_value = v\<rparr> \<in># mset (occs (fm_slots m))"
proof -
  have "map fst (map (\<lambda>s. (slot_key s, slot_value s)) (occs (fm_slots m))) =
      map slot_key (occs (fm_slots m))"
    by simp
  then have "fhm_abs m k = Some v \<longleftrightarrow>
      (k, v) \<in> set (map (\<lambda>s. (slot_key s, slot_value s)) (occs (fm_slots m)))"
    unfolding fhm_abs_def by (intro map_of_eq_Some_iff) (simp only: assms)
  also have "\<dots> \<longleftrightarrow> \<lparr>slot_key = k, slot_value = v\<rparr> \<in> set (occs (fm_slots m))"
    by (auto simp: image_iff slot_eq_iff) (rule bexI, auto)
  finally show ?thesis by simp
qed

lemma dom_fhm_abs: "dom (fhm_abs m) = slot_key ` set (occs (fm_slots m))"
  by (simp add: fhm_abs_def dom_map_of_conv_image_fst image_image)

lemma fhm_abs_EMPTY: "fhm_abs m EMPTY = None"
proof -
  have "EMPTY \<notin> dom (fhm_abs m)" by (auto simp: dom_fhm_abs occs_def)
  then show ?thesis by (simp add: domIff)
qed

lemma in_dom_fhm_abs:
  "k \<in> dom (fhm_abs m) \<longleftrightarrow>
     (\<exists>i < length (fm_slots m). occ (fm_slots m) i \<and> slot_key (fm_slots m ! i) = k)"
  by (auto simp: dom_fhm_abs occs_def occ_def in_set_conv_nth image_iff)

lemma occ_in_keys: "i < length sl \<Longrightarrow> occ sl i \<Longrightarrow> slot_key (sl ! i) \<in> slot_key ` set (occs sl)"
  by (simp add: occs_def occ_def)

section \<open>Lookup\<close>

text \<open>Every slot from the home of a stored key up to it is occupied, at no smaller distance.\<close>

lemma robin_hood_chain:
  assumes "cap_ok cap" "robin_hood cap sl" "i < unat cap" "occ sl i" "e \<le> pd cap sl i"
  shows "occ sl (circ (unat cap) (home cap (slot_key (sl ! i))) e) \<and>
    e \<le> pd cap sl (circ (unat cap) (home cap (slot_key (sl ! i))) e)"
proof -
  let ?c = "circ (unat cap) (home cap (slot_key (sl ! i)))"
  show ?thesis
    using assms(5)
  proof (induction rule: inc_induct)
    case base
    then show ?case using assms by (simp add: circ_home_pdist)
  next
    case (step e)
    have "?c e < unat cap" using cap_ok_pos [OF assms(1)] by simp
    then have "good cap sl (circ (unat cap) (?c e) 1) \<or>
        occ sl (?c e) \<and> pd cap sl (circ (unat cap) (?c e) 1) \<le> pd cap sl (?c e) + 1"
      using assms(2) unfolding robin_hood_def by blast
    moreover have "circ (unat cap) (?c e) 1 = ?c (Suc e)" by (simp add: circ_circ)
    ultimately show ?case using step.IH by (auto simp: good_def)
  qed
qed

text \<open>What the search relies on: no gap between the home of a stored key and its slot. A Robin Hood table
  has none, and neither has a full one.\<close>

definition chained :: "u64 \<Rightarrow> 'v slot list \<Rightarrow> bool" where
  "chained cap sl \<longleftrightarrow> cap_ok cap \<and> length sl = unat cap \<and> distinct (map slot_key (occs sl)) \<and>
     (\<forall>i<unat cap. occ sl i \<longrightarrow> (\<forall>e\<le>pd cap sl i. occ sl (circ (unat cap) (home cap (slot_key (sl ! i))) e)))"

lemma slots_inv_chained: "slots_inv cap sl \<Longrightarrow> chained cap sl"
  using robin_hood_chain [of cap sl] by (auto simp: chained_def slots_inv_def)

lemma fhm_inv_chained: "fhm_inv cap m \<Longrightarrow> chained cap (fm_slots m)"
  by (simp add: fhm_inv_def slots_inv_chained)

lemma full_chained:
  assumes "cap_ok cap" "length sl = unat cap" "distinct (map slot_key (occs sl))" "\<And>i. i < unat cap \<Longrightarrow> occ sl i"
  shows "chained cap sl"
  using assms cap_ok_pos [OF assms(1)] by (simp add: chained_def)

lemma fhm_abs_nth:
  assumes "chained cap (fm_slots m)" "i < unat cap" "occ (fm_slots m) i"
  shows "fhm_abs m (slot_key (fm_slots m ! i)) = Some (slot_value (fm_slots m ! i))"
proof -
  have "fm_slots m ! i \<in> set (occs (fm_slots m))"
    using assms by (auto simp: chained_def occs_def occ_def)
  moreover have "distinct (map slot_key (occs (fm_slots m)))"
    using assms(1) by (simp add: chained_def)
  ultimately show ?thesis by (subst fhm_abs_Some_iff) auto
qed

lemma find_loop_present:
  assumes "chained cap sl" "i < unat cap" "occ sl i" "slot_key (sl ! i) = key"
    and "j \<le> pdist cap key i" "unat pos = circ (unat cap) (home cap key) j" "unat ctr = j"
  shows "\<exists>p. find_loop cap sl key pos ctr = Some p \<and> unat p = i"
  using assms(5-7)
proof (induction "pdist cap key i - j" arbitrary: j pos ctr)
  case 0
  then have "j = pdist cap key i" by simp
  with 0 have "unat pos = i" using assms by (simp only: circ_home_pdist chained_def)
  then show ?case using assms by (simp add: find_loop.simps)
next
  case (Suc n)
  have inv: "cap_ok cap" "length sl = unat cap" "distinct (map slot_key (occs sl))"
    using assms(1) by (auto simp: chained_def)
  have j: "j < pdist cap key i" using Suc.hyps by simp
  have jC: "j < unat cap" using j pdist_less [OF inv(1)] less_trans by blast
  have o: "occ sl (unat pos)"
    using assms(1-4) Suc.prems unfolding chained_def by auto
  have "slot_key (sl ! unat pos) \<noteq> key"
  proof
    assume "slot_key (sl ! unat pos) = key"
    then have "unat pos = i"
      using occs_unique [OF inv(3), of "unat pos" i] o assms inv Suc.prems cap_ok_pos by simp
    then show False using j jC pdist_circ_home [OF inv(1) jC, of key] Suc.prems by simp
  qed
  moreover have "ctr \<noteq> cap" using jC Suc.prems by auto
  ultimately have "find_loop cap sl key pos ctr = find_loop cap sl key ((pos + 1) AND fhm_mask cap) (ctr + 1)"
    using o by (subst find_loop.simps) (simp add: occ_def)
  moreover have "\<exists>p. find_loop cap sl key ((pos + 1) AND fhm_mask cap) (ctr + 1) = Some p \<and> unat p = i"
  proof (rule Suc.hyps(1))
    show "n = pdist cap key i - Suc j" using Suc.hyps(2) by simp
    show "Suc j \<le> pdist cap key i" using j by simp
    show "unat ((pos + 1) AND fhm_mask cap) = circ (unat cap) (home cap key) (Suc j)"
      using Suc.prems inv by (simp add: unat_next circ_circ)
    show "unat (ctr + 1) = Suc j"
      using unat_u64_succ [of ctr cap] jC Suc.prems by simp
  qed
  ultimately show ?case by simp
qed

lemma find_loop_absent:
  assumes "cap_ok cap" "\<And>i. i < unat cap \<Longrightarrow> slot_key (sl ! i) \<noteq> key" "unat pos < unat cap"
  shows "find_loop cap sl key pos ctr = None"
  using assms
proof (induction cap sl key pos ctr rule: find_loop.induct)
  case (1 cap sl key pos ctr)
  have "unat ((pos + 1) AND fhm_mask cap) < unat cap"
    using 1 cap_ok_pos by (simp add: unat_next)
  with 1 show ?case by (subst find_loop.simps) auto
qed

text \<open>\<open>find\<close> returns the slot of a stored key, and null for every other key.\<close>

lemma fhm_find_cases:
  assumes inv: "chained cap (fm_slots m)" and "key \<noteq> EMPTY"
  shows "(\<exists>i p. i < unat cap \<and> occ (fm_slots m) i \<and> slot_key (fm_slots m ! i) = key \<and>
        fhm_find cap m key = Some p \<and> unat p = i) \<or>
     (key \<notin> dom (fhm_abs m) \<and> fhm_find cap m key = None)"
proof -
  have cap: "cap_ok cap" and len: "length (fm_slots m) = unat cap" using inv by (auto simp: chained_def)
  have pos: "unat (fhm_hash key AND fhm_mask cap) = home cap key" by (simp add: home_def)
  show ?thesis
  proof (cases "key \<in> dom (fhm_abs m)")
    case True
    then obtain i where i: "i < unat cap" "occ (fm_slots m) i" "slot_key (fm_slots m ! i) = key"
      using len by (auto simp: in_dom_fhm_abs)
    have "\<exists>p. fhm_find cap m key = Some p \<and> unat p = i"
      unfolding fhm_find_def
      by (rule find_loop_present [OF inv i, of 0])
         (simp_all add: pos circ_0 home_less cap)
    with i show ?thesis by blast
  next
    case False
    have "slot_key (fm_slots m ! i) \<noteq> key" if "i < unat cap" for i
      using that False assms(2) len by (auto simp: in_dom_fhm_abs occ_def)
    then have "fhm_find cap m key = None"
      unfolding fhm_find_def using cap by (intro find_loop_absent) (simp_all add: pos home_less)
    with False show ?thesis by blast
  qed
qed

lemma fhm_get_chained:
  assumes "chained cap (fm_slots m)" "key \<noteq> EMPTY"
  shows "fhm_get cap m key = fhm_abs m key"
  using fhm_find_cases [OF assms] fhm_abs_nth [OF assms(1)] by (auto simp: fhm_get_def domIff)

lemma fhm_get_abs:
  assumes "fhm_inv cap m" "key \<noteq> EMPTY"
  shows "fhm_get cap m key = fhm_abs m key"
  using assms by (intro fhm_get_chained fhm_inv_chained)

section \<open>Insertion\<close>

lemma pd_update_other: "i \<noteq> p \<Longrightarrow> pd cap (sl[p := s]) i = pd cap sl i"
  by simp

lemma occ_update: "p < length sl \<Longrightarrow> occ (sl[p := s]) i \<longleftrightarrow> (if i = p then slot_key s \<noteq> EMPTY else occ sl i)"
  by (simp add: occ_def)

text \<open>Storing an entry at \<open>p\<close> keeps the order if it fits behind its predecessor.\<close>

lemma robin_hood_place:
  assumes "cap_ok cap" "length sl = unat cap" "p < unat cap" "robin_hood cap sl" "k \<noteq> EMPTY"
    and before: "pdist cap k p = 0 \<or>
      (\<exists>q < unat cap. circ (unat cap) q 1 = p \<and> occ sl q \<and> pdist cap k p \<le> pd cap sl q + 1)"
    and after: "good cap sl (circ (unat cap) p 1) \<or> pd cap sl (circ (unat cap) p 1) \<le> pdist cap k p + 1"
  shows "robin_hood cap (sl[p := \<lparr>slot_key = k, slot_value = v\<rparr>])"
  unfolding robin_hood_def
proof (intro allI impI)
  let ?C = "unat cap" and ?s = "\<lparr>slot_key = k, slot_value = v\<rparr>"
  let ?sl = "sl[p := ?s]"
  fix i assume i: "i < ?C"
  have old: "good cap sl (circ ?C i 1) \<or> occ sl i \<and> pd cap sl (circ ?C i 1) \<le> pd cap sl i + 1"
    using assms(4) i by (simp add: robin_hood_def)
  have pnew: "?sl ! p = ?s" using assms by simp
  show "good cap ?sl (circ ?C i 1) \<or> occ ?sl i \<and> pd cap ?sl (circ ?C i 1) \<le> pd cap ?sl i + 1"
  proof (cases "circ ?C i 1 = p")
    case True
    from before show ?thesis
    proof
      assume "pdist cap k p = 0"
      then show ?thesis using True pnew by (simp add: good_def)
    next
      assume "\<exists>q < ?C. circ ?C q 1 = p \<and> occ sl q \<and> pdist cap k p \<le> pd cap sl q + 1"
      then obtain q where q: "q < ?C" "circ ?C q 1 = p" "occ sl q" "pdist cap k p \<le> pd cap sl q + 1"
        by blast
      have "q = i"
        using circ_inj [of q ?C i 1] q i True by (simp add: circ_def add.commute)
      show ?thesis
      proof (cases "i = p")
        case True
        then have "pdist cap k p \<le> pdist cap k p + 1 \<and> occ ?sl i"
          using assms by (simp add: occ_def)
        then show ?thesis using \<open>circ ?C i 1 = p\<close> True pnew by simp
      next
        case False
        then show ?thesis using q \<open>q = i\<close> True pnew assms by (simp add: occ_def)
      qed
    qed
  next
    case False
    then have nxt: "good cap ?sl (circ ?C i 1) = good cap sl (circ ?C i 1)"
      "pd cap ?sl (circ ?C i 1) = pd cap sl (circ ?C i 1)"
      by (simp_all add: good_def occ_def)
    show ?thesis
    proof (cases "i = p")
      case True
      then show ?thesis using after nxt pnew assms by (auto simp: occ_def)
    next
      case False
      then show ?thesis using old nxt by (simp add: occ_def)
    qed
  qed
qed

lemma insert_loop_present:
  assumes "slots_inv cap sl" "i < unat cap" "occ sl i" "slot_key (sl ! i) = key"
    and "j \<le> pdist cap key i" "unat pos = circ (unat cap) (home cap key) j" "unat ctr = j" "unat dist = j"
  shows "\<exists>p. insert_loop cap sl key v pos ctr dist = (sl, Some (key, v, p)) \<and> unat p = i"
  using assms(5-8)
proof (induction "pdist cap key i - j" arbitrary: j pos ctr dist)
  case 0
  then have "j = pdist cap key i" by simp
  with 0 have "unat pos = i" using assms by (simp only: circ_home_pdist slots_inv_def)
  then show ?case using assms by (simp add: insert_loop.simps)
next
  case (Suc n)
  have inv: "cap_ok cap" "length sl = unat cap" "robin_hood cap sl" "distinct (map slot_key (occs sl))"
    using assms(1) by (auto simp: slots_inv_def)
  have j: "Suc j \<le> pdist cap key i" using Suc.hyps by simp
  have jC: "Suc j < unat cap" using j pdist_less [OF inv(1)] le_less_trans by blast
  have pos: "unat pos < unat cap" using Suc.prems cap_ok_pos [OF inv(1)] by simp
  have o: "occ sl (unat pos)" "j \<le> pd cap sl (unat pos)"
    using robin_hood_chain [OF inv(1,3) assms(2,3), of j] assms(4) Suc.prems by simp_all
  have nk: "slot_key (sl ! unat pos) \<noteq> key"
  proof
    assume "slot_key (sl ! unat pos) = key"
    then have "unat pos = i"
      using occs_unique [OF inv(4), of "unat pos" i] o assms inv pos by simp
    then show False using j pdist_circ_home [OF inv(1), of j key] Suc.prems jC by simp
  qed
  have ctr: "unat (ctr + 1) = Suc j" and dist: "unat (dist + 1) = Suc j"
    using unat_u64_succ [of ctr cap] unat_u64_succ [of dist cap] jC Suc.prems by simp_all
  have "ctr + 1 \<noteq> cap" using jC ctr by auto
  moreover have "\<not> probe_distance cap (slot_key (sl ! unat pos)) pos < dist"
    using o Suc.prems by (simp add: word_less_nat_alt unat_probe_distance [OF inv(1) pos] not_less)
  ultimately have "insert_loop cap sl key v pos ctr dist =
      insert_loop cap sl key v ((pos + 1) AND fhm_mask cap) (ctr + 1) (dist + 1)"
    using o nk by (subst insert_loop.simps) (simp add: occ_def)
  moreover have "\<exists>p. insert_loop cap sl key v ((pos + 1) AND fhm_mask cap) (ctr + 1) (dist + 1) =
      (sl, Some (key, v, p)) \<and> unat p = i"
  proof (rule Suc.hyps(1))
    show "n = pdist cap key i - Suc j" using Suc.hyps(2) by simp
    show "unat ((pos + 1) AND fhm_mask cap) = circ (unat cap) (home cap key) (Suc j)"
      using Suc.prems inv by (simp add: unat_next circ_circ)
  qed (use j ctr dist in simp_all)
  ultimately show ?case by simp
qed

text \<open>
  What the loop of \<open>insert\<close> keeps while it carries an entry \<open>(k, v)\<close> that is not in the
  table to the slot \<open>pos\<close>: \<open>dist\<close> is its probe distance there, it fits behind the slot before,
  and an empty slot lies \<open>n\<close> steps ahead.
\<close>

definition carrying :: "u64 \<Rightarrow> 'v slot list \<Rightarrow> u64 \<Rightarrow> u64 \<Rightarrow> u64 \<Rightarrow> u64 \<Rightarrow> nat \<Rightarrow> bool" where
  "carrying cap sl k pos ctr dist n \<longleftrightarrow>
     cap_ok cap \<and> length sl = unat cap \<and> robin_hood cap sl \<and> k \<noteq> EMPTY \<and>
     distinct (k # map slot_key (occs sl)) \<and> unat pos < unat cap \<and>
     unat dist = pdist cap k (unat pos) \<and>
     (unat dist = 0 \<or> (\<exists>q < unat cap. circ (unat cap) q 1 = unat pos \<and> occ sl q \<and>
        unat dist \<le> pd cap sl q + 1)) \<and>
     unat dist \<le> unat ctr \<and> unat ctr + n < unat cap \<and> \<not> occ sl (circ (unat cap) (unat pos) n)"

lemma carrying_place:
  assumes "carrying cap sl k pos ctr dist n"
    and "good cap sl (circ (unat cap) (unat pos) 1) \<or>
      pd cap sl (circ (unat cap) (unat pos) 1) \<le> unat dist + 1"
  shows "robin_hood cap (sl[unat pos := \<lparr>slot_key = k, slot_value = v\<rparr>])"
  using assms unfolding carrying_def by (intro robin_hood_place) auto

lemma distinct_carry_swap:
  assumes "p < length sl" "occ sl p" "k \<noteq> EMPTY" "distinct (k # map slot_key (occs sl))"
  shows "distinct (slot_key (sl ! p) # map slot_key (occs (sl[p := \<lparr>slot_key = k, slot_value = v\<rparr>])))"
proof -
  have "mset (sl ! p # occs (sl[p := \<lparr>slot_key = k, slot_value = v\<rparr>])) =
      mset (\<lparr>slot_key = k, slot_value = v\<rparr> # occs sl)"
    using mset_occs_update [OF assms(1), of "\<lparr>slot_key = k, slot_value = v\<rparr>"] assms by simp
  then have "image_mset slot_key (mset (sl ! p # occs (sl[p := \<lparr>slot_key = k, slot_value = v\<rparr>]))) =
      image_mset slot_key (mset (\<lparr>slot_key = k, slot_value = v\<rparr> # occs sl))" by simp
  then have "mset (slot_key (sl ! p) # map slot_key (occs (sl[p := \<lparr>slot_key = k, slot_value = v\<rparr>]))) =
      mset (k # map slot_key (occs sl))" by (simp add: mset_map)
  then show ?thesis using assms(4) mset_eq_imp_distinct_iff by blast
qed

lemma carrying_swap:
  assumes c: "carrying cap sl k pos ctr dist (Suc n)" and o: "occ sl (unat pos)"
    and lt: "probe_distance cap (slot_key (sl ! unat pos)) pos < dist"
  shows "carrying cap (sl[unat pos := \<lparr>slot_key = k, slot_value = v\<rparr>]) (slot_key (sl ! unat pos))
    ((pos + 1) AND fhm_mask cap) (ctr + 1) (probe_distance cap (slot_key (sl ! unat pos)) pos + 1) n"
proof -
  let ?C = "unat cap" and ?p = "unat pos" and ?r = "slot_key (sl ! unat pos)"
  let ?sl = "sl[?p := \<lparr>slot_key = k, slot_value = v\<rparr>]"
  from c have cap: "cap_ok cap" and len: "length sl = ?C" and p: "?p < ?C" and ke: "k \<noteq> EMPTY"
    and rh: "robin_hood cap sl" and dist: "unat dist = pdist cap k ?p" and dc: "unat dist \<le> unat ctr"
    and cn: "unat ctr + Suc n < ?C" and e: "\<not> occ sl (circ ?C ?p (Suc n))"
    and d: "distinct (k # map slot_key (occs sl))"
    by (auto simp: carrying_def)
  have rd: "unat (probe_distance cap ?r pos) = pdist cap ?r ?p" "pdist cap ?r ?p < unat dist"
    using lt unat_probe_distance [OF cap p, of ?r] by (simp_all add: word_less_nat_alt)
  have rd1: "unat (probe_distance cap ?r pos + 1) = pdist cap ?r ?p + 1"
    using unat_u64_succ [of "probe_distance cap ?r pos" cap] rd pdist_less [OF cap] by simp
  have nxt: "unat ((pos + 1) AND fhm_mask cap) = circ ?C ?p 1" by (simp add: unat_next cap)
  have "good cap sl (circ ?C ?p 1) \<or> pd cap sl (circ ?C ?p 1) \<le> unat dist + 1"
    using rh p rd unfolding robin_hood_def by fastforce
  then have rh': "robin_hood cap ?sl" by (rule carrying_place [OF c])
  have ne: "circ ?C ?p (Suc n) \<noteq> ?p"
    using circ_inj [of "Suc n" ?C 0 ?p] cn p by (auto simp: circ_0)
  have "circ ?C ?p 1 < ?C" using cap_ok_pos [OF cap] by simp
  moreover have "pdist cap ?r (circ ?C ?p 1) = pdist cap ?r ?p + 1"
    by (rule pdist_next) (use cap p rd dc cn in simp_all)
  moreover have "\<exists>q < ?C. circ ?C q 1 = circ ?C ?p 1 \<and> occ ?sl q \<and> pdist cap ?r ?p + 1 \<le> pd cap ?sl q + 1"
    using p len ke rd dist by (intro exI [of _ ?p]) (auto simp: occ_def)
  moreover have "unat (ctr + 1) = unat ctr + 1" using unat_u64_succ [of ctr cap] cn by simp
  moreover have "\<not> occ ?sl (circ ?C (circ ?C ?p 1) n)"
    using e ne by (simp add: circ_circ occ_def)
  ultimately show ?thesis
    using cap len rh' o cn rd dc distinct_carry_swap [OF _ o ke d, of v] p
    unfolding carrying_def nxt rd1 by (auto simp: occ_def)
qed

lemma carrying_step:
  assumes c: "carrying cap sl k pos ctr dist (Suc n)" and o: "occ sl (unat pos)"
    and nlt: "\<not> probe_distance cap (slot_key (sl ! unat pos)) pos < dist"
  shows "carrying cap sl k ((pos + 1) AND fhm_mask cap) (ctr + 1) (dist + 1) n"
proof -
  let ?C = "unat cap" and ?p = "unat pos" and ?r = "slot_key (sl ! unat pos)"
  from c have cap: "cap_ok cap" and p: "?p < ?C"
    and dist: "unat dist = pdist cap k ?p" and dc: "unat dist \<le> unat ctr"
    and cn: "unat ctr + Suc n < ?C" and e: "\<not> occ sl (circ ?C ?p (Suc n))"
    by (auto simp: carrying_def)
  have rd: "unat dist \<le> pdist cap ?r ?p"
    using nlt unat_probe_distance [OF cap p, of ?r] by (simp add: word_less_nat_alt not_less)
  have nxt: "unat ((pos + 1) AND fhm_mask cap) = circ ?C ?p 1" by (simp add: unat_next cap)
  have "circ ?C ?p 1 < ?C" using cap_ok_pos [OF cap] by simp
  moreover have "unat (dist + 1) = unat dist + 1" "unat (ctr + 1) = unat ctr + 1"
    using unat_u64_succ [of dist cap] unat_u64_succ [of ctr cap] cn dc by simp_all
  moreover have "pdist cap k (circ ?C ?p 1) = pdist cap k ?p + 1"
    by (rule pdist_next) (use cap p dist dc cn in simp_all)
  moreover have "\<exists>q < ?C. circ ?C q 1 = circ ?C ?p 1 \<and> occ sl q \<and> pdist cap k ?p + 1 \<le> pd cap sl q + 1"
    using p o rd dist by (intro exI [of _ ?p]) auto
  moreover have "\<not> occ sl (circ ?C (circ ?C ?p 1) n)" using e by (simp add: circ_circ)
  ultimately show ?thesis
    using c cn dc dist unfolding carrying_def nxt by auto
qed

lemma good_update_other: "z \<noteq> p \<Longrightarrow> good cap (sl[p := s]) z = good cap sl z"
  by (simp add: good_def occ_def)

definition placed :: "u64 \<Rightarrow> 'v slot list \<Rightarrow> 'v slot \<Rightarrow> 'v slot list \<Rightarrow> bool" where
  "placed cap sl s sl' \<longleftrightarrow>
     length sl' = unat cap \<and> mset (occs sl') = mset (occs sl) + {#s#} \<and> robin_hood cap sl'"

lemma placed_empty:
  assumes c: "carrying cap sl k pos ctr dist n" and e: "\<not> occ sl (unat pos)"
  shows "placed cap sl \<lparr>slot_key = k, slot_value = v\<rparr> (sl[unat pos := \<lparr>slot_key = k, slot_value = v\<rparr>])"
proof -
  from c have p: "unat pos < length sl" "length sl = unat cap" "robin_hood cap sl" "k \<noteq> EMPTY"
    by (auto simp: carrying_def)
  then have "good cap sl (circ (unat cap) (unat pos) 1)"
    using e unfolding robin_hood_def by auto
  then have "robin_hood cap (sl[unat pos := \<lparr>slot_key = k, slot_value = v\<rparr>])"
    by (intro carrying_place [OF c]) simp
  then show ?thesis
    using p e mset_occs_update [OF p(1), of "\<lparr>slot_key = k, slot_value = v\<rparr>"] by (simp add: placed_def)
qed

lemma placed_swap:
  assumes "placed cap (sl[p := s]) (sl ! p) sl'" "p < length sl" "occ sl p" "slot_key s \<noteq> EMPTY"
  shows "placed cap sl s sl'"
  using assms mset_occs_update [OF assms(2), of s] by (simp add: placed_def)

lemma insert_loop_absent:
  assumes "carrying cap sl k pos ctr dist n" "good cap sl z"
    and "\<And>m. m \<le> n \<Longrightarrow> z \<noteq> circ (unat cap) (unat pos) m"
  shows "\<exists>sl' k' v' p. insert_loop cap sl k v pos ctr dist = (sl', Some (k', v', p)) \<and>
    \<not> occ sl' (unat p) \<and>
    placed cap sl \<lparr>slot_key = k, slot_value = v\<rparr> (sl'[unat p := \<lparr>slot_key = k', slot_value = v'\<rparr>]) \<and>
    good cap (sl'[unat p := \<lparr>slot_key = k', slot_value = v'\<rparr>]) z"
  using assms
proof (induction n arbitrary: sl k v pos ctr dist)
  case (0 sl k v pos ctr dist)
  then have "\<not> occ sl (unat pos)" "z \<noteq> unat pos"
    by (auto simp: carrying_def circ_0)
  then show ?case
    using 0 placed_empty [OF 0(1), of v] by (simp add: insert_loop.simps occ_def good_update_other)
next
  case (Suc n sl k v pos ctr dist)
  have cap: "cap_ok cap" and p: "unat pos < unat cap" and len: "length sl = unat cap"
    and ke: "k \<noteq> EMPTY" and cn: "unat ctr + Suc n < unat cap"
    and kd: "k \<notin> slot_key ` set (occs sl)"
    using Suc.prems(1) by (auto simp: carrying_def)
  have zp: "z \<noteq> unat pos" using Suc.prems(3) [of 0] p by (simp add: circ_0)
  have zn: "\<And>m. m \<le> n \<Longrightarrow> z \<noteq> circ (unat cap) (unat ((pos + 1) AND fhm_mask cap)) m"
    using Suc.prems(3) [of "Suc _"] by (simp add: unat_next cap circ_circ)
  show ?case
  proof (cases "occ sl (unat pos)")
    case False
    then show ?thesis
      using Suc.prems placed_empty [OF Suc.prems(1), of v] zp
      by (simp add: insert_loop.simps occ_def good_update_other)
  next
    case True
    let ?r = "slot_key (sl ! unat pos)" and ?sl = "sl[unat pos := \<lparr>slot_key = k, slot_value = v\<rparr>]"
    have "?r \<noteq> k" using kd occ_in_keys [of "unat pos" sl] True p len by auto
    moreover have "ctr + 1 \<noteq> cap" using unat_u64_succ [of ctr cap] cn by auto
    ultimately have go: "insert_loop cap sl k v pos ctr dist =
        (if probe_distance cap ?r pos < dist
         then insert_loop cap ?sl ?r (slot_value (sl ! unat pos))
            ((pos + 1) AND fhm_mask cap) (ctr + 1) (probe_distance cap ?r pos + 1)
         else insert_loop cap sl k v ((pos + 1) AND fhm_mask cap) (ctr + 1) (dist + 1))"
      using True by (subst insert_loop.simps) (simp add: occ_def Let_def)
    show ?thesis
    proof (cases "probe_distance cap ?r pos < dist")
      case lt: True
      have "good cap ?sl z" using Suc.prems(2) zp by (simp add: good_update_other)
      from Suc.IH [OF carrying_swap [OF Suc.prems(1) True lt] this zn, of "slot_value (sl ! unat pos)"]
      show ?thesis
        using go lt placed_swap [of cap sl "unat pos" "\<lparr>slot_key = k, slot_value = v\<rparr>"] True ke p len
        by fastforce
    next
      case nlt: False
      from Suc.IH [OF carrying_step [OF Suc.prems(1) True nlt] Suc.prems(2) zn, of v]
      show ?thesis using go nlt by simp
    qed
  qed
qed

lemma robin_hood_after_empty:
  "robin_hood cap sl \<Longrightarrow> i < unat cap \<Longrightarrow> \<not> occ sl i \<Longrightarrow> good cap sl (circ (unat cap) i 1)"
  unfolding robin_hood_def by blast

lemma exists_empty:
  assumes "cap_ok cap" "length sl = unat cap" "length (occs sl) < unat cap" "h < unat cap"
  obtains n where "n < unat cap" "\<not> occ sl (circ (unat cap) h n)"
proof -
  have "\<exists>i < length sl. \<not> occ sl i"
  proof (rule ccontr)
    assume "\<not> (\<exists>i < length sl. \<not> occ sl i)"
    then have "\<forall>s \<in> set sl. slot_key s \<noteq> EMPTY" by (auto simp: in_set_conv_nth occ_def)
    then have "occs sl = sl" by (simp add: occs_def filter_id_conv)
    with assms show False by simp
  qed
  then obtain i where "i < unat cap" "\<not> occ sl i" using assms by auto
  moreover obtain n where "n < unat cap" "i = circ (unat cap) h n"
    using circ_cases [OF \<open>i < unat cap\<close> assms(4)] by blast
  ultimately show thesis using that by blast
qed

lemma carrying_start:
  assumes "slots_inv cap sl" "key \<noteq> EMPTY" "key \<notin> slot_key ` set (occs sl)"
    and "n < unat cap" "\<not> occ sl (circ (unat cap) (home cap key) n)"
  shows "carrying cap sl key (fhm_hash key AND fhm_mask cap) 0 0 n"
proof -
  have cap: "cap_ok cap" using assms(1) by (simp add: slots_inv_def)
  have "pdist cap key (home cap key) = 0"
    using pdist_circ_home [OF cap, of 0 key] cap_ok_pos [OF cap] home_less [OF cap, of key]
    by (simp add: circ_0)
  then show ?thesis
    using assms home_less [OF cap, of key] unfolding carrying_def slots_inv_def home_def by auto
qed

text \<open>Into a table with a free slot, a new key goes in and the table stays well formed.\<close>

lemma insert_loop_new:
  assumes inv: "slots_inv cap sl" and ke: "key \<noteq> EMPTY" and new: "key \<notin> slot_key ` set (occs sl)"
    and room: "length (occs sl) < unat cap"
  shows "\<exists>sl' k' v' p. insert_loop cap sl key v (fhm_hash key AND fhm_mask cap) 0 0 = (sl', Some (k', v', p)) \<and>
    \<not> occ sl' (unat p) \<and>
    placed cap sl \<lparr>slot_key = key, slot_value = v\<rparr> (sl'[unat p := \<lparr>slot_key = k', slot_value = v'\<rparr>]) \<and>
    (\<exists>z < unat cap. good cap (sl'[unat p := \<lparr>slot_key = k', slot_value = v'\<rparr>]) z)"
proof -
  let ?h = "home cap key" and ?C = "unat cap" and ?pos = "fhm_hash key AND fhm_mask cap"
  from inv have cap: "cap_ok cap" and len: "length sl = ?C" and rh: "robin_hood cap sl"
    by (auto simp: slots_inv_def)
  have h: "?h < ?C" by (rule home_less [OF cap])
  have pos: "unat ?pos = ?h" by (simp add: home_def)
  obtain n where n: "n < ?C" "\<not> occ sl (circ ?C ?h n)" by (rule exists_empty [OF cap len room h])
  have c: "carrying cap sl key ?pos 0 0 n" by (rule carrying_start [OF inv ke new n])
  show ?thesis
  proof (cases "occ sl ?h")
    case False
    have "pdist cap key ?h = 0" using c pos by (simp add: carrying_def)
    then have "good cap (sl[?h := \<lparr>slot_key = key, slot_value = v\<rparr>]) ?h"
      using h len by (simp add: good_def)
    then show ?thesis
      using False h pos placed_empty [OF c, of v] by (auto simp: insert_loop.simps occ_def)
  next
    case True
    then obtain m where m: "n = Suc m" using n h by (cases n) (auto simp: circ_0)
    let ?z = "circ ?C ?h (Suc n)"
    have "?z = circ ?C (circ ?C ?h n) 1" by (simp add: circ_circ)
    then have gz: "good cap sl ?z"
      using robin_hood_after_empty [OF rh _ n(2)] cap_ok_pos [OF cap] by simp
    have zn: "?z \<noteq> circ ?C (unat ((?pos + 1) AND fhm_mask cap)) j" if "j \<le> m" for j
    proof
      assume "?z = circ ?C (unat ((?pos + 1) AND fhm_mask cap)) j"
      then have eq: "circ ?C ?h (Suc n) = circ ?C ?h (Suc j)" by (simp add: unat_next cap pos circ_circ)
      show False
      proof (cases "Suc n < ?C")
        case True
        then show False using circ_inj [OF _ _ eq] n that m by simp
      next
        case False
        then have "Suc n = ?C + 0" using n by simp
        then have "circ ?C ?h 0 = circ ?C ?h (Suc j)" using eq by (simp only: circ_add_n)
        then show False using circ_inj [of 0 ?C "Suc j" ?h] that m n by simp
      qed
    qed
    have c': "carrying cap sl key ((?pos + 1) AND fhm_mask cap) (0 + 1) (0 + 1) m"
      by (rule carrying_step) (use c m True pos in \<open>simp_all\<close>)
    have "slot_key (sl ! ?h) \<noteq> key" using new occ_in_keys [of ?h sl] True h len by auto
    moreover have "(0 :: u64) + 1 \<noteq> cap" using n m by auto
    ultimately have eq: "insert_loop cap sl key v ?pos 0 0 =
        insert_loop cap sl key v ((?pos + 1) AND fhm_mask cap) (0 + 1) (0 + 1)"
      using True pos by (subst insert_loop.simps) (simp add: occ_def Let_def)
    have z: "?z < ?C" using cap_ok_pos [OF cap] by simp
    from insert_loop_absent [OF c' gz zn, of v] show ?thesis
      unfolding eq using z by blast
  qed
qed

lemma placed_inv:
  assumes "placed cap sl s sl'" "slots_inv cap sl" "slot_key s \<notin> slot_key ` set (occs sl)"
    and "\<exists>z < unat cap. good cap sl' z"
  shows "slots_inv cap sl'" "length (occs sl') = length (occs sl) + 1"
proof -
  have m: "mset (occs sl') = mset (s # occs sl)" using assms(1) by (simp add: placed_def)
  then have "mset (map slot_key (occs sl')) = mset (map slot_key (s # occs sl))"
    by (simp only: mset_map)
  moreover have "distinct (map slot_key (s # occs sl))"
    using assms by (simp add: slots_inv_def)
  ultimately have "distinct (map slot_key (occs sl'))" using mset_eq_imp_distinct_iff by blast
  with assms show "slots_inv cap sl'" by (auto simp: slots_inv_def placed_def)
  show "length (occs sl') = length (occs sl) + 1"
    using arg_cong [OF m, of size] by simp
qed

lemma fhm_abs_eqI:
  assumes "distinct (map slot_key (occs (fm_slots m)))"
    and "\<And>k v. f k = Some v \<longleftrightarrow> \<lparr>slot_key = k, slot_value = v\<rparr> \<in> set (occs (fm_slots m))"
  shows "fhm_abs m = f"
proof
  fix k
  have "fhm_abs m k = Some v \<longleftrightarrow> f k = Some v" for v
    using fhm_abs_Some_iff [OF assms(1)] assms(2) by simp
  then show "fhm_abs m k = f k" by (metis option.exhaust)
qed

lemma length_occs_le: "length (occs sl) \<le> length sl"
  by (simp add: occs_def)

lemma fhm_insert_new:
  assumes inv: "fhm_inv cap m" and ke: "key \<noteq> EMPTY" and new: "key \<notin> dom (fhm_abs m)"
    and room: "unat (fm_size m) < unat cap"
  shows "\<exists>m'. fhm_insert cap m key v = (m', True) \<and> fhm_inv cap m' \<and>
    fhm_abs m' = (fhm_abs m)(key \<mapsto> v) \<and> fm_size m' = fm_size m + 1"
proof -
  let ?sl = "fm_slots m" and ?s = "\<lparr>slot_key = key, slot_value = v\<rparr>"
  from inv have sinv: "slots_inv cap ?sl" and sz: "unat (fm_size m) = length (occs ?sl)"
    by (auto simp: fhm_inv_def)
  have nk: "key \<notin> slot_key ` set (occs ?sl)" using new by (simp add: dom_fhm_abs)
  obtain sl' k' v' p where r: "insert_loop cap ?sl key v (fhm_hash key AND fhm_mask cap) 0 0 = (sl', Some (k', v', p))"
    "\<not> occ sl' (unat p)" and pl: "placed cap ?sl ?s (sl'[unat p := \<lparr>slot_key = k', slot_value = v'\<rparr>])"
    and z: "\<exists>z < unat cap. good cap (sl'[unat p := \<lparr>slot_key = k', slot_value = v'\<rparr>]) z"
    using insert_loop_new [OF sinv ke nk, of v] room unfolding sz by blast
  let ?m = "m\<lparr>fm_slots := sl'[unat p := \<lparr>slot_key = k', slot_value = v'\<rparr>], fm_size := fm_size m + 1\<rparr>"
  have "slot_key ?s \<notin> slot_key ` set (occs ?sl)" using nk by simp
  note inv' = placed_inv [OF pl sinv this z]
  have "fhm_insert cap m key v = (?m, True)"
    using r by (simp add: fhm_insert_def occ_def)
  moreover have "fhm_inv cap ?m"
    using inv' sz unat_u64_succ [OF room] by (simp add: fhm_inv_def)
  moreover have "fhm_abs ?m = (fhm_abs m)(key \<mapsto> v)"
  proof (rule fhm_abs_eqI)
    show "distinct (map slot_key (occs (fm_slots ?m)))" using inv' by (simp add: slots_inv_def)
    have d: "distinct (map slot_key (occs ?sl))" using sinv by (simp add: slots_inv_def)
    have "mset (occs (fm_slots ?m)) = mset (?s # occs ?sl)" using pl by (simp add: placed_def)
    then have "set (occs (fm_slots ?m)) = insert ?s (set (occs ?sl))"
      unfolding mset_eq_setD [OF \<open>mset (occs (fm_slots ?m)) = _\<close>] by simp
    then have in_m: "\<lparr>slot_key = k, slot_value = w\<rparr> \<in> set (occs (fm_slots ?m)) \<longleftrightarrow>
        k = key \<and> w = v \<or> fhm_abs m k = Some w" for k w
      using fhm_abs_Some_iff [OF d, of k w] by simp
    have "fhm_abs m key = None" using new by (simp add: domIff)
    then show "((fhm_abs m)(key \<mapsto> v)) k = Some w \<longleftrightarrow>
        \<lparr>slot_key = k, slot_value = w\<rparr> \<in> set (occs (fm_slots ?m))" for k w
      unfolding in_m by auto
  qed
  ultimately show ?thesis by auto
qed

lemma occs_keys: "map slot_key (occs sl) = filter (\<lambda>k. k \<noteq> EMPTY) (map slot_key sl)"
  by (simp add: occs_def filter_map comp_def)

lemma slots_inv_cong:
  assumes "map slot_key sl' = map slot_key sl" "slots_inv cap sl"
  shows "slots_inv cap sl'" "length (occs sl') = length (occs sl)"
proof -
  have len: "length sl' = length sl" using assms(1) by (rule map_eq_imp_length_eq)
  have k: "slot_key (sl' ! i) = slot_key (sl ! i)" if "i < length sl" for i
    using assms(1) that len by (metis nth_map)
  have cap: "cap_ok cap" "length sl = unat cap" using assms(2) by (auto simp: slots_inv_def)
  have o: "occ sl' i = occ sl i" "good cap sl' i = good cap sl i" "pd cap sl' i = pd cap sl i"
    if "i < unat cap" for i
    using k [of i] that cap by (simp_all add: good_def occ_def)
  have "robin_hood cap sl'"
    using assms(2) cap_ok_pos [OF cap(1)] o unfolding slots_inv_def robin_hood_def by auto
  moreover have keys: "map slot_key (occs sl') = map slot_key (occs sl)"
    by (simp only: occs_keys assms(1))
  ultimately show "slots_inv cap sl'"
    using assms(2) len o by (auto simp: slots_inv_def)
  show "length (occs sl') = length (occs sl)"
    using arg_cong [OF keys, of length] by simp
qed

lemma fhm_abs_nth_iff:
  assumes "slots_inv cap (fm_slots m)"
  shows "fhm_abs m k = Some v \<longleftrightarrow>
    (\<exists>i < unat cap. occ (fm_slots m) i \<and> fm_slots m ! i = \<lparr>slot_key = k, slot_value = v\<rparr>)"
proof -
  have "distinct (map slot_key (occs (fm_slots m)))" "length (fm_slots m) = unat cap"
    using assms by (auto simp: slots_inv_def)
  then show ?thesis
    by (auto simp: fhm_abs_Some_iff occs_def occ_def in_set_conv_nth)
qed

text \<open>Inserting a stored key overwrites its value and nothing else, whatever the load.\<close>

lemma fhm_insert_existing:
  assumes inv: "fhm_inv cap m" and ke: "key \<noteq> EMPTY" and old: "key \<in> dom (fhm_abs m)"
  shows "\<exists>m'. fhm_insert cap m key v = (m', True) \<and> fhm_inv cap m' \<and>
    fhm_abs m' = (fhm_abs m)(key \<mapsto> v) \<and> fm_size m' = fm_size m"
proof -
  let ?sl = "fm_slots m" and ?s = "\<lparr>slot_key = key, slot_value = v\<rparr>"
  from inv have sinv: "slots_inv cap ?sl" and sz: "unat (fm_size m) = length (occs ?sl)"
    by (auto simp: fhm_inv_def)
  then have cap: "cap_ok cap" and len: "length ?sl = unat cap"
    and d: "distinct (map slot_key (occs ?sl))" by (auto simp: slots_inv_def)
  obtain i where i: "i < unat cap" "occ ?sl i" "slot_key (?sl ! i) = key"
    using old len by (auto simp: in_dom_fhm_abs)
  obtain p where r: "insert_loop cap ?sl key v (fhm_hash key AND fhm_mask cap) 0 0 = (?sl, Some (key, v, p))"
      "unat p = i"
    using insert_loop_present [OF sinv i, of 0 "fhm_hash key AND fhm_mask cap" 0 0 v]
      home_less [OF cap, of key] by (auto simp: home_def circ_0)
  let ?m = "m\<lparr>fm_slots := ?sl[i := ?s], fm_size := fm_size m\<rparr>"
  have keys: "map slot_key (?sl[i := ?s]) = map slot_key ?sl"
    using i len by (simp add: map_update list_update_same_conv)
  note inv' = slots_inv_cong [OF keys sinv]
  have "fhm_insert cap m key v = (?m, True)"
    using r i ke by (simp add: fhm_insert_def)
  moreover have "fhm_inv cap ?m" using inv' sz by (simp add: fhm_inv_def)
  moreover have "fhm_abs ?m = (fhm_abs m)(key \<mapsto> v)"
  proof
    fix k
    have si: "slots_inv cap (fm_slots ?m)" using inv' by simp
    show "fhm_abs ?m k = ((fhm_abs m)(key \<mapsto> v)) k"
    proof (cases "k = key")
      case True
      have "fhm_abs ?m key = Some v"
        using i len ke by (intro fhm_abs_nth_iff [OF si, THEN iffD2] exI [of _ i]) (simp add: occ_def)
      with True show ?thesis by simp
    next
      case False
      have "occ (?sl[i := ?s]) j \<and> ?sl[i := ?s] ! j = \<lparr>slot_key = k, slot_value = w\<rparr> \<longleftrightarrow>
          occ ?sl j \<and> ?sl ! j = \<lparr>slot_key = k, slot_value = w\<rparr>" for j w
        using False i len by (cases "j = i") (auto simp: occ_def)
      then have "fhm_abs ?m k = Some w \<longleftrightarrow> fhm_abs m k = Some w" for w
        using fhm_abs_nth_iff [OF si, of k w] fhm_abs_nth_iff [OF sinv, of k w] by simp
      then have "fhm_abs ?m k = fhm_abs m k" by (metis option.exhaust)
      with False show ?thesis by simp
    qed
  qed
  ultimately show ?thesis by auto
qed

lemma fhm_insert_True:
  assumes "fhm_inv cap m" "key \<noteq> EMPTY" "unat (fm_size m) < unat cap \<or> key \<in> dom (fhm_abs m)"
  shows "\<exists>m'. fhm_insert cap m key v = (m', True) \<and> fhm_inv cap m' \<and>
    fhm_abs m' = (fhm_abs m)(key \<mapsto> v) \<and>
    unat (fm_size m') = card (insert key (dom (fhm_abs m)))"
proof -
  have card: "unat (fm_size x) = card (dom (fhm_abs x))" if "fhm_inv cap x" for x :: "'a flat_hash_map"
  proof -
    from that have d: "distinct (map slot_key (occs (fm_slots x)))"
      by (simp add: fhm_inv_def slots_inv_def)
    have "dom (fhm_abs x) = set (map slot_key (occs (fm_slots x)))" by (simp add: dom_fhm_abs)
    with that show ?thesis by (simp only: distinct_card [OF d] length_map fhm_inv_def)
  qed
  obtain m' where "fhm_insert cap m key v = (m', True)" "fhm_inv cap m'"
      "fhm_abs m' = (fhm_abs m)(key \<mapsto> v)"
    using fhm_insert_new [OF assms(1,2)] fhm_insert_existing [OF assms(1,2)] assms(3) by blast
  with card show ?thesis by auto
qed

text \<open>With every slot taken, a new key is refused. The loop has then visited all slots but one, and may have
  put the new entry into one of them and carried a resident one on.\<close>

definition all_taken :: "u64 \<Rightarrow> 'v slot list \<Rightarrow> bool" where
  "all_taken cap sl \<longleftrightarrow> cap_ok cap \<and> length sl = unat cap \<and> (\<forall>i<unat cap. occ sl i)"

definition one_lost :: "u64 \<Rightarrow> 'v slot list \<Rightarrow> 'v slot \<Rightarrow> nat \<Rightarrow> nat \<Rightarrow> 'v slot list \<Rightarrow> bool" where
  "one_lost cap sl s p n sl' \<longleftrightarrow> all_taken cap sl' \<and> (\<exists>lost. add_mset lost (mset sl') = add_mset s (mset sl)) \<and>
     (\<forall>z<unat cap. (\<forall>j. Suc j + n < unat cap \<longrightarrow> z \<noteq> circ (unat cap) p j) \<longrightarrow> sl' ! z = sl ! z)"

lemma full_occs: "all_taken cap sl \<Longrightarrow> occs sl = sl"
  by (auto simp: all_taken_def occs_def occ_def in_set_conv_nth intro!: filter_True)

lemma full_update: "all_taken cap sl \<Longrightarrow> slot_key s \<noteq> EMPTY \<Longrightarrow> all_taken cap (sl[p := s])"
  by (cases "p < length sl") (simp_all add: all_taken_def occ_update list_update_beyond)

lemma mset_swap: "p < length sl \<Longrightarrow> add_mset (sl ! p) (mset (sl[p := s])) = add_mset s (mset sl)"
  by (simp add: mset_update)

lemma one_lost_swap:
  assumes "one_lost cap (sl[p := s]) (sl ! p) (circ (unat cap) p 1) (Suc n) sl'" "all_taken cap sl" "p < unat cap" "Suc n < unat cap"
  shows "one_lost cap sl s p n sl'" "sl' ! p = s"
proof -
  have len: "p < length sl" using assms(2,3) by (simp add: all_taken_def)
  have later: "circ (unat cap) (circ (unat cap) p 1) j = circ (unat cap) p (Suc j)" for j by (simp add: circ_circ)
  have F: "sl' ! z = sl[p := s] ! z" if "z < unat cap" "\<And>j. Suc (Suc j) + n < unat cap \<Longrightarrow> z \<noteq> circ (unat cap) p (Suc j)" for z
    using assms(1) that unfolding one_lost_def later by simp
  have "p \<noteq> circ (unat cap) p (Suc j)" if "Suc (Suc j) + n < unat cap" for j
    using circ_inj [of "Suc j" "unat cap" 0 p] that assms(3) by (auto simp: circ_0)
  then show "sl' ! p = s" using F [OF assms(3)] len by simp
  have "sl' ! z = sl ! z" if z: "z < unat cap" "\<forall>j. Suc j + n < unat cap \<longrightarrow> z \<noteq> circ (unat cap) p j" for z
  proof -
    have "z \<noteq> p" using z(2) [rule_format, of 0] assms(3,4) by (simp add: circ_0)
    then show ?thesis using F [OF z(1)] z(2) by auto
  qed
  then show "one_lost cap sl s p n sl'" using assms(1) mset_swap [OF len, of s] by (simp add: one_lost_def)
qed

lemma one_lost_step:
  assumes "one_lost cap sl s (circ (unat cap) p 1) (Suc n) sl'"
  shows "one_lost cap sl s p n sl'"
proof -
  have later: "circ (unat cap) (circ (unat cap) p 1) j = circ (unat cap) p (Suc j)" for j by (simp add: circ_circ)
  show ?thesis using assms unfolding one_lost_def later by auto
qed

lemma insert_loop_full:
  assumes "all_taken cap sl" "k \<noteq> EMPTY" "distinct (k # map slot_key sl)" "unat pos < unat cap" "unat ctr < unat cap"
  shows "\<exists>sl'. insert_loop cap sl k v pos ctr dist = (sl', None) \<and>
    one_lost cap sl \<lparr>slot_key = k, slot_value = v\<rparr> (unat pos) (unat ctr) sl'"
  using assms
proof (induction cap sl k v pos ctr dist rule: insert_loop.induct)
  case (1 cap sl k v pos ctr dist)
  let ?s = "sl ! unat pos" and ?new = "\<lparr>slot_key = k, slot_value = v\<rparr>"
  let ?sl = "sl[unat pos := ?new]"
  let ?rd = "probe_distance cap (slot_key ?s) pos" and ?nxt = "(pos + 1) AND fhm_mask cap"
  have cap: "cap_ok cap" and p: "unat pos < length sl" using 1 by (simp_all add: all_taken_def)
  have "slot_key ?s \<in> set (map slot_key sl)" using p by simp
  then have b: "slot_key ?s \<noteq> EMPTY \<and> slot_key ?s \<noteq> k" using 1 by (auto simp: all_taken_def occ_def)
  have n: "unat ?nxt = circ (unat cap) (unat pos) 1" "unat ?nxt < unat cap" using cap cap_ok_pos [OF cap] by (simp_all add: unat_next)
  show ?case
  proof (cases "ctr + 1 = cap")
    case True
    have "unat (ctr + 1) = Suc (unat ctr)" using unat_u64_succ [of ctr cap] 1 by simp
    then show ?thesis using b True 1 by (subst insert_loop.simps) (auto simp: Let_def one_lost_def)
  next
    case False
    have c: "unat (ctr + 1) = Suc (unat ctr)" "Suc (unat ctr) < unat cap"
      using unat_u64_succ [of ctr cap] 1 False word_unat_eq_iff [of "ctr + 1" cap] by auto
    show ?thesis
    proof (cases "?rd < dist")
      case True
      have fl: "all_taken cap ?sl" using full_update [OF "1.prems"(1), of ?new] "1.prems"(2) by simp
      have "distinct (slot_key ?s # map slot_key ?sl)"
        using distinct_carry_swap [OF p, of k v] 1 b full_occs [OF fl] full_occs [OF "1.prems"(1)] by (simp add: occ_def)
      then obtain sl' where "insert_loop cap ?sl (slot_key ?s) (slot_value ?s) ?nxt (ctr + 1) (?rd + 1) = (sl', None)"
          "one_lost cap ?sl ?s (unat ?nxt) (Suc (unat ctr)) sl'"
        using "1.IH"(1) [OF refl b False refl True fl] b n c by auto
      then show ?thesis
        using one_lost_swap(1) [of cap sl "unat pos" ?new "unat ctr" sl'] 1 b False True n c by (subst insert_loop.simps) (simp add: Let_def)
    next
      case nlt: False
      obtain sl' where "insert_loop cap sl k v ?nxt (ctr + 1) (dist + 1) = (sl', None)" "one_lost cap sl ?new (unat ?nxt) (Suc (unat ctr)) sl'"
        using "1.IH"(2) [OF refl b False refl nlt] 1 n c by auto
      then show ?thesis
        using one_lost_step [of cap sl ?new "unat pos" "unat ctr" sl'] b False nlt n by (subst insert_loop.simps) (simp add: Let_def)
    qed
  qed
qed

text \<open>Whether the loop will meet a resident that is nearer to its home than the new entry would be there.\<close>

definition displaces :: "u64 \<Rightarrow> 'v slot list \<Rightarrow> nat \<Rightarrow> nat \<Rightarrow> nat \<Rightarrow> bool" where
  "displaces cap sl p n d \<longleftrightarrow> (\<exists>i. Suc i + n < unat cap \<and> pd cap sl (circ (unat cap) p i) < d + i)"

lemma displaces_step:
  assumes "p < unat cap" "d \<le> pd cap sl p"
  shows "displaces cap sl p n d \<longleftrightarrow> displaces cap sl (circ (unat cap) p 1) (Suc n) (Suc d)"
proof -
  have later: "circ (unat cap) (circ (unat cap) p 1) j = circ (unat cap) p (Suc j)" for j by (simp add: circ_circ)
  have "(\<exists>i. Q i) \<longleftrightarrow> (\<exists>i. Q (Suc i))" if "\<not> Q 0" for Q :: "nat \<Rightarrow> bool" using that by (metis not0_implies_Suc)
  from this [of "\<lambda>i. Suc i + n < unat cap \<and> pd cap sl (circ (unat cap) p i) < d + i"] show ?thesis
    using assms unfolding displaces_def later by (simp add: circ_0)
qed

lemma insert_loop_displaces:
  assumes "all_taken cap sl" "k \<noteq> EMPTY" "distinct (k # map slot_key sl)" "unat pos < unat cap" "unat ctr < unat cap" "unat dist \<le> unat ctr"
    and "insert_loop cap sl k v pos ctr dist = (sl', None)"
  shows "if displaces cap sl (unat pos) (unat ctr) (unat dist) then \<lparr>slot_key = k, slot_value = v\<rparr> \<in> set sl' else sl' = sl"
  using assms
proof (induction cap sl k v pos ctr dist rule: insert_loop.induct)
  case (1 cap sl k v pos ctr dist)
  let ?s = "sl ! unat pos" and ?new = "\<lparr>slot_key = k, slot_value = v\<rparr>"
  let ?sl = "sl[unat pos := ?new]"
  let ?rd = "probe_distance cap (slot_key ?s) pos" and ?nxt = "(pos + 1) AND fhm_mask cap"
  have cap: "cap_ok cap" and p: "unat pos < length sl" using 1 by (simp_all add: all_taken_def)
  have "slot_key ?s \<in> set (map slot_key sl)" using p by simp
  then have b: "slot_key ?s \<noteq> EMPTY \<and> slot_key ?s \<noteq> k" using 1 by (auto simp: all_taken_def occ_def)
  have n: "unat ?nxt = circ (unat cap) (unat pos) 1" "unat ?nxt < unat cap" using cap cap_ok_pos [OF cap] by (simp_all add: unat_next)
  have rd: "unat ?rd = pd cap sl (unat pos)" using unat_probe_distance [OF cap "1.prems"(4)] by simp
  show ?case
  proof (cases "ctr + 1 = cap")
    case True
    have "unat (ctr + 1) = Suc (unat ctr)" using unat_u64_succ [of ctr cap] 1 by simp
    then have "\<not> displaces cap sl (unat pos) (unat ctr) (unat dist)" using True by (auto simp: displaces_def)
    moreover have "sl' = sl" using "1.prems"(7) b True by (subst (asm) insert_loop.simps) (simp add: Let_def)
    ultimately show ?thesis by simp
  next
    case False
    have c: "unat (ctr + 1) = Suc (unat ctr)" "Suc (unat ctr) < unat cap"
      using unat_u64_succ [of ctr cap] 1 False word_unat_eq_iff [of "ctr + 1" cap] by auto
    show ?thesis
    proof (cases "?rd < dist")
      case True
      have fl: "all_taken cap ?sl" using full_update [OF "1.prems"(1), of ?new] "1.prems"(2) by simp
      have d: "distinct (slot_key ?s # map slot_key ?sl)"
        using distinct_carry_swap [OF p, of k v] 1 b full_occs [OF fl] full_occs [OF "1.prems"(1)] by (simp add: occ_def)
      have e: "insert_loop cap ?sl (slot_key ?s) (slot_value ?s) ?nxt (ctr + 1) (?rd + 1) = (sl', None)"
        using "1.prems"(7) b False True by (subst (asm) insert_loop.simps) (simp add: Let_def)
      have "one_lost cap ?sl ?s (unat ?nxt) (Suc (unat ctr)) sl'"
        using insert_loop_full [OF fl _ d n(2), of "ctr + 1" "slot_value ?s" "?rd + 1"] e b c by auto
      then have "sl' ! unat pos = ?new" "all_taken cap sl'"
        using one_lost_swap [of cap sl "unat pos" ?new "unat ctr" sl'] 1 n c by (auto simp: one_lost_def)
      then have "?new \<in> set sl'" using "1.prems"(4) by (metis all_taken_def nth_mem)
      moreover have "displaces cap sl (unat pos) (unat ctr) (unat dist)"
        unfolding displaces_def using True rd c "1.prems"(4) by (intro exI [of _ 0]) (simp add: circ_0 word_less_nat_alt)
      ultimately show ?thesis by simp
    next
      case nlt: False
      have e: "insert_loop cap sl k v ?nxt (ctr + 1) (dist + 1) = (sl', None)"
        using "1.prems"(7) b False nlt by (subst (asm) insert_loop.simps) (simp add: Let_def)
      have "unat dist < unat cap" using "1.prems"(5,6) by linarith
      then have d: "unat (dist + 1) = Suc (unat dist)" using unat_u64_succ [of dist cap] by simp
      have "unat dist \<le> pd cap sl (unat pos)" using nlt rd by (simp add: word_less_nat_alt)
      note D = displaces_step [OF "1.prems"(4) this, of "unat ctr"]
      show ?thesis unfolding D using "1.IH"(2) [OF refl b False refl nlt] 1 n c d e by simp
    qed
  qed
qed

lemma full_of_size:
  assumes "fhm_inv cap m" "unat (fm_size m) = unat cap"
  shows "all_taken cap (fm_slots m)"
proof -
  have len: "length (fm_slots m) = unat cap" "length (occs (fm_slots m)) = unat cap" "cap_ok cap"
    using assms by (auto simp: fhm_inv_def slots_inv_def)
  then have "occ (fm_slots m) i" if "i < unat cap" for i
    using that length_filter_eq_length [of "\<lambda>s. slot_key s \<noteq> EMPTY" "fm_slots m" "fm_slots m ! i"] by (simp add: occs_def occ_def)
  then show ?thesis using len by (simp add: all_taken_def)
qed

lemma fhm_insert_full:
  assumes inv: "fhm_inv cap m" and ke: "key \<noteq> EMPTY" and new: "key \<notin> dom (fhm_abs m)"
    and size: "unat (fm_size m) = unat cap"
  shows "\<exists>sl'. fhm_insert cap m key v = (m\<lparr>fm_slots := sl'\<rparr>, False) \<and> all_taken cap sl' \<and>
    (\<exists>lost. add_mset lost (mset sl') = add_mset \<lparr>slot_key = key, slot_value = v\<rparr> (mset (fm_slots m))) \<and>
    (if displaces cap (fm_slots m) (home cap key) 0 0 then \<lparr>slot_key = key, slot_value = v\<rparr> \<in> set sl' else sl' = fm_slots m)"
proof -
  let ?sl = "fm_slots m" and ?pos = "fhm_hash key AND fhm_mask cap"
  have fl: "all_taken cap ?sl" by (rule full_of_size [OF inv size])
  then have cap: "cap_ok cap" by (simp add: all_taken_def)
  have d: "distinct (key # map slot_key ?sl)"
    using inv new full_occs [OF fl] by (auto simp: fhm_inv_def slots_inv_def dom_fhm_abs)
  have p: "unat ?pos = home cap key" "unat ?pos < unat cap" "unat (0 :: u64) < unat cap"
    using home_less [OF cap, of key] cap_ok_pos [OF cap] by (simp_all add: home_def)
  obtain sl' where e: "insert_loop cap ?sl key v ?pos 0 0 = (sl', None)" "one_lost cap ?sl \<lparr>slot_key = key, slot_value = v\<rparr> (unat ?pos) 0 sl'"
    using insert_loop_full [OF fl ke d p(2,3)] by auto
  have "if displaces cap ?sl (home cap key) 0 0 then \<lparr>slot_key = key, slot_value = v\<rparr> \<in> set sl' else sl' = ?sl"
    using insert_loop_displaces [OF fl ke d p(2,3) _ e(1)] p(1) by simp
  then show ?thesis using e by (auto simp: fhm_insert_def one_lost_def)
qed

section \<open>Erasure\<close>

text \<open>
  The table after \<open>t\<close> iterations of the backshift loop, started at the erased slot \<open>p\<close>:
  the \<open>t\<close> entries after \<open>p\<close> have moved back by one slot and the hole is at \<open>p + t\<close>.
\<close>

definition shifted :: "u64 \<Rightarrow> 'v slot list \<Rightarrow> nat \<Rightarrow> nat \<Rightarrow> 'v slot list \<Rightarrow> bool" where
  "shifted cap sl p t sl' \<longleftrightarrow> length sl' = unat cap \<and>
     (\<forall>j < unat cap. sl' ! circ (unat cap) p j =
        (if j < t then sl ! circ (unat cap) p (Suc j)
         else if j = t then (sl ! circ (unat cap) p j)\<lparr>slot_key := EMPTY\<rparr>
         else sl ! circ (unat cap) p j))"

lemma shifted_start:
  assumes "cap_ok cap" "length sl = unat cap" "p < unat cap"
  shows "shifted cap sl p 0 (sl[p := (sl ! p)\<lparr>slot_key := EMPTY\<rparr>])"
proof -
  have "circ (unat cap) p j = p \<longleftrightarrow> j = 0" if "j < unat cap" for j
    using that assms circ_inj [of j "unat cap" 0 p] by (auto simp: circ_0)
  then have "p = circ (unat cap) p j \<longleftrightarrow> j = 0" if "j < unat cap" for j
    using that by (metis (no_types))
  then show ?thesis using assms by (auto simp: shifted_def nth_list_update circ_0)
qed

lemma shifted_step:
  assumes "cap_ok cap" "shifted cap sl p t sl'" "Suc t < unat cap"
  shows "shifted cap sl p (Suc t)
    (sl'[circ (unat cap) p t := sl' ! circ (unat cap) p (Suc t),
         circ (unat cap) p (Suc t) := (sl' ! circ (unat cap) p (Suc t))\<lparr>slot_key := EMPTY\<rparr>])"
  (is "shifted _ _ _ _ ?sl")
  unfolding shifted_def
proof (intro conjI allI impI)
  let ?c = "circ (unat cap) p"
  have len: "length sl' = unat cap" using assms by (simp add: shifted_def)
  show "length ?sl = unat cap" using len by simp
  fix j assume j: "j < unat cap"
  have eq: "?c j = ?c i \<longleftrightarrow> j = i" if "i < unat cap" for i
    using circ_inj [OF j that, of p] by blast
  have "?c t < unat cap" "?c (Suc t) < unat cap" using cap_ok_pos [OF assms(1)] by simp_all
  then show "?sl ! ?c j =
      (if j < Suc t then sl ! ?c (Suc j)
       else if j = Suc t then (sl ! ?c j)\<lparr>slot_key := EMPTY\<rparr> else sl ! ?c j)"
    using assms(2,3) j len eq [of t] eq [of "Suc t"]
    by (auto simp: nth_list_update shifted_def)
qed

text \<open>Where the loop stops: the number of entries that move back.\<close>

definition stops_at :: "u64 \<Rightarrow> 'v slot list \<Rightarrow> nat \<Rightarrow> nat \<Rightarrow> bool" where
  "stops_at cap sl p s \<longleftrightarrow> s < unat cap \<and>
     (Suc s = unat cap \<or> good cap sl (circ (unat cap) p (Suc s))) \<and>
     (\<forall>t < s. \<not> good cap sl (circ (unat cap) p (Suc t)))"

lemma stops_at_ex:
  assumes "cap_ok cap"
  obtains s where "stops_at cap sl p s"
proof -
  let ?P = "\<lambda>s. Suc s = unat cap \<or> good cap sl (circ (unat cap) p (Suc s))"
  have P: "?P (unat cap - 1)" using cap_ok_pos [OF assms] by simp
  define s where "s = (LEAST s. ?P s)"
  have "?P s" unfolding s_def by (rule LeastI [of ?P, OF P])
  moreover have "s < unat cap"
    using Least_le [of ?P, OF P] cap_ok_pos [OF assms] unfolding s_def [symmetric] by simp
  moreover have "\<not> ?P t" if "t < s" for t using that not_less_Least [of t ?P] unfolding s_def by blast
  ultimately have "stops_at cap sl p s" by (auto simp: stops_at_def)
  then show thesis by (rule that)
qed

text \<open>When every other slot is displaced, the erased entry was at home, so the next one moves home.\<close>

lemma stops_at_wrap:
  assumes inv: "slots_inv cap sl" and p: "p < unat cap" "occ sl p"
    and s: "stops_at cap sl p s" "Suc s = unat cap" "0 < s"
  shows "occ sl (circ (unat cap) p 1) \<and> pdist cap (slot_key (sl ! circ (unat cap) p 1)) p = 0"
proof -
  let ?c = "circ (unat cap) p"
  from inv have cap: "cap_ok cap" and rh: "robin_hood cap sl" by (auto simp: slots_inv_def)
  obtain z where z: "z < unat cap" "good cap sl z" using inv by (auto simp: slots_inv_def)
  then obtain j where j: "j < unat cap" "z = ?c j" using circ_cases [OF z(1) p(1)] by blast
  have "j = 0"
  proof (rule ccontr)
    assume "j \<noteq> 0"
    then obtain t where "j = Suc t" by (cases j) auto
    then show False using s j z by (auto simp: stops_at_def)
  qed
  then have p0: "pd cap sl p = 0" using z j p by (simp add: circ_0 good_def)
  have ng: "\<not> good cap sl (?c 1)" using s by (auto simp: stops_at_def)
  then have "pd cap sl (?c 1) \<le> 1" using rh p p0 unfolding robin_hood_def by fastforce
  moreover have "pd cap sl (?c 1) = pdist cap (slot_key (sl ! ?c 1)) p + 1"
    using ng cap p by (intro pdist_next_pos) (auto simp: good_def)
  ultimately show ?thesis using ng by (simp add: good_def)
qed

lemma mset_shift_step:
  assumes "a < length sl" "b < length sl" "a \<noteq> b" "\<not> occ sl a" "occ sl b"
  shows "mset (occs (sl[a := sl ! b, b := (sl ! b)\<lparr>slot_key := EMPTY\<rparr>])) = mset (occs sl)"
proof -
  let ?sl = "sl[a := sl ! b]"
  have "mset (occs ?sl) = mset (occs sl) + {#sl ! b#}"
    using mset_occs_update [OF assms(1), of "sl ! b"] assms by (simp add: occ_def)
  moreover have "mset (occs (?sl[b := (sl ! b)\<lparr>slot_key := EMPTY\<rparr>])) + {#sl ! b#} = mset (occs ?sl)"
    using mset_occs_update [of b ?sl "(sl ! b)\<lparr>slot_key := EMPTY\<rparr>"] assms by (simp add: occ_def)
  ultimately show ?thesis by simp
qed

text \<open>Where the shift ends, the slot behind the hole stays: it is empty or at its home.\<close>

lemma backshift_stop:
  assumes inv: "slots_inv cap sl" and p: "p < unat cap" "occ sl p" and s: "stops_at cap sl p s"
    and sh: "shifted cap sl p s sl'" and n: "unat nxt = circ (unat cap) p (Suc s)"
  shows "slot_key (sl' ! unat nxt) = EMPTY \<or> probe_distance cap (slot_key (sl' ! unat nxt)) nxt = 0"
proof -
  have cap: "cap_ok cap" using inv by (simp add: slots_inv_def)
  have pos: "unat nxt < unat cap" using n cap_ok_pos [OF cap] by simp
  show ?thesis
  proof (cases "Suc s = unat cap")
    case False
    then have "Suc s < unat cap" using s by (simp add: stops_at_def)
    then have "sl' ! unat nxt = sl ! unat nxt" using sh n by (simp add: shifted_def)
    moreover have "good cap sl (unat nxt)" using s False n by (simp add: stops_at_def)
    ultimately show ?thesis
      using probe_distance_eq_0 [OF cap pos] by (auto simp: good_def occ_def)
  next
    case True
    then have n0: "unat nxt = circ (unat cap) p 0" using n circ_add_n(1) [of "unat cap" p 0] by simp
    then have np: "unat nxt = p" using p by (simp add: circ_0)
    show ?thesis
    proof (cases "s = 0")
      case True
      then have "slot_key (sl' ! circ (unat cap) p 0) = EMPTY"
        using sh cap_ok_pos [OF cap] by (simp add: shifted_def)
      then show ?thesis by (simp only: n0 simp_thms)
    next
      case False
      then have "sl' ! circ (unat cap) p 0 = sl ! circ (unat cap) p 1"
        using sh cap_ok_pos [OF cap] by (simp add: shifted_def)
      then have "sl' ! unat nxt = sl ! circ (unat cap) p 1" by (simp only: n0)
      then show ?thesis
        using stops_at_wrap [OF inv p s True] False probe_distance_eq_0 [OF cap pos] np by simp
    qed
  qed
qed

lemma backshift_run:
  assumes inv: "slots_inv cap sl" and p: "p < unat cap" "occ sl p" and s: "stops_at cap sl p s"
    and "shifted cap sl p t sl'" "t \<le> s"
    and "unat pos = circ (unat cap) p t" "unat nxt = circ (unat cap) p (Suc t)"
  shows "\<exists>sl''. backshift cap sl' pos nxt = Some sl'' \<and> shifted cap sl p s sl'' \<and>
    mset (occs sl'') = mset (occs sl')"
  using assms(5-8)
proof (induction "s - t" arbitrary: t sl' pos nxt)
  case 0
  then have t: "t = s" by simp
  have "slot_key (sl' ! unat nxt) = EMPTY \<or> probe_distance cap (slot_key (sl' ! unat nxt)) nxt = 0"
    using backshift_stop [OF inv p s] 0 t by simp
  then show ?case using 0 t by (subst backshift.simps) auto
next
  case (Suc n)
  let ?c = "circ (unat cap) p"
  have cap: "cap_ok cap" using inv by (simp add: slots_inv_def)
  have t: "t < s" "Suc t < unat cap" using Suc.hyps s by (auto simp: stops_at_def)
  have pos: "unat nxt < unat cap" "unat pos < unat cap" using Suc.prems cap_ok_pos [OF cap] by simp_all
  have len: "length sl' = unat cap" using Suc.prems by (simp add: shifted_def)
  have same: "sl' ! ?c (Suc t) = sl ! ?c (Suc t)" and hole: "\<not> occ sl' (?c t)"
    using Suc.prems t by (simp_all add: shifted_def occ_def)
  have ng: "\<not> good cap sl (?c (Suc t))" using s t by (simp add: stops_at_def)
  have ne: "?c t \<noteq> ?c (Suc t)" using circ_inj [of t "unat cap" "Suc t" p] t by auto
  let ?sl = "sl'[?c t := sl' ! ?c (Suc t), ?c (Suc t) := (sl' ! ?c (Suc t))\<lparr>slot_key := EMPTY\<rparr>]"
  have key: "slot_key (sl' ! unat nxt) \<noteq> EMPTY" "probe_distance cap (slot_key (sl' ! unat nxt)) nxt \<noteq> 0"
    using ng same Suc.prems probe_distance_eq_0 [OF cap pos(1)] by (simp_all add: good_def occ_def)
  have "backshift cap sl' pos nxt = backshift cap ?sl nxt ((nxt + 1) AND fhm_mask cap)"
    using key ne len pos Suc.prems by (subst backshift.simps) (simp add: Let_def)
  moreover have "\<exists>sl''. backshift cap ?sl nxt ((nxt + 1) AND fhm_mask cap) = Some sl'' \<and>
      shifted cap sl p s sl'' \<and> mset (occs sl'') = mset (occs ?sl)"
  proof (rule Suc.hyps(1))
    show "shifted cap sl p (Suc t) ?sl" by (rule shifted_step [OF cap Suc.prems(1) t(2)])
    show "unat ((nxt + 1) AND fhm_mask cap) = ?c (Suc (Suc t))"
      using Suc.prems by (simp add: unat_next cap circ_circ)
  qed (use Suc t in simp_all)
  moreover have "mset (occs ?sl) = mset (occs sl')"
    using pos Suc.prems len ne hole key by (intro mset_shift_step) (simp_all add: occ_def)
  ultimately show ?case by simp
qed

lemma shifted_occ:
  assumes "shifted cap sl p s sl'" "j < unat cap"
  shows "occ sl' (circ (unat cap) p j) \<longleftrightarrow>
    (if j < s then occ sl (circ (unat cap) p (Suc j)) else j \<noteq> s \<and> occ sl (circ (unat cap) p j))"
  using assms by (auto simp: shifted_def occ_def)

lemma shifted_pd:
  assumes "cap_ok cap" "stops_at cap sl p s" "shifted cap sl p s sl'" "j < s"
  shows "occ sl' (circ (unat cap) p j) \<and>
    pd cap sl (circ (unat cap) p (Suc j)) = pd cap sl' (circ (unat cap) p j) + 1"
proof -
  have j: "j < unat cap" using assms by (simp add: stops_at_def)
  have ng: "\<not> good cap sl (circ (unat cap) p (Suc j))" using assms by (simp add: stops_at_def)
  have key: "sl' ! circ (unat cap) p j = sl ! circ (unat cap) p (Suc j)"
    using assms j by (simp add: shifted_def)
  have "circ (unat cap) (circ (unat cap) p j) 1 = circ (unat cap) p (Suc j)" by (simp add: circ_circ)
  moreover have "circ (unat cap) p j < unat cap" using cap_ok_pos [OF assms(1)] by simp
  ultimately show ?thesis
    using pdist_next_pos [OF assms(1), of "circ (unat cap) p j" "slot_key (sl ! circ (unat cap) p (Suc j))"] ng key
    by (auto simp: good_def occ_def)
qed

lemma robin_hood_circ:
  assumes "cap_ok cap" "robin_hood cap sl"
  shows "good cap sl (circ (unat cap) p (Suc j)) \<or>
    occ sl (circ (unat cap) p j) \<and> pd cap sl (circ (unat cap) p (Suc j)) \<le> pd cap sl (circ (unat cap) p j) + 1"
  using assms(2) cap_ok_pos [OF assms(1)] unfolding robin_hood_def by (metis circ_circ circ_less Suc_eq_plus1)

lemma shifted_same:
  assumes "shifted cap sl p s sl'" "s < j" "j < unat cap"
  shows "good cap sl' (circ (unat cap) p j) = good cap sl (circ (unat cap) p j)"
    "pd cap sl' (circ (unat cap) p j) = pd cap sl (circ (unat cap) p j)"
    "occ sl' (circ (unat cap) p j) = occ sl (circ (unat cap) p j)"
  using assms by (simp_all add: shifted_def good_def occ_def)

text \<open>The step from the last position back to the erased one.\<close>

lemma shifted_wrap:
  assumes inv: "slots_inv cap sl" and p: "p < unat cap" "occ sl p"
    and s: "stops_at cap sl p s" and sh: "shifted cap sl p s sl'" and j: "Suc j = unat cap"
  shows "good cap sl' p \<or> occ sl' (circ (unat cap) p j) \<and> pd cap sl' p \<le> pd cap sl' (circ (unat cap) p j) + 1"
proof -
  let ?c = "circ (unat cap) p"
  from inv have cap: "cap_ok cap" and rh: "robin_hood cap sl" by (auto simp: slots_inv_def)
  have sC: "s < unat cap" using s by (simp add: stops_at_def)
  have c0: "?c 0 = p" "?c (Suc j) = p" using p j circ_add_n(1) [of "unat cap" p 0] by (simp_all add: circ_0)
  consider "s = 0" | "s \<noteq> 0" "s = j" | "s \<noteq> 0" "s < j" using sC j by linarith
  then show ?thesis
  proof cases
    case 1
    then show ?thesis using shifted_occ [OF sh sC] c0(1) by (simp add: good_def)
  next
    case 2
    then have "sl' ! ?c 0 = sl ! ?c (Suc 0)" using sh cap_ok_pos [OF cap] by (simp add: shifted_def)
    then show ?thesis using stops_at_wrap [OF inv p s] 2 j c0 p by (simp add: good_def)
  next
    case 3
    have "occ sl' p \<and> pd cap sl (?c 1) = pd cap sl' p + 1"
      using shifted_pd [OF cap s sh, of 0] 3 c0(1) by simp
    moreover have "pd cap sl (?c 1) \<le> pd cap sl p + 1"
      using robin_hood_circ [OF cap rh, of p 0] s 3 c0(1) by (auto simp: stops_at_def)
    moreover have "good cap sl p \<or> occ sl (?c j) \<and> pd cap sl p \<le> pd cap sl (?c j) + 1"
      using robin_hood_circ [OF cap rh, of p j] c0 by simp
    ultimately show ?thesis using shifted_same [OF sh 3(2)] j p by (auto simp: good_def)
  qed
qed

lemma shifted_robin_hood:
  assumes inv: "slots_inv cap sl" and p: "p < unat cap" "occ sl p"
    and s: "stops_at cap sl p s" and sh: "shifted cap sl p s sl'"
  shows "robin_hood cap sl'"
  unfolding robin_hood_def
proof (intro allI impI)
  let ?C = "unat cap" and ?c = "circ (unat cap) p"
  from inv have cap: "cap_ok cap" and rh: "robin_hood cap sl" by (auto simp: slots_inv_def)
  note rhc = robin_hood_circ [OF cap rh, of p] and same = shifted_same [OF sh]
  have sC: "s < ?C" using s by (simp add: stops_at_def)
  fix i assume "i < ?C"
  then obtain j where j: "j < ?C" "i = ?c j" using circ_cases p by blast
  have nxt: "circ ?C i 1 = ?c (Suc j)" using j by (simp add: circ_circ)
  consider "Suc j < s" | "Suc j = s" | "j = s" "Suc j < ?C" | "s < j" "Suc j < ?C" | "Suc j = ?C" using j sC by linarith
  then have "good cap sl' (?c (Suc j)) \<or> occ sl' (?c j) \<and> pd cap sl' (?c (Suc j)) \<le> pd cap sl' (?c j) + 1"
  proof cases
    case 1
    have "\<not> good cap sl (?c (Suc (Suc j)))" using s 1 by (simp add: stops_at_def)
    then show ?thesis
      using shifted_pd [OF cap s sh, of j] shifted_pd [OF cap s sh, of "Suc j"] rhc [of "Suc j"] 1 by simp
  next
    case 2
    then show ?thesis using shifted_occ [OF sh sC] by (simp add: good_def)
  next
    case 3
    then show ?thesis using same(1) [of "Suc j"] s by (simp add: stops_at_def)
  next
    case 4
    then show ?thesis using same [of j] same [of "Suc j"] rhc [of j] by simp
  next
    case 5
    then have "?c (Suc j) = p" using p circ_add_n(1) [of ?C p 0] by (simp add: circ_0)
    then show ?thesis using shifted_wrap [OF inv p s sh 5] by simp
  qed
  then show "good cap sl' (circ ?C i 1) \<or> occ sl' i \<and> pd cap sl' (circ ?C i 1) \<le> pd cap sl' i + 1"
    using nxt j by simp
qed

lemma fhm_size_card: "fhm_inv cap m \<Longrightarrow> unat (fm_size m) = card (dom (fhm_abs m))"
proof -
  assume inv: "fhm_inv cap m"
  then have d: "distinct (map slot_key (occs (fm_slots m)))" by (simp add: fhm_inv_def slots_inv_def)
  have "dom (fhm_abs m) = set (map slot_key (occs (fm_slots m)))" by (simp add: dom_fhm_abs)
  with inv show ?thesis by (simp only: distinct_card [OF d] length_map fhm_inv_def)
qed

lemma fhm_erase_present:
  assumes inv: "fhm_inv cap m" and ke: "key \<noteq> EMPTY" and old: "key \<in> dom (fhm_abs m)"
  shows "\<exists>m'. fhm_erase cap m key = Some (m', True) \<and> fhm_inv cap m' \<and>
    fhm_abs m' = (fhm_abs m)(key := None)"
proof -
  let ?sl = "fm_slots m"
  from inv have sinv: "slots_inv cap ?sl" and sz: "unat (fm_size m) = length (occs ?sl)"
    by (auto simp: fhm_inv_def)
  then have cap: "cap_ok cap" and len: "length ?sl = unat cap"
    and d: "distinct (map slot_key (occs ?sl))" by (auto simp: slots_inv_def)
  obtain p pos where p: "p < unat cap" "occ ?sl p" "slot_key (?sl ! p) = key"
      "fhm_find cap m key = Some pos" "unat pos = p"
    using fhm_find_cases [OF fhm_inv_chained [OF inv] ke] old by blast
  let ?hole = "?sl[p := (?sl ! p)\<lparr>slot_key := EMPTY\<rparr>]"
  obtain s where s: "stops_at cap ?sl p s" by (rule stops_at_ex [OF cap])
  obtain sl' where r: "backshift cap ?hole pos ((pos + 1) AND fhm_mask cap) = Some sl'"
      "shifted cap ?sl p s sl'" "mset (occs sl') = mset (occs ?hole)"
    using backshift_run [OF sinv p(1,2) s shifted_start [OF cap len p(1)], of pos "(pos + 1) AND fhm_mask cap"]
      p cap by (auto simp: circ_0 unat_next)
  have m: "mset (?sl ! p # occs sl') = mset (occs ?sl)"
    using mset_occs_update [of p ?sl "(?sl ! p)\<lparr>slot_key := EMPTY\<rparr>"] p len r(3) by simp
  let ?m = "m\<lparr>fm_slots := sl', fm_size := fm_size m - 1\<rparr>"
  have keys: "mset (key # map slot_key (occs sl')) = mset (map slot_key (occs ?sl))"
    using arg_cong [OF m, of "image_mset slot_key"] p(3) by (simp add: mset_map)
  have dk: "distinct (key # map slot_key (occs sl'))"
    using mset_eq_imp_distinct_iff [OF keys] d by blast
  have "s < unat cap" using s by (simp add: stops_at_def)
  then have "\<not> occ sl' (circ (unat cap) p s)" using shifted_occ [OF r(2), of s] by simp
  then have "slots_inv cap sl'"
    using shifted_robin_hood [OF sinv p(1,2) s r(2)] cap r(2) dk cap_ok_pos [OF cap]
    by (auto simp: slots_inv_def shifted_def good_def intro!: exI [of _ "circ (unat cap) p s"])
  moreover have "unat (fm_size m - 1) = length (occs sl')"
  proof -
    have "Suc (length (occs sl')) = unat (fm_size m)" using sz arg_cong [OF m, of size] by simp
    moreover from this have "fm_size m \<noteq> 0" by auto
    ultimately show ?thesis by (simp add: unat_minus_one)
  qed
  ultimately have inv': "fhm_inv cap ?m" by (simp add: fhm_inv_def)
  have "fhm_abs ?m = (fhm_abs m)(key := None)"
  proof (rule fhm_abs_eqI)
    show "distinct (map slot_key (occs (fm_slots ?m)))" using dk by simp
    have st: "set (occs ?sl) = insert (?sl ! p) (set (occs sl'))"
      using mset_eq_setD [OF m] by simp
    show "((fhm_abs m)(key := None)) k = Some v \<longleftrightarrow>
        \<lparr>slot_key = k, slot_value = v\<rparr> \<in> set (occs (fm_slots ?m))" for k v
    proof (cases "k = key")
      case True
      have "\<lparr>slot_key = key, slot_value = v\<rparr> \<notin> set (occs sl')" using dk by force
      with True show ?thesis by simp
    next
      case False
      then have "\<lparr>slot_key = k, slot_value = v\<rparr> \<noteq> ?sl ! p" using p(3) by (metis slot.select_convs(1))
      then show ?thesis using False fhm_abs_Some_iff [OF d, of k v] st by simp
    qed
  qed
  moreover have "fhm_erase cap m key = Some (?m, True)"
    using p r(1) by (simp add: fhm_erase_def fhm_find_def)
  ultimately show ?thesis using inv' by blast
qed

lemma fhm_erase_absent:
  assumes "fhm_inv cap m" "key \<noteq> EMPTY" "key \<notin> dom (fhm_abs m)"
  shows "fhm_erase cap m key = Some (m, False)"
  using fhm_find_cases [OF fhm_inv_chained [OF assms(1)] assms(2)] assms
  by (auto simp: fhm_erase_def fhm_find_def in_dom_fhm_abs fhm_inv_def slots_inv_def)

lemma fhm_erase_abs:
  assumes "fhm_inv cap m" "key \<noteq> EMPTY"
  shows "\<exists>m'. fhm_erase cap m key = Some (m', key \<in> dom (fhm_abs m)) \<and> fhm_inv cap m' \<and>
    fhm_abs m' = (fhm_abs m)(key := None)"
proof (cases "key \<in> dom (fhm_abs m)")
  case True
  then show ?thesis using fhm_erase_present [OF assms] by simp
next
  case False
  then have "(fhm_abs m)(key := None) = fhm_abs m" by (auto simp: domIff fun_upd_idem)
  then show ?thesis using False fhm_erase_absent [OF assms] assms by simp
qed

interpretation fhm: fixed_map "fhm_inv cap" "\<lambda>k. k \<noteq> EMPTY" fhm_abs "unat cap" "fhm_get cap"
    "fhm_insert cap" "fhm_erase cap" for cap :: u64
proof (unfold_locales, goal_cases)
  case (1 m k)
  then show ?case by (rule fhm_get_abs)
next
  case (2 m k v)
  then show ?case using fhm_insert_True [of cap m k v] fhm_size_card [of cap m] by auto
next
  case (3 m k)
  then show ?case by (rule fhm_erase_abs)
next
  case (4 m)
  then show ?case by (simp add: dom_fhm_abs)
qed

section \<open>Construction\<close>

lemma FlatHashMap_new_inv:
  assumes "cap_ok cap" "length mem = unat cap"
  shows "\<exists>m. FlatHashMap_new (Some mem) = Some m \<and> fhm_inv cap m \<and> fhm_abs m = Map.empty"
proof -
  let ?sl = "map (\<lambda>s. s\<lparr>slot_key := EMPTY\<rparr>) mem"
  have "occs ?sl = []" by (auto simp: occs_def filter_empty_conv)
  moreover have "\<not> occ ?sl i" if "i < unat cap" for i using that assms by (simp add: occ_def)
  ultimately have "slots_inv cap ?sl"
    using assms cap_ok_pos [OF assms(1)] by (auto simp: slots_inv_def robin_hood_def good_def)
  with \<open>occs ?sl = []\<close> show ?thesis by (simp add: FlatHashMap_new_def fhm_inv_def fhm_abs_def)
qed

section \<open>Properties\<close>

text \<open>
  (C3) Refinement: from a fresh table, any sequence of \<open>insert\<close> and \<open>erase\<close> calls that never
  inserts a new key into a full table succeeds, terminates, and leaves a table whose lookups
  through \<open>find\<close> are exactly those of the mathematical map built by the same operations.
\<close>

theorem fhm_refines_map:
  assumes "cap_ok cap" "length mem = unat cap" "FlatHashMap_new (Some mem) = Some m0"
    and "ops_fit (\<lambda>k. k \<noteq> EMPTY) (unat cap) ops Map.empty" "key \<noteq> EMPTY"
  shows "\<exists>m. run_ops (fhm_insert cap) (fhm_erase cap) ops m0 = Some m \<and> fhm_inv cap m \<and>
    fhm_get cap m key = fold apply_map ops Map.empty key"
proof -
  have m0: "fhm_inv cap m0" "fhm_abs m0 = Map.empty"
    using FlatHashMap_new_inv [OF assms(1,2)] assms(3) by auto
  obtain m where "run_ops (fhm_insert cap) (fhm_erase cap) ops m0 = Some m" "fhm_inv cap m"
      "fhm_abs m = fold apply_map ops Map.empty"
    using fhm.run_ops_abs [OF m0(1)] assms(4) m0(2) by auto
  then show ?thesis using fhm_get_abs [of cap m key] assms(5) by auto
qed

lemma cap_ok_4: "cap_ok 4"
  by (simp add: cap_ok_def)

definition fresh4 :: "nat flat_hash_map" where
  "fresh4 = \<lparr>fm_slots = replicate 4 \<lparr>slot_key = EMPTY, slot_value = 0\<rparr>, fm_size = 0\<rparr>"

lemma fresh4_new: "FlatHashMap_new (Some (replicate 4 \<lparr>slot_key = 0, slot_value = 0\<rparr>)) = Some fresh4"
  by (simp add: FlatHashMap_new_def fresh4_def)

lemma fresh4_inv: "fhm_inv 4 fresh4 \<and> fhm_abs fresh4 = Map.empty"
  using FlatHashMap_new_inv [OF cap_ok_4, of "replicate 4 \<lparr>slot_key = 0, slot_value = (0 :: nat)\<rparr>"]
  by (auto simp: fresh4_new)

theorem fhm_refines_map_witness:
  "\<exists>m. run_ops (fhm_insert 4) (fhm_erase 4) [Insert 7 1, Insert 9 2, Erase 7] fresh4 = Some m \<and> fhm_inv 4 m \<and>
     fhm_get 4 m 9 = Some 2"
proof -
  have "ops_fit (\<lambda>k. k \<noteq> EMPTY) (unat (4 :: u64)) [Insert 7 1, Insert 9 2, Erase 7] (Map.empty :: u64 \<rightharpoonup> nat)"
    by (simp add: EMPTY_def card_insert_if)
  then show ?thesis
    using fhm_refines_map [OF cap_ok_4 _ fresh4_new, of "[Insert 7 1, Insert 9 2, Erase 7]" 9]
    by (simp add: EMPTY_def)
qed

text \<open>
  \<open>insert\<close> below capacity, or of a stored key at any load, returns true, binds the key to
  the value and no other key, keeps the Robin Hood invariant and counts the entries right.
\<close>

theorem fhm_insert_correct:
  assumes "fhm_inv cap m" "key \<noteq> EMPTY" "unat (fhm_size m) < unat cap \<or> fhm_get cap m key \<noteq> None"
  shows "\<exists>m'. fhm_insert cap m key v = (m', True) \<and> fhm_inv cap m' \<and>
    fhm_get cap m' key = Some v \<and>
    (\<forall>k. k \<noteq> key \<and> k \<noteq> EMPTY \<longrightarrow> fhm_get cap m' k = fhm_get cap m k) \<and>
    fhm_size m' = (if fhm_get cap m key = None then fhm_size m + 1 else fhm_size m)"
proof -
  have get: "fhm_get cap m key = fhm_abs m key" by (rule fhm_get_abs [OF assms(1,2)])
  obtain m' where m': "fhm_insert cap m key v = (m', True)" "fhm_inv cap m'"
      "fhm_abs m' = (fhm_abs m)(key \<mapsto> v)"
      "fm_size m' = (if fhm_get cap m key = None then fm_size m + 1 else fm_size m)"
    using fhm_insert_new [OF assms(1,2), of v] fhm_insert_existing [OF assms(1,2), of v] assms(3) get
    by (cases "key \<in> dom (fhm_abs m)") (auto simp: domIff fhm_size_def)
  then show ?thesis
    using assms(1,2) by (simp add: fhm_get_abs fhm_size_def)
qed

theorem fhm_insert_correct_witness:
  "\<exists>m'. fhm_insert 4 fresh4 7 (5 :: nat) = (m', True) \<and> fhm_get 4 m' 7 = Some 5"
  using fhm_insert_correct [of 4 fresh4 7 5] fresh4_inv
  by (auto simp: EMPTY_def fhm_size_def fresh4_def)

text \<open>
  \<open>erase\<close> of any key terminates, reports whether the key was stored, removes exactly that
  key, and the backshift loop keeps every other key reachable.
\<close>

theorem fhm_erase_correct:
  assumes "fhm_inv cap m" "key \<noteq> EMPTY"
  shows "\<exists>m'. fhm_erase cap m key = Some (m', fhm_get cap m key \<noteq> None) \<and> fhm_inv cap m' \<and>
    fhm_get cap m' key = None \<and>
    (\<forall>k. k \<noteq> key \<and> k \<noteq> EMPTY \<longrightarrow> fhm_get cap m' k = fhm_get cap m k) \<and>
    unat (fhm_size m') = unat (fhm_size m) - (if fhm_get cap m key = None then 0 else 1)"
proof -
  have get: "fhm_get cap m key = fhm_abs m key" by (rule fhm_get_abs [OF assms])
  obtain m' where m': "fhm_erase cap m key = Some (m', key \<in> dom (fhm_abs m))" "fhm_inv cap m'"
      "fhm_abs m' = (fhm_abs m)(key := None)"
    using fhm_erase_abs [OF assms] by blast
  then show ?thesis
    using assms get fhm_size_card [of cap m] fhm_size_card [of cap m'] fhm.finite_abs [of cap m]
    by (auto simp: fhm_get_abs fhm_size_def domIff card_Diff_singleton_if)
qed

theorem fhm_erase_correct_witness:
  "\<exists>m'. fhm_erase 4 fresh4 7 = Some (m', False) \<and> fhm_inv 4 m'"
  using fhm_erase_correct [of 4 fresh4 7] fresh4_inv fhm_get_abs [of 4 fresh4 7]
  by (auto simp: EMPTY_def)

text \<open>After the new entry has taken the place of another one in a full table.\<close>

lemma replaced_get:
  assumes sl': "all_taken cap sl'" "add_mset lost (mset sl') = add_mset new (mset (fm_slots m))" "new \<in> set sl'"
    and m: "all_taken cap (fm_slots m)" "distinct (slot_key new # map slot_key (fm_slots m))" "fhm_inv cap m"
  shows "lost \<in> set (fm_slots m)" "slot_key lost \<noteq> slot_key new" "fhm_get cap (m\<lparr>fm_slots := sl'\<rparr>) (slot_key new) = Some (slot_value new)"
    "fhm_get cap (m\<lparr>fm_slots := sl'\<rparr>) (slot_key lost) = None"
    "\<lbrakk>k \<noteq> slot_key new; k \<noteq> slot_key lost; k \<noteq> EMPTY\<rbrakk> \<Longrightarrow> fhm_get cap (m\<lparr>fm_slots := sl'\<rparr>) k = fhm_get cap m k"
proof -
  let ?m = "m\<lparr>fm_slots := sl'\<rparr>"
  have "mset (map slot_key (lost # sl')) = mset (map slot_key (new # fm_slots m))"
    using arg_cong [OF sl'(2), of "image_mset slot_key"] by simp
  then have d: "distinct (slot_key lost # map slot_key sl')" using m(2) mset_eq_imp_distinct_iff by fastforce
  have o: "occs sl' = sl'" "occs (fm_slots m) = fm_slots m" using full_occs sl'(1) m(1) by blast+
  have ch: "chained cap sl'" using sl'(1) d o(1) by (intro full_chained) (simp_all add: all_taken_def)
  have ne: "slot_key x \<noteq> EMPTY" if "x \<in> set sl' \<union> set (fm_slots m)" for x
    using that sl'(1) m(1) by (auto simp: all_taken_def occ_def in_set_conv_nth)
  have get: "fhm_get cap ?m k = Some x \<longleftrightarrow> \<lparr>slot_key = k, slot_value = x\<rparr> \<in> set sl'" if "k \<noteq> EMPTY" for k x
    using fhm_get_chained [of cap ?m k] ch that fhm_abs_Some_iff [of ?m k x] d o by simp
  have get0: "fhm_get cap m k = Some x \<longleftrightarrow> \<lparr>slot_key = k, slot_value = x\<rparr> \<in> set (fm_slots m)" if "k \<noteq> EMPTY" for k x
    using fhm_get_abs [OF m(3) that] fhm_abs_Some_iff [of m k x] m(2) o by simp
  have S: "insert lost (set sl') = insert new (set (fm_slots m))" using arg_cong [OF sl'(2), of set_mset] by simp
  show ln: "slot_key lost \<noteq> slot_key new" using d sl'(3) by (metis distinct.simps(2) image_eqI image_set list.set_map)
  then show l: "lost \<in> set (fm_slots m)" using S by auto
  show "fhm_get cap ?m (slot_key new) = Some (slot_value new)" using get [of "slot_key new"] sl'(3) ne by simp
  have "slot_key lost \<notin> slot_key ` set sl'" using d by simp
  then show "fhm_get cap ?m (slot_key lost) = None" using get [of "slot_key lost"] ne l
    by (metis UnI2 image_eqI not_None_eq slot.select_convs(1))
  show "fhm_get cap ?m k = fhm_get cap m k" if k: "k \<noteq> slot_key new" "k \<noteq> slot_key lost" "k \<noteq> EMPTY"
  proof -
    have "\<lparr>slot_key = k, slot_value = x\<rparr> \<in> set sl' \<longleftrightarrow> \<lparr>slot_key = k, slot_value = x\<rparr> \<in> set (fm_slots m)" for x
      using S k by (metis insert_iff slot.select_convs(1))
    then have "fhm_get cap ?m k = Some x \<longleftrightarrow> fhm_get cap m k = Some x" for x using get [OF k(3)] get0 [OF k(3)] by simp
    then show ?thesis by (metis not_None_eq)
  qed
qed

text \<open>
  (C37) In every full table a new key is refused, but not always cleanly. If none of the slots from the
  home of the key on (the last one apart) holds an entry that is nearer to its own home than the new
  one would be there, the table is unchanged. Otherwise \<open>insert\<close> returns false after it has stored the
  new entry, and exactly one entry that was in the table is gone.
\<close>

theorem fhm_insert_full_loses_entry:
  assumes "fhm_inv cap m" "key \<noteq> EMPTY" "fhm_get cap m key = None" "unat (fhm_size m) = unat cap"
  shows "\<exists>m'. fhm_insert cap m key v = (m', False) \<and> fhm_size m' = fhm_size m \<and>
    (if \<exists>i. Suc i < unat cap \<and> pdist cap (slot_key (fm_slots m ! circ (unat cap) (home cap key) i)) (circ (unat cap) (home cap key) i) < i
     then fhm_get cap m' key = Some v \<and>
       (\<exists>k. k \<noteq> key \<and> fhm_get cap m k \<noteq> None \<and> fhm_get cap m' k = None \<and>
          (\<forall>j. j \<noteq> k \<and> j \<noteq> key \<and> j \<noteq> EMPTY \<longrightarrow> fhm_get cap m' j = fhm_get cap m j))
     else m' = m)"
proof -
  let ?new = "\<lparr>slot_key = key, slot_value = v\<rparr>"
  have size: "unat (fm_size m) = unat cap" using assms(4) by (simp add: fhm_size_def)
  have out: "key \<notin> dom (fhm_abs m)" using fhm_get_abs [OF assms(1,2)] assms(3) by (simp add: domIff)
  obtain sl' lost where r: "fhm_insert cap m key v = (m\<lparr>fm_slots := sl'\<rparr>, False)" "all_taken cap sl'"
      "add_mset lost (mset sl') = add_mset ?new (mset (fm_slots m))"
      "if displaces cap (fm_slots m) (home cap key) 0 0 then ?new \<in> set sl' else sl' = fm_slots m"
    using fhm_insert_full [OF assms(1,2) out size, of v] by blast
  have fl: "all_taken cap (fm_slots m)" by (rule full_of_size [OF assms(1) size])
  have d: "distinct (slot_key ?new # map slot_key (fm_slots m))"
    using assms(1) out full_occs [OF fl] by (auto simp: fhm_inv_def slots_inv_def dom_fhm_abs)
  show ?thesis
  proof (cases "displaces cap (fm_slots m) (home cap key) 0 0")
    case True
    then have "?new \<in> set sl'" using r(4) by simp
    note R = replaced_get [OF r(2,3) this fl d assms(1)]
    have "slot_key lost \<noteq> EMPTY" using R(1) fl by (auto simp: all_taken_def occ_def in_set_conv_nth)
    moreover from this have "fhm_get cap m (slot_key lost) \<noteq> None"
      using fhm_get_abs [OF assms(1), of "slot_key lost"] R(1) full_occs [OF fl] dom_fhm_abs [of m] by (metis domIff image_eqI)
    ultimately have "\<exists>k. k \<noteq> key \<and> fhm_get cap m k \<noteq> None \<and> fhm_get cap (m\<lparr>fm_slots := sl'\<rparr>) k = None \<and>
        (\<forall>j. j \<noteq> k \<and> j \<noteq> key \<and> j \<noteq> EMPTY \<longrightarrow> fhm_get cap (m\<lparr>fm_slots := sl'\<rparr>) j = fhm_get cap m j)"
      using R(2,4,5) by (intro exI [of _ "slot_key lost"]) simp
    then show ?thesis using r(1) R(3) True by (simp add: displaces_def fhm_size_def)
  next
    case False
    then have "m\<lparr>fm_slots := sl'\<rparr> = m" using r(4) by simp
    then show ?thesis using r(1) False by (auto simp: displaces_def)
  qed
qed

text \<open>The keys 0, 1, 2 and 9 fill a table of four slots; inserting 3 returns false, stores 3 and loses 2.\<close>

definition full4 :: "nat flat_hash_map" where
  "full4 = fst (fhm_insert 4 (fst (fhm_insert 4 (fst (fhm_insert 4 (fst (fhm_insert 4 fresh4
     0 10)) 1 11)) 2 12)) 9 19)"

lemma full4_inv: "fhm_inv 4 full4"
proof -
  have "ops_fit (\<lambda>k. k \<noteq> EMPTY) (unat (4 :: u64)) [Insert 0 10, Insert 1 11, Insert 2 12, Insert 9 19] (fhm_abs fresh4)"
    using fresh4_inv by (simp add: EMPTY_def card_insert_if)
  from fhm.run_ops_abs [OF conjunct1 [OF fresh4_inv] this]
  obtain m where m: "run_ops (fhm_insert 4) (fhm_erase 4) [Insert 0 10, Insert 1 11, Insert 2 12, Insert 9 19] fresh4 = Some m" "fhm_inv 4 m"
    by blast
  then have "m = full4" by (auto simp: full4_def split: prod.splits if_splits)
  with m(2) show ?thesis by simp
qed

theorem fhm_insert_full_loses_entry_witness:
  "\<exists>m'. fhm_insert 4 full4 3 13 = (m', False) \<and> fhm_get 4 m' 3 = Some 13 \<and> (\<exists>k. fhm_get 4 full4 k \<noteq> None \<and> fhm_get 4 m' k = None)"
proof -
  have h: "(3 :: u64) \<noteq> EMPTY" "fhm_get 4 full4 3 = None" "unat (fhm_size full4) = unat (4 :: u64)" by code_simp+
  have "\<exists>i. Suc i < unat (4 :: u64) \<and> pdist 4 (slot_key (fm_slots full4 ! circ (unat (4 :: u64)) (home 4 3) i)) (circ (unat (4 :: u64)) (home 4 3) i) < i"
    by (rule exI [of _ 2]) code_simp
  with fhm_insert_full_loses_entry [OF full4_inv h, of 13] show ?thesis by (simp only: if_True) blast
qed

end
