(* ===== verification/Allocator_Interface.thy ===== *)
theory Allocator_Interface
  imports Prelude
begin

text \<open>
  The contract of a fixed-size block allocator as the matching engine relies on it. A state has a
  set of blocks and a list of the free ones; the blocks that are not free are live and hold an
  object once one has been stored. Address 0 is the null pointer.
\<close>

type_synonym ptr = nat

locale block_allocator =
  fixes inv :: "'s \<Rightarrow> bool"
    and blocks :: "'s \<Rightarrow> ptr set"
    and free :: "'s \<Rightarrow> ptr list"
    and load :: "'s \<Rightarrow> ptr \<Rightarrow> 'a option"
    and store :: "ptr \<Rightarrow> 'a \<Rightarrow> 's \<Rightarrow> 's"
    and alloc :: "'s \<Rightarrow> (ptr \<times> 's) option"
    and dealloc :: "ptr \<Rightarrow> 's \<Rightarrow> 's"
  assumes finite_blocks: "inv s \<Longrightarrow> finite (blocks s)"
    and null_not_block: "inv s \<Longrightarrow> 0 \<notin> blocks s"
    and free_blocks: "inv s \<Longrightarrow> distinct (free s) \<and> set (free s) \<subseteq> blocks s"
    and free_no_object: "inv s \<Longrightarrow> p \<in> set (free s) \<Longrightarrow> load s p = None"
    and alloc_null: "inv s \<Longrightarrow> free s = [] \<Longrightarrow> alloc s = Some (0, s)"
    and alloc_block: "inv s \<Longrightarrow> free s = p # ps \<Longrightarrow>
      \<exists>s'. alloc s = Some (p, s') \<and> inv s' \<and> blocks s' = blocks s \<and> free s' = ps \<and> load s' = load s"
    and store_live: "inv s \<Longrightarrow> p \<in> blocks s - set (free s) \<Longrightarrow>
      inv (store p a s) \<and> blocks (store p a s) = blocks s \<and> free (store p a s) = free s \<and>
      load (store p a s) = (load s)(p \<mapsto> a)"
    and dealloc_live: "inv s \<Longrightarrow> p \<in> blocks s - set (free s) \<Longrightarrow>
      inv (dealloc p s) \<and> blocks (dealloc p s) = blocks s \<and> free (dealloc p s) = p # free s \<and>
      load (dealloc p s) = (load s)(p := None)"
begin

definition live :: "'s \<Rightarrow> ptr set" where
  "live s = blocks s - set (free s)"

lemma live_card: "inv s \<Longrightarrow> card (live s) + length (free s) = card (blocks s)"
  using free_blocks [of s] finite_blocks [of s] distinct_card [of "free s"]
    card_Diff_subset [of "set (free s)" "blocks s"] card_mono [of "blocks s" "set (free s)"]
  by (simp add: live_def)

lemma alloc_null_iff:
  assumes "inv s" "alloc s = Some (p, s')"
  shows "p = 0 \<longleftrightarrow> card (live s) = card (blocks s)"
proof (cases "free s")
  case Nil
  then show ?thesis using alloc_null [OF assms(1)] assms live_card [OF assms(1)] by simp
next
  case (Cons q qs)
  have "q \<noteq> 0" using free_blocks [OF assms(1)] null_not_block [OF assms(1)] Cons
    by (metis list.set_intros(1) subsetD)
  then show ?thesis
    using alloc_block [OF assms(1) Cons] assms live_card [OF assms(1)] Cons by auto
qed

lemma alloc_total: "inv s \<Longrightarrow> \<exists>p s'. alloc s = Some (p, s') \<and> inv s' \<and> blocks s' = blocks s"
  using alloc_null [of s] alloc_block [of s] by (cases "free s") auto

lemma alloc_fresh:
  assumes "inv s" "alloc s = Some (p, s')" "p \<noteq> 0"
  shows "inv s' \<and> p \<in> blocks s \<and> p \<notin> live s \<and> live s' = insert p (live s) \<and> load s' = load s"
proof (cases "free s")
  case Nil
  then show ?thesis using alloc_null [OF assms(1)] assms by simp
next
  case (Cons q qs)
  then show ?thesis
    using alloc_block [OF assms(1) Cons] assms free_blocks [OF assms(1)] by (auto simp: live_def)
qed

text \<open>A block that is given back is the next one handed out.\<close>

lemma alloc_dealloc:
  assumes "inv s" "p \<in> live s"
  shows "\<exists>s'. alloc (dealloc p s) = Some (p, s') \<and> inv s' \<and> free s' = free s \<and> live s' = live s"
  using dealloc_live [of s p] alloc_block [of "dealloc p s" p "free s"] assms
  by (auto simp: live_def)

text \<open>\<open>n\<close> allocations in a row, with the blocks they return.\<close>

primrec alloc_n :: "nat \<Rightarrow> 's \<Rightarrow> (ptr list \<times> 's) option" where
  "alloc_n 0 s = Some ([], s)"
| "alloc_n (Suc n) s = (case alloc s of None \<Rightarrow> None | Some (p, s1) \<Rightarrow>
     (case alloc_n n s1 of None \<Rightarrow> None | Some (ps, s2) \<Rightarrow> Some (p # ps, s2)))"

lemma alloc_n_free:
  assumes "inv s" "n \<le> length (free s)"
  shows "\<exists>s'. alloc_n n s = Some (take n (free s), s') \<and> inv s' \<and> blocks s' = blocks s \<and>
    free s' = drop n (free s)"
  using assms
proof (induction n arbitrary: s)
  case 0
  then show ?case by simp
next
  case (Suc n)
  then obtain p ps where f: "free s = p # ps" by (cases "free s") auto
  obtain s1 where s1: "alloc s = Some (p, s1)" "inv s1" "blocks s1 = blocks s" "free s1 = ps"
    using alloc_block [OF Suc.prems(1) f] by blast
  show ?case using Suc.IH [OF s1(2)] s1 f Suc.prems by auto
qed

end

end
