(* ===== verification/Pool_Alloc.thy ===== *)
theory Pool_Alloc
  imports Allocator_Interface
begin

text \<open>
  The free-list pool of \<open>src/core/pool_alloc.h\<close>. The template parameter \<open>Capacity\<close> is the
  argument \<open>cap\<close> and \<open>sizeof(T)\<close> the argument \<open>bs\<close>. Memory is seen by blocks: the word at the
  start of a block is either a link of the free list, written through the \<open>void**\<close> casts, or
  part of an object of type \<open>T\<close>. Reading a link out of a block that holds an object has no
  meaning, and the model returns \<open>None\<close> there.
\<close>

section \<open>The class\<close>

datatype 'a block = Link ptr | Obj 'a

record 'a pool =
  pool_base :: ptr
  pool_free_head :: ptr
  pool_mem :: "ptr \<Rightarrow> 'a block"

text \<open>
  The constructor's loop and the constructor. \<open>mmap\<close> returns \<open>None\<close> for \<open>MAP_FAILED\<close> and
  otherwise the start of the mapping with its contents; the result \<open>None\<close> is \<open>abort\<close>.
\<close>

function link_loop :: "nat \<Rightarrow> nat \<Rightarrow> ptr \<Rightarrow> nat \<Rightarrow> (ptr \<Rightarrow> 'a block) \<Rightarrow> (ptr \<Rightarrow> 'a block)" where
  "link_loop cap bs base i mem =
    (if i < cap - 1 then
       let this_block = base + i * bs;
           next_block = base + (i + 1) * bs
       in link_loop cap bs base (i + 1) (mem(this_block := Link next_block))
     else mem)"
  by pat_completeness auto
termination
  by (relation "measure (\<lambda>(cap, bs, base, i, mem). cap - i)") auto

declare link_loop.simps [simp del]

definition Pool_new :: "nat \<Rightarrow> nat \<Rightarrow> (ptr \<times> (ptr \<Rightarrow> 'a block)) option \<Rightarrow> 'a pool option" where
  "Pool_new cap bs mapping =
    (case mapping of
       None \<Rightarrow> None
     | Some (base, mem) \<Rightarrow>
         let last_block = base + (cap - 1) * bs
         in Some \<lparr>pool_base = base, pool_free_head = base,
                  pool_mem = (link_loop cap bs base 0 mem)(last_block := Link 0)\<rparr>)"

definition allocate :: "'a pool \<Rightarrow> (ptr \<times> 'a pool) option" where
  "allocate pl =
    (if pool_free_head pl = 0 then Some (0, pl)
     else case pool_mem pl (pool_free_head pl) of
            Obj _ \<Rightarrow> None
          | Link n \<Rightarrow> Some (pool_free_head pl, pl\<lparr>pool_free_head := n\<rparr>))"

definition deallocate :: "ptr \<Rightarrow> 'a pool \<Rightarrow> 'a pool" where
  "deallocate p pl = pl\<lparr>pool_mem := (pool_mem pl)(p := Link (pool_free_head pl)), pool_free_head := p\<rparr>"

definition full :: "'a pool \<Rightarrow> bool" where
  "full pl \<longleftrightarrow> pool_free_head pl = 0"

text \<open>Access to the object in a block through a \<open>T*\<close>.\<close>

definition load_obj :: "'a pool \<Rightarrow> ptr \<Rightarrow> 'a option" where
  "load_obj pl p = (case pool_mem pl p of Link _ \<Rightarrow> None | Obj a \<Rightarrow> Some a)"

definition store_obj :: "ptr \<Rightarrow> 'a \<Rightarrow> 'a pool \<Rightarrow> 'a pool" where
  "store_obj p a pl = pl\<lparr>pool_mem := (pool_mem pl)(p := Obj a)\<rparr>"

section \<open>Free list and invariant\<close>

primrec chain :: "(ptr \<Rightarrow> 'a block) \<Rightarrow> ptr \<Rightarrow> ptr list \<Rightarrow> bool" where
  "chain m p [] \<longleftrightarrow> p = 0"
| "chain m p (x # xs) \<longleftrightarrow> p = x \<and> x \<noteq> 0 \<and> (\<exists>n. m x = Link n \<and> chain m n xs)"

primrec chain_walk :: "nat \<Rightarrow> (ptr \<Rightarrow> 'a block) \<Rightarrow> ptr \<Rightarrow> ptr list" where
  "chain_walk 0 m p = []"
| "chain_walk (Suc n) m p =
     (if p = 0 then [] else case m p of Obj _ \<Rightarrow> [] | Link q \<Rightarrow> p # chain_walk n m q)"

definition pool_blocks :: "nat \<Rightarrow> nat \<Rightarrow> 'a pool \<Rightarrow> ptr list" where
  "pool_blocks cap bs pl = map (\<lambda>i. pool_base pl + i * bs) [0..<cap]"

definition free_list :: "nat \<Rightarrow> 'a pool \<Rightarrow> ptr list" where
  "free_list cap pl = chain_walk cap (pool_mem pl) (pool_free_head pl)"

definition pool_inv :: "nat \<Rightarrow> nat \<Rightarrow> 'a pool \<Rightarrow> bool" where
  "pool_inv cap bs pl \<longleftrightarrow> 0 < bs \<and> 0 < pool_base pl \<and>
     chain (pool_mem pl) (pool_free_head pl) (free_list cap pl) \<and>
     distinct (free_list cap pl) \<and> set (free_list cap pl) \<subseteq> set (pool_blocks cap bs pl)"

lemma chain_walk_chain: "chain m p xs \<Longrightarrow> length xs \<le> n \<Longrightarrow> chain_walk n m p = xs"
proof (induction xs arbitrary: n p)
  case Nil
  then show ?case by (cases n) auto
next
  case (Cons x xs)
  then show ?case by (cases n) auto
qed

lemma chain_cong: "chain m p xs \<Longrightarrow> (\<And>x. x \<in> set xs \<Longrightarrow> m' x = m x) \<Longrightarrow> chain m' p xs"
  by (induction xs arbitrary: p) auto

lemma chain_null: "chain m 0 xs \<longleftrightarrow> xs = []"
  by (cases xs) auto

lemma length_pool_blocks [simp]: "length (pool_blocks cap bs pl) = cap"
  by (simp add: pool_blocks_def)

lemma distinct_pool_blocks: "0 < bs \<Longrightarrow> distinct (pool_blocks cap bs pl)"
  by (auto simp: pool_blocks_def distinct_map inj_on_def)

lemma card_pool_blocks: "0 < bs \<Longrightarrow> card (set (pool_blocks cap bs pl)) = cap"
  using distinct_card [OF distinct_pool_blocks, of bs cap pl] by simp

lemma pool_invI:
  assumes "0 < bs" "0 < pool_base pl" "chain (pool_mem pl) (pool_free_head pl) fl" "distinct fl"
    "set fl \<subseteq> set (pool_blocks cap bs pl)"
  shows "pool_inv cap bs pl \<and> free_list cap pl = fl"
proof -
  have "length fl \<le> cap"
    using card_mono [OF finite_set assms(5)] distinct_card [OF assms(4)]
      card_pool_blocks [OF assms(1), of cap pl] by simp
  then have "free_list cap pl = fl" unfolding free_list_def by (rule chain_walk_chain [OF assms(3)])
  then show ?thesis using assms by (simp add: pool_inv_def)
qed

section \<open>Construction\<close>

lemma link_loop_done:
  assumes "0 < bs"
  shows "link_loop cap bs base i mem (base + j * bs) =
    (if i \<le> j \<and> j < cap - 1 then Link (base + (j + 1) * bs) else mem (base + j * bs))"
  using assms
proof (induction cap bs base i mem rule: link_loop.induct)
  case (1 cap bs base i mem)
  show ?case
  proof (cases "i < cap - 1")
    case True
    have "link_loop cap bs base i mem (base + j * bs) =
        link_loop cap bs base (i + 1) (mem(base + i * bs := Link (base + (i + 1) * bs))) (base + j * bs)"
      using True by (subst link_loop.simps) (simp add: Let_def)
    also have "\<dots> = (if i + 1 \<le> j \<and> j < cap - 1 then Link (base + (j + 1) * bs)
        else (mem(base + i * bs := Link (base + (i + 1) * bs))) (base + j * bs))"
      using "1.IH" [OF True refl refl "1.prems"] .
    finally show ?thesis using True "1.prems" by (cases "j = i") auto
  qed (subst link_loop.simps, auto)
qed

lemma chain_blocks:
  assumes "0 < base" "i \<le> cap - 1" "0 < cap"
    "\<And>j. j < cap - 1 \<Longrightarrow> m (base + j * bs) = Link (base + (j + 1) * bs)" "m (base + (cap - 1) * bs) = Link 0"
  shows "chain m (base + i * bs) (map (\<lambda>j. base + j * bs) [i..<cap])"
  using assms(2)
proof (induction "cap - 1 - i" arbitrary: i)
  case 0
  then have "i = cap - 1" by simp
  then show ?case using assms by (simp add: upt_conv_Cons)
next
  case (Suc n)
  have "chain m (base + Suc i * bs) (map (\<lambda>j. base + j * bs) [Suc i..<cap])"
    by (rule Suc.hyps(1)) (use Suc in auto)
  moreover have "m (base + i * bs) = Link (base + Suc i * bs)" using assms(4) [of i] Suc by (simp add: algebra_simps)
  moreover have "i < cap" using Suc by simp
  ultimately show ?case using assms(1) by (simp add: upt_conv_Cons)
qed

lemma Pool_new_inv:
  assumes "Pool_new cap bs (Some (base, mem)) = Some pl" "0 < cap" "0 < bs" "0 < base"
  shows "pool_inv cap bs pl \<and> free_list cap pl = pool_blocks cap bs pl"
proof -
  define m where "m = (link_loop cap bs base 0 mem)(base + (cap - 1) * bs := Link 0)"
  have pl: "pl = \<lparr>pool_base = base, pool_free_head = base, pool_mem = m\<rparr>"
    using assms(1) by (simp add: Pool_new_def m_def Let_def)
  have "m (base + j * bs) = Link (base + (j + 1) * bs)" if "j < cap - 1" for j
    using that assms(3) link_loop_done [of bs cap base 0 mem j] by (simp add: m_def)
  then have "chain m (base + 0 * bs) (map (\<lambda>j. base + j * bs) [0..<cap])"
    using assms by (intro chain_blocks) (auto simp: m_def)
  then have "chain (pool_mem pl) (pool_free_head pl) (pool_blocks cap bs pl)"
    by (simp add: pl pool_blocks_def)
  from pool_invI [OF assms(3) _ this distinct_pool_blocks [OF assms(3)]] show ?thesis
    using assms by (simp add: pl)
qed

section \<open>Operations\<close>

lemma pool_inv_null: "pool_inv cap bs pl \<Longrightarrow> 0 \<notin> set (pool_blocks cap bs pl)"
  by (auto simp: pool_inv_def pool_blocks_def)

lemma free_list_Nil: "pool_inv cap bs pl \<Longrightarrow> free_list cap pl = [] \<longleftrightarrow> pool_free_head pl = 0"
  unfolding pool_inv_def by (cases "free_list cap pl") auto

lemma pool_blocks_base: "pool_base pl' = pool_base pl \<Longrightarrow> pool_blocks cap bs pl' = pool_blocks cap bs pl"
  by (simp add: pool_blocks_def)

lemma allocate_null: "pool_inv cap bs pl \<Longrightarrow> free_list cap pl = [] \<Longrightarrow> allocate pl = Some (0, pl)"
  by (simp add: allocate_def free_list_Nil)

lemma allocate_block:
  assumes "pool_inv cap bs pl" "free_list cap pl = p # ps"
  shows "\<exists>pl'. allocate pl = Some (p, pl') \<and> pool_inv cap bs pl' \<and>
    pool_blocks cap bs pl' = pool_blocks cap bs pl \<and> free_list cap pl' = ps \<and> load_obj pl' = load_obj pl"
proof -
  obtain n where h: "pool_free_head pl = p" "p \<noteq> 0" "pool_mem pl p = Link n" "chain (pool_mem pl) n ps"
    using assms by (auto simp: pool_inv_def)
  define pl' where "pl' = pl\<lparr>pool_free_head := n\<rparr>"
  have "pool_inv cap bs pl' \<and> free_list cap pl' = ps"
    using assms h by (intro pool_invI) (auto simp: pool_inv_def pl'_def pool_blocks_def)
  moreover have "allocate pl = Some (p, pl')" using h by (simp add: allocate_def pl'_def)
  ultimately show ?thesis by (simp add: pl'_def pool_blocks_def load_obj_def [abs_def])
qed

lemma store_obj_live:
  assumes "pool_inv cap bs pl" "p \<in> set (pool_blocks cap bs pl) - set (free_list cap pl)"
  shows "pool_inv cap bs (store_obj p a pl) \<and>
    pool_blocks cap bs (store_obj p a pl) = pool_blocks cap bs pl \<and>
    free_list cap (store_obj p a pl) = free_list cap pl \<and>
    load_obj (store_obj p a pl) = (load_obj pl)(p \<mapsto> a)"
proof -
  have "pool_inv cap bs (store_obj p a pl) \<and> free_list cap (store_obj p a pl) = free_list cap pl"
    using assms by (intro pool_invI) (auto simp: pool_inv_def store_obj_def pool_blocks_def intro: chain_cong)
  then show ?thesis by (auto simp: store_obj_def pool_blocks_def load_obj_def)
qed

lemma deallocate_live:
  assumes "pool_inv cap bs pl" "p \<in> set (pool_blocks cap bs pl) - set (free_list cap pl)"
  shows "pool_inv cap bs (deallocate p pl) \<and>
    pool_blocks cap bs (deallocate p pl) = pool_blocks cap bs pl \<and>
    free_list cap (deallocate p pl) = p # free_list cap pl \<and>
    load_obj (deallocate p pl) = (load_obj pl)(p := None)"
proof -
  have "p \<noteq> 0" using pool_inv_null [OF assms(1)] assms(2) by (metis DiffD1)
  moreover have "chain ((pool_mem pl)(p := Link (pool_free_head pl))) (pool_free_head pl) (free_list cap pl)"
    using assms by (auto simp: pool_inv_def intro: chain_cong)
  ultimately have "pool_inv cap bs (deallocate p pl) \<and>
      free_list cap (deallocate p pl) = p # free_list cap pl"
    using assms by (intro pool_invI) (auto simp: pool_inv_def deallocate_def pool_blocks_def)
  then show ?thesis by (auto simp: deallocate_def pool_blocks_def load_obj_def)
qed

lemma free_list_no_object:
  assumes "pool_inv cap bs pl" "p \<in> set (free_list cap pl)"
  shows "load_obj pl p = None"
proof -
  have "\<exists>n. m p = Link n" if "chain m q xs" "p \<in> set xs" for m :: "ptr \<Rightarrow> 'a block" and q xs
    using that by (induction xs arbitrary: q) auto
  then show ?thesis using assms by (fastforce simp: pool_inv_def load_obj_def)
qed

interpretation pl: block_allocator "pool_inv cap bs" "\<lambda>pl. set (pool_blocks cap bs pl)"
  "free_list cap" load_obj store_obj allocate deallocate for cap bs :: nat
proof
  fix s :: "'a pool" and p ps a
  assume inv: "pool_inv cap bs s"
  show "0 \<notin> set (pool_blocks cap bs s)" by (rule pool_inv_null [OF inv])
  show "distinct (free_list cap s) \<and> set (free_list cap s) \<subseteq> set (pool_blocks cap bs s)"
    using inv by (simp add: pool_inv_def)
  show "load_obj s p = None" if "p \<in> set (free_list cap s)" by (rule free_list_no_object [OF inv that])
  show "allocate s = Some (0, s)" if "free_list cap s = []" by (rule allocate_null [OF inv that])
  show "\<exists>s'. allocate s = Some (p, s') \<and> pool_inv cap bs s' \<and>
      set (pool_blocks cap bs s') = set (pool_blocks cap bs s) \<and> free_list cap s' = ps \<and> load_obj s' = load_obj s"
    if "free_list cap s = p # ps" using allocate_block [OF inv that] by auto
next
  fix s :: "'a pool" and p a
  assume inv: "pool_inv cap bs s" and p: "p \<in> set (pool_blocks cap bs s) - set (free_list cap s)"
  show "pool_inv cap bs (store_obj p a s) \<and>
      set (pool_blocks cap bs (store_obj p a s)) = set (pool_blocks cap bs s) \<and>
      free_list cap (store_obj p a s) = free_list cap s \<and> load_obj (store_obj p a s) = (load_obj s)(p \<mapsto> a)"
    using store_obj_live [OF inv p] by auto
  show "pool_inv cap bs (deallocate p s) \<and>
      set (pool_blocks cap bs (deallocate p s)) = set (pool_blocks cap bs s) \<and>
      free_list cap (deallocate p s) = p # free_list cap s \<and> load_obj (deallocate p s) = (load_obj s)(p := None)"
    using deallocate_live [OF inv p] by auto
qed simp

section \<open>Clients of a pool\<close>

text \<open>
  The states a client can bring a pool into, with the set of blocks it holds: it may allocate,
  write to a block it holds, and give back a block it holds.
\<close>

inductive pool_reach :: "nat \<Rightarrow> nat \<Rightarrow> 'a pool \<Rightarrow> ptr set \<Rightarrow> bool" for cap bs :: nat where
  start: "Pool_new cap bs (Some (base, mem)) = Some pl \<Longrightarrow> 0 < base \<Longrightarrow> pool_reach cap bs pl {}"
| alloc: "pool_reach cap bs pl L \<Longrightarrow> allocate pl = Some (p, pl') \<Longrightarrow> p \<noteq> 0 \<Longrightarrow>
    pool_reach cap bs pl' (insert p L)"
| store: "pool_reach cap bs pl L \<Longrightarrow> p \<in> L \<Longrightarrow> pool_reach cap bs (store_obj p a pl) L"
| dealloc: "pool_reach cap bs pl L \<Longrightarrow> p \<in> L \<Longrightarrow> pool_reach cap bs (deallocate p pl) (L - {p})"

lemma pool_reach_inv:
  assumes "pool_reach cap bs pl L" "0 < cap" "0 < bs"
  shows "pool_inv cap bs pl \<and> L = set (pool_blocks cap bs pl) - set (free_list cap pl)"
  using assms
proof (induction rule: pool_reach.induct)
  case (start base mem pl)
  then show ?case using Pool_new_inv [of cap bs base mem pl] by simp
next
  case (alloc pl L p pl')
  then show ?case using pl.alloc_fresh [of cap bs pl p pl'] by (simp add: pl.live_def)
next
  case (store pl L p a)
  then show ?case using pl.store_live [of cap bs pl p a] by simp
next
  case (dealloc pl L p)
  then show ?case using pl.dealloc_live [of cap bs pl p] by auto
qed

lemma block_range:
  assumes "p \<in> set (pool_blocks cap bs pl)"
  shows "pool_base pl \<le> p \<and> p + bs \<le> pool_base pl + cap * bs"
proof -
  obtain i where i: "i < cap" "p = pool_base pl + i * bs" using assms by (auto simp: pool_blocks_def)
  have "Suc i * bs \<le> cap * bs" using i by (intro mult_le_mono1) simp
  then show ?thesis using i by simp
qed

lemma blocks_disjoint:
  assumes "p \<in> set (pool_blocks cap bs pl)" "q \<in> set (pool_blocks cap bs pl)" "p \<noteq> q"
  shows "p + bs \<le> q \<or> q + bs \<le> p"
proof -
  obtain i j where ij: "p = pool_base pl + i * bs" "q = pool_base pl + j * bs"
    using assms by (auto simp: pool_blocks_def)
  then have "i < j \<or> j < i" using assms(3) by auto
  then have "Suc i * bs \<le> j * bs \<or> Suc j * bs \<le> i * bs" using mult_le_mono1 Suc_leI by blast
  then show ?thesis using ij by auto
qed

text \<open>
  (C16) Safety of the pool: for a client that only writes to and gives back blocks it holds,
  \<open>allocate\<close> always returns; it returns null exactly when \<open>Capacity\<close> blocks are held (and then
  \<open>full\<close> is true); otherwise the block lies inside the mapping, its bytes overlap no block the
  client holds, and the objects in those blocks are untouched.
\<close>

theorem pool_safe:
  assumes "pool_reach cap bs pl L" "0 < cap" "0 < bs"
  shows "\<exists>p pl'. allocate pl = Some (p, pl') \<and> card L \<le> cap \<and> full pl = (card L = cap) \<and>
    (p = 0 \<longleftrightarrow> card L = cap) \<and>
    (p \<noteq> 0 \<longrightarrow> pool_base pl \<le> p \<and> p + bs \<le> pool_base pl + cap * bs \<and>
       (\<forall>q\<in>L. (p + bs \<le> q \<or> q + bs \<le> p) \<and> load_obj pl' q = load_obj pl q))"
proof -
  have inv: "pool_inv cap bs pl" and L: "L = pl.live cap bs pl"
    using pool_reach_inv [OF assms] by (simp_all add: pl.live_def)
  obtain p pl' where p: "allocate pl = Some (p, pl')" using pl.alloc_total [OF inv] by blast
  have card: "card L + length (free_list cap pl) = cap"
    using pl.live_card [OF inv] by (simp add: L card_pool_blocks assms)
  have null: "p = 0 \<longleftrightarrow> card L = cap"
    using pl.alloc_null_iff [OF inv p] by (simp add: L card_pool_blocks assms)
  have full: "full pl = (card L = cap)" using free_list_Nil [OF inv] card by (auto simp: full_def)
  have fresh: "pool_base pl \<le> p \<and> p + bs \<le> pool_base pl + cap * bs \<and>
      (\<forall>q\<in>L. (p + bs \<le> q \<or> q + bs \<le> p) \<and> load_obj pl' q = load_obj pl q)" if "p \<noteq> 0"
    using pl.alloc_fresh [OF inv p that] block_range [of p cap bs pl] blocks_disjoint [of p cap bs pl]
    by (fastforce simp: L pl.live_def)
  show ?thesis using p card null full fresh by auto
qed

lemma pool_two: "\<exists>pl. pool_reach 2 8 (pl :: nat pool) {1000}"
proof -
  obtain pl :: "nat pool" where pl: "Pool_new 2 8 (Some (1000, \<lambda>_. Link 0)) = Some pl"
    by (simp add: Pool_new_def)
  then have "allocate pl = Some (1000, pl\<lparr>pool_free_head := 1008\<rparr>)"
    by (auto simp: Pool_new_def allocate_def link_loop.simps)
  from pool_reach.alloc [OF pool_reach.start [OF pl] this] show ?thesis by auto
qed

theorem pool_safe_witness:
  "\<exists>(pl :: nat pool) p pl'. pool_reach 2 8 pl {1000} \<and> allocate pl = Some (p, pl') \<and> p \<noteq> 0 \<and>
     (p + 8 \<le> 1000 \<or> 1008 \<le> p)"
proof -
  obtain pl :: "nat pool" where "pool_reach 2 8 pl {1000}" using pool_two by blast
  with pool_safe [OF this] show ?thesis by auto
qed

text \<open>
  A fresh pool hands out each of its \<open>Capacity\<close> blocks once, in address order, and then null;
  a block given back is the next one handed out.
\<close>

theorem pool_exhausts:
  assumes "Pool_new cap bs (Some (base, mem)) = Some pl" "0 < cap" "0 < bs" "0 < base"
  shows "\<exists>pl'. pl.alloc_n cap pl = Some (map (\<lambda>i. base + i * bs) [0..<cap], pl') \<and>
    allocate pl' = Some (0, pl') \<and>
    (\<forall>i<cap. \<exists>pl''. allocate (deallocate (base + i * bs) pl') = Some (base + i * bs, pl'') \<and> full pl'')"
proof -
  have inv: "pool_inv cap bs pl" and fl: "free_list cap pl = pool_blocks cap bs pl"
    using Pool_new_inv [OF assms] by auto
  have b: "pool_blocks cap bs pl = map (\<lambda>i. base + i * bs) [0..<cap]"
    using assms(1) by (auto simp: Pool_new_def Let_def pool_blocks_def)
  obtain pl' where pl': "pl.alloc_n cap pl = Some (pool_blocks cap bs pl, pl')" "pool_inv cap bs pl'"
    "set (pool_blocks cap bs pl') = set (pool_blocks cap bs pl)" "free_list cap pl' = []"
    using pl.alloc_n_free [OF inv, of cap] by (auto simp: fl)
  have "\<exists>pl''. allocate (deallocate (base + i * bs) pl') = Some (base + i * bs, pl'') \<and> full pl''"
    if "i < cap" for i
    using pl.alloc_dealloc [OF pl'(2), of "base + i * bs"] that pl' b free_list_Nil
    by (fastforce simp: pl.live_def full_def)
  then show ?thesis using pl' b allocate_null [OF pl'(2,4)] by auto
qed

theorem pool_exhausts_witness:
  "\<exists>(pl :: nat pool) pl'. Pool_new 2 8 (Some (1000, \<lambda>_. Link 0)) = Some pl \<and>
     pl.alloc_n 2 pl = Some ([1000, 1008], pl') \<and> allocate pl' = Some (0, pl')"
proof -
  obtain pl :: "nat pool" where pl: "Pool_new 2 8 (Some (1000, \<lambda>_. Link 0)) = Some pl"
    by (simp add: Pool_new_def)
  have "map (\<lambda>i. 1000 + i * 8) [0..<2] = [1000, 1008 :: nat]" by (simp add: upt_rec)
  with pool_exhausts [OF pl] pl show ?thesis by auto
qed

end
