(* ===== verification/Matching_Engine.thy ===== *)
theory Matching_Engine
  imports Flat_Hash_Map Pool_Alloc "HOL-Library.Monad_Syntax"
begin

text \<open>
  The exchange simulator's matching engine, \<open>sim/domain/matching_engine.h\<close> and
  \<open>sim/domain/matching_engine.cpp\<close>, at the level of its pointers: orders live in blocks of the
  pool and are linked through \<open>prev_in_level\<close> and \<open>next_in_level\<close>, each of the 101 price levels
  of a side keeps a head, a tail and a total, and a hash map leads from order ids to blocks.
  The result \<open>None\<close> stands for undefined behaviour (a null or dangling pointer followed, an
  array index out of range) and for a loop that does not end.
\<close>

section \<open>Data\<close>

datatype side = YES | NO

record fill =
  maker_order_id :: u64
  taker_order_id :: u64
  fill_price :: u8
  fill_qty :: u32
  fill_ts :: u64

record order =
  order_id :: u64
  client_id :: u64
  order_side :: side
  order_price :: u8
  qty_remaining :: u32
  ts_received :: u64
  prev_in_level :: ptr
  next_in_level :: ptr

record price_level =
  lvl_head :: ptr
  lvl_tail :: ptr
  total_qty :: u32

record place_result =
  res_order_id :: u64
  res_fills :: "fill list"
  qty_resting :: u32
  accepted :: bool

record engine =
  eng_pool :: "order pool"
  bids :: "price_level list"
  asks :: "price_level list"
  eng_orders :: "ptr flat_hash_map"
  eng_best_bid :: u8
  eng_best_ask :: u8
  next_order_id :: u64

text \<open>
  The template arguments \<open>Pool<Order, 2048>\<close> and \<open>FlatHashMap<uint64_t, Order*, 4096>\<close>, the size
  of an \<open>Order\<close> (48 bytes with 64-bit pointers), and the bound of the two arrays of levels.
\<close>

definition pool_capacity :: nat where "pool_capacity = 2048"
definition index_capacity :: u64 where "index_capacity = 4096"
definition sizeof_order :: nat where "sizeof_order = 48"
definition num_levels :: nat where "num_levels = 101"

text \<open>The default constructor, from the two memory mappings its members ask for.\<close>

definition MatchingEngine_new ::
  "(ptr \<times> (ptr \<Rightarrow> order block)) option \<Rightarrow> ptr slot list option \<Rightarrow> engine option" where
  "MatchingEngine_new pool_map index_map = do {
     pl \<leftarrow> Pool_new pool_capacity sizeof_order pool_map;
     ix \<leftarrow> FlatHashMap_new index_map;
     Some \<lparr>eng_pool = pl,
           bids = replicate num_levels \<lparr>lvl_head = 0, lvl_tail = 0, total_qty = 0\<rparr>,
           asks = replicate num_levels \<lparr>lvl_head = 0, lvl_tail = 0, total_qty = 0\<rparr>,
           eng_orders = ix, eng_best_bid = 0, eng_best_ask = 100, next_order_id = 1\<rparr>
   }"

section \<open>Memory access\<close>

text \<open>\<open>p->field\<close> for an order pointer, and the assignment \<open>p->field = ...\<close>.\<close>

definition deref :: "engine \<Rightarrow> ptr \<Rightarrow> order option" where
  "deref e p = (if p = 0 then None else load_obj (eng_pool e) p)"

definition assign :: "ptr \<Rightarrow> (order \<Rightarrow> order) \<Rightarrow> engine \<Rightarrow> engine option" where
  "assign p f e = (case deref e p of
     None \<Rightarrow> None
   | Some o' \<Rightarrow> Some (e\<lparr>eng_pool := store_obj p (f o') (eng_pool e)\<rparr>))"

text \<open>The two walls a \<open>PriceLevel*\<close> can point at, and access to a level by its price.\<close>

datatype wall = Bids | Asks

definition levels :: "engine \<Rightarrow> wall \<Rightarrow> price_level list" where
  "levels e w = (case w of Bids \<Rightarrow> bids e | Asks \<Rightarrow> asks e)"

definition get_level :: "engine \<Rightarrow> wall \<Rightarrow> u8 \<Rightarrow> price_level option" where
  "get_level e w p = (if unat p < length (levels e w) then Some (levels e w ! unat p) else None)"

definition upd_level :: "wall \<Rightarrow> u8 \<Rightarrow> (price_level \<Rightarrow> price_level) \<Rightarrow> engine \<Rightarrow> engine option" where
  "upd_level w p f e = (case get_level e w p of
     None \<Rightarrow> None
   | Some l \<Rightarrow> Some (case w of
       Bids \<Rightarrow> e\<lparr>bids := (bids e)[unat p := f l]\<rparr>
     | Asks \<Rightarrow> e\<lparr>asks := (asks e)[unat p := f l]\<rparr>))"

section \<open>Matching\<close>

text \<open>One trade: lines 64 to 73 of the inner loop.\<close>

definition trade :: "wall \<Rightarrow> u8 \<Rightarrow> ptr \<Rightarrow> ptr \<Rightarrow> fill list \<Rightarrow> engine \<Rightarrow> (fill list \<times> engine) option" where
  "trade w pt incoming cur fills e = do {
     co \<leftarrow> deref e cur;
     io \<leftarrow> deref e incoming;
     let traded = min (qty_remaining co) (qty_remaining io);
     let fills = fills @ [\<lparr>maker_order_id = order_id co, taker_order_id = order_id io,
       fill_price = pt, fill_qty = traded, fill_ts = ts_received io\<rparr>];
     e \<leftarrow> assign cur (\<lambda>o'. o'\<lparr>qty_remaining := qty_remaining o' - traded\<rparr>) e;
     e \<leftarrow> upd_level w pt (\<lambda>l. l\<lparr>total_qty := total_qty l - traded\<rparr>) e;
     e \<leftarrow> assign incoming (\<lambda>o'. o'\<lparr>qty_remaining := qty_remaining o' - traded\<rparr>) e;
     Some (fills, e)
   }"

text \<open>Removal of a completely filled order: lines 75 to 88. The result carries \<open>next\<close>.\<close>

definition remove_filled :: "wall \<Rightarrow> u8 \<Rightarrow> ptr \<Rightarrow> engine \<Rightarrow> (ptr \<times> engine) option" where
  "remove_filled w pt cur e = do {
     co \<leftarrow> deref e cur;
     let nxt = next_in_level co;
     e \<leftarrow> (if prev_in_level co \<noteq> 0
          then assign (prev_in_level co) (\<lambda>o'. o'\<lparr>next_in_level := nxt\<rparr>) e
          else upd_level w pt (\<lambda>l. l\<lparr>lvl_head := nxt\<rparr>) e);
     co \<leftarrow> deref e cur;
     e \<leftarrow> (if nxt \<noteq> 0
          then assign nxt (\<lambda>o'. o'\<lparr>prev_in_level := prev_in_level co\<rparr>) e
          else upd_level w pt (\<lambda>l. l\<lparr>lvl_tail := prev_in_level co\<rparr>) e);
     co \<leftarrow> deref e cur;
     (ix, _) \<leftarrow> fhm_erase index_capacity (eng_orders e) (order_id co);
     Some (nxt, e\<lparr>eng_orders := ix, eng_pool := deallocate cur (eng_pool e)\<rparr>)
   }"

text \<open>The inner loop over one level and the outer loop over the levels.\<close>

partial_function (option) match_level ::
  "wall \<Rightarrow> u8 \<Rightarrow> ptr \<Rightarrow> ptr \<Rightarrow> fill list \<Rightarrow> engine \<Rightarrow> (fill list \<times> engine) option" where
  "match_level w pt incoming cur fills e =
    (if cur = 0 then Some (fills, e)
     else do {
       io \<leftarrow> deref e incoming;
       if qty_remaining io > 0 then do {
         (fills, e) \<leftarrow> trade w pt incoming cur fills e;
         co \<leftarrow> deref e cur;
         if qty_remaining co = 0 then do {
           (nxt, e) \<leftarrow> remove_filled w pt cur e;
           match_level w pt incoming nxt fills e
         } else Some (fills, e)
       } else Some (fills, e)
     })"

partial_function (option) match_loop ::
  "wall \<Rightarrow> u8 \<Rightarrow> u8 \<Rightarrow> ptr \<Rightarrow> u8 \<Rightarrow> fill list \<Rightarrow> engine \<Rightarrow> (fill list \<times> engine) option" where
  "match_loop w scan_dir price incoming pt fills e = do {
     io \<leftarrow> deref e incoming;
     if (if scan_dir = 1 then pt \<le> price else pt \<ge> price) \<and> qty_remaining io \<noteq> 0 then do {
       l \<leftarrow> get_level e w pt;
       (fills, e) \<leftarrow> match_level w pt incoming (lvl_head l) fills e;
       match_loop w scan_dir price incoming (pt + scan_dir) fills e
     } else Some (fills, e)
   }"

text \<open>The two loops that move the best prices off empty levels.\<close>

partial_function (option) scan_best_bid :: "engine \<Rightarrow> engine option" where
  "scan_best_bid e = do {
     l \<leftarrow> get_level e Bids (eng_best_bid e);
     if total_qty l = 0 \<and> eng_best_bid e \<noteq> 0
     then scan_best_bid (e\<lparr>eng_best_bid := eng_best_bid e - 1\<rparr>)
     else Some e
   }"

partial_function (option) scan_best_ask :: "engine \<Rightarrow> engine option" where
  "scan_best_ask e = do {
     l \<leftarrow> get_level e Asks (eng_best_ask e);
     if total_qty l = 0 \<and> eng_best_ask e \<noteq> 100
     then scan_best_ask (e\<lparr>eng_best_ask := eng_best_ask e + 1\<rparr>)
     else Some e
   }"

text \<open>The rest of an order that is not filled goes to the end of its level: lines 100 to 115.\<close>

definition rest_order :: "wall \<Rightarrow> side \<Rightarrow> ptr \<Rightarrow> engine \<Rightarrow> engine option" where
  "rest_order w sd incoming e = do {
     io \<leftarrow> deref e incoming;
     let e = e\<lparr>eng_orders := fst (fhm_insert index_capacity (eng_orders e) (order_id io) incoming)\<rparr>;
     l \<leftarrow> get_level e w (order_price io);
     let old_tail = lvl_tail l;
     e \<leftarrow> upd_level w (order_price io) (\<lambda>l. l\<lparr>lvl_tail := incoming\<rparr>) e;
     e \<leftarrow> (if old_tail = 0
          then upd_level w (order_price io) (\<lambda>l. l\<lparr>lvl_head := incoming\<rparr>) e
          else do {
            e \<leftarrow> assign incoming (\<lambda>o'. o'\<lparr>prev_in_level := old_tail\<rparr>) e;
            assign old_tail (\<lambda>o'. o'\<lparr>next_in_level := incoming\<rparr>) e
          });
     io \<leftarrow> deref e incoming;
     e \<leftarrow> upd_level w (order_price io) (\<lambda>l. l\<lparr>total_qty := total_qty l + qty_remaining io\<rparr>) e;
     Some (case sd of
       YES \<Rightarrow> e\<lparr>eng_best_bid := max (eng_best_bid e) (order_price io)\<rparr>
     | NO \<Rightarrow> e\<lparr>eng_best_ask := min (eng_best_ask e) (order_price io)\<rparr>)
   }"

definition rejected :: place_result where
  "rejected = \<lparr>res_order_id = 0, res_fills = [], qty_resting = 0, accepted = False\<rparr>"

text \<open>\<open>place_limit\<close>; the first argument is what \<open>ts_now()\<close> returns during the call.\<close>

definition place_limit ::
  "u64 \<Rightarrow> u64 \<Rightarrow> side \<Rightarrow> u8 \<Rightarrow> u32 \<Rightarrow> engine \<Rightarrow> (place_result \<times> engine) option" where
  "place_limit ts_now client sd price qty e =
    (if price < 1 \<or> price > 99 then Some (rejected, e)
     else if qty = 0 then Some (rejected, e)
     else do {
       let (matching_wall, resting_wall, scan_start, scan_dir) =
         (case sd of YES \<Rightarrow> (Asks, Bids, eng_best_ask e, 1) | NO \<Rightarrow> (Bids, Asks, eng_best_bid e, - 1));
       (incoming, pl) \<leftarrow> allocate (eng_pool e);
       if incoming = 0 then Some (rejected, e\<lparr>eng_pool := pl\<rparr>)
       else do {
         let oid = next_order_id e;
         let e = e\<lparr>next_order_id := next_order_id e + 1,
           eng_pool := store_obj incoming \<lparr>order_id = oid, client_id = client, order_side = sd,
             order_price = price, qty_remaining = qty, ts_received = ts_now,
             prev_in_level = 0, next_in_level = 0\<rparr> pl\<rparr>;
         (fills, e) \<leftarrow> match_loop matching_wall scan_dir price incoming scan_start [] e;
         io \<leftarrow> deref e incoming;
         e \<leftarrow> (if qty_remaining io > 0 then rest_order resting_wall sd incoming e
              else Some (e\<lparr>eng_pool := deallocate incoming (eng_pool e)\<rparr>));
         e \<leftarrow> scan_best_bid e;
         e \<leftarrow> scan_best_ask e;
         Some (\<lparr>res_order_id = oid, res_fills = fills,
           qty_resting = (if qty_remaining io > 0 then qty_remaining io else 0), accepted = True\<rparr>, e)
       }
     })"

section \<open>Cancelling and queries\<close>

definition cancel :: "u64 \<Rightarrow> u64 \<Rightarrow> engine \<Rightarrow> (bool \<times> engine) option" where
  "cancel oid client e =
    (case fhm_find index_capacity (eng_orders e) oid of
       None \<Rightarrow> Some (False, e)
     | Some slot \<Rightarrow> do {
         let cur = slot_value (fm_slots (eng_orders e) ! unat slot);
         co \<leftarrow> deref e cur;
         if client_id co \<noteq> client then Some (False, e)
         else do {
           let price = order_price co;
           let cur_level = (case order_side co of YES \<Rightarrow> Bids | NO \<Rightarrow> Asks);
           e \<leftarrow> (if next_in_level co = 0
                then upd_level cur_level price (\<lambda>l. l\<lparr>lvl_tail := prev_in_level co\<rparr>) e
                else assign (next_in_level co) (\<lambda>o'. o'\<lparr>prev_in_level := prev_in_level co\<rparr>) e);
           co \<leftarrow> deref e cur;
           e \<leftarrow> (if prev_in_level co = 0
                then upd_level cur_level price (\<lambda>l. l\<lparr>lvl_head := next_in_level co\<rparr>) e
                else assign (prev_in_level co) (\<lambda>o'. o'\<lparr>next_in_level := next_in_level co\<rparr>) e);
           co \<leftarrow> deref e cur;
           e \<leftarrow> upd_level cur_level price (\<lambda>l. l\<lparr>total_qty := total_qty l - qty_remaining co\<rparr>) e;
           (ix, _) \<leftarrow> fhm_erase index_capacity (eng_orders e) oid;
           let e = e\<lparr>eng_orders := ix, eng_pool := deallocate cur (eng_pool e)\<rparr>;
           e \<leftarrow> scan_best_bid e;
           e \<leftarrow> scan_best_ask e;
           Some (True, e)
         }
       })"

definition best_bid :: "engine \<Rightarrow> u8" where "best_bid e = eng_best_bid e"

definition best_ask :: "engine \<Rightarrow> u8" where "best_ask e = eng_best_ask e"

definition depth_at :: "engine \<Rightarrow> side \<Rightarrow> u8 \<Rightarrow> u32 option" where
  "depth_at e sd price =
    (if price < 1 \<or> price > 99 then Some 0
     else case sd of YES \<Rightarrow> map_option total_qty (get_level e Bids price)
                   | NO \<Rightarrow> map_option total_qty (get_level e Asks price))"

end
