(* ===== verification/Order_Book.thy ===== *)
theory Order_Book
  imports Matching_Engine
begin

text \<open>
  The specification of the matching engine: a limit order book with price-time priority. A book
  gives each wall and price the queue of its resting orders, oldest first. An incoming order
  consumes the opposite orders it crosses in one queue, better prices first and older orders
  first at a price; what is left of it joins the queue of its own price.
\<close>

section \<open>The book\<close>

record aorder =
  ao_id :: u64
  ao_client :: u64
  ao_qty :: u32
  ao_ts :: u64

type_synonym book = "wall \<Rightarrow> u8 \<Rightarrow> aorder list"

fun own_wall :: "side \<Rightarrow> wall" where
  "own_wall YES = Bids"
| "own_wall NO = Asks"

fun opp_wall :: "side \<Rightarrow> wall" where
  "opp_wall YES = Asks"
| "opp_wall NO = Bids"

text \<open>The prices an incoming order may trade at, best first.\<close>

fun crossing :: "side \<Rightarrow> u8 \<Rightarrow> u8 list" where
  "crossing YES price = map of_nat [1..<Suc (unat price)]"
| "crossing NO price = rev (map of_nat [unat price..<100])"

definition queue :: "(u8 \<Rightarrow> aorder list) \<Rightarrow> u8 list \<Rightarrow> (u8 \<times> aorder) list" where
  "queue L ps = concat (map (\<lambda>p. map (Pair p) (L p)) ps)"

definition mk_fill :: "u64 \<Rightarrow> u64 \<Rightarrow> u8 \<Rightarrow> aorder \<Rightarrow> u32 \<Rightarrow> fill" where
  "mk_fill taker ts p a q = \<lparr>maker_order_id = ao_id a, taker_order_id = taker, fill_price = p,
     fill_qty = q, fill_ts = ts\<rparr>"

text \<open>Consuming a queue: the fills, the quantity left over, and the queue left over.\<close>

fun consume :: "u64 \<Rightarrow> u64 \<Rightarrow> u32 \<Rightarrow> (u8 \<times> aorder) list \<Rightarrow> fill list" where
  "consume t ts q [] = []"
| "consume t ts q ((p, a) # xs) =
    (if q = 0 then []
     else if ao_qty a \<le> q then mk_fill t ts p a (ao_qty a) # consume t ts (q - ao_qty a) xs
     else [mk_fill t ts p a q])"

fun unfilled :: "u32 \<Rightarrow> (u8 \<times> aorder) list \<Rightarrow> u32" where
  "unfilled q [] = q"
| "unfilled q ((p, a) # xs) =
    (if q = 0 then 0 else if ao_qty a \<le> q then unfilled (q - ao_qty a) xs else 0)"

fun leftover :: "u32 \<Rightarrow> (u8 \<times> aorder) list \<Rightarrow> (u8 \<times> aorder) list" where
  "leftover q [] = []"
| "leftover q ((p, a) # xs) =
    (if q = 0 then (p, a) # xs
     else if ao_qty a \<le> q then leftover (q - ao_qty a) xs
     else (p, a\<lparr>ao_qty := ao_qty a - q\<rparr>) # xs)"

text \<open>The queue of a price, taken back out of a flat queue.\<close>

definition at_price :: "(u8 \<times> aorder) list \<Rightarrow> u8 \<Rightarrow> aorder list" where
  "at_price xs p = map snd (filter (\<lambda>x. fst x = p) xs)"

definition book_size :: "book \<Rightarrow> nat" where
  "book_size B = (\<Sum>w\<in>{Bids, Asks}. \<Sum>p\<leftarrow>map of_nat [0..<101]. length (B w p))"

text \<open>
  Placing an order with id \<open>t\<close> at time \<open>ts\<close>: an order with a bad price or quantity, or one that
  comes when every block of the pool is taken, is rejected and changes nothing.
\<close>

definition accepts :: "book \<Rightarrow> u8 \<Rightarrow> u32 \<Rightarrow> bool" where
  "accepts B price qty \<longleftrightarrow> 1 \<le> price \<and> price \<le> 99 \<and> qty \<noteq> 0 \<and> book_size B < pool_capacity"

definition place_spec ::
  "u64 \<Rightarrow> u64 \<Rightarrow> u64 \<Rightarrow> side \<Rightarrow> u8 \<Rightarrow> u32 \<Rightarrow> book \<Rightarrow> place_result \<times> book" where
  "place_spec t ts client sd price qty B =
    (if \<not> accepts B price qty then (rejected, B)
     else
       let ps = crossing sd price;
           xs = queue (B (opp_wall sd)) ps;
           r = unfilled qty xs;
           L = (\<lambda>p. if p \<in> set ps then at_price (leftover qty xs) p else B (opp_wall sd) p);
           B1 = B(opp_wall sd := L);
           new = \<lparr>ao_id = t, ao_client = client, ao_qty = r, ao_ts = ts\<rparr>;
           B2 = (if r = 0 then B1
                 else B1(own_wall sd := (B1 (own_wall sd))(price := B1 (own_wall sd) price @ [new])))
       in (\<lparr>res_order_id = t, res_fills = consume t ts qty xs, qty_resting = r, accepted = True\<rparr>, B2))"

text \<open>Cancelling: the order with this id, if it rests and belongs to the client.\<close>

definition owned :: "book \<Rightarrow> u64 \<Rightarrow> u64 \<Rightarrow> bool" where
  "owned B oid client \<longleftrightarrow>
    (\<exists>w\<in>{Bids, Asks}. \<exists>p\<in>set (map of_nat [0..<101]). \<exists>a\<in>set (B w p). ao_id a = oid \<and> ao_client a = client)"

definition cancel_spec :: "u64 \<Rightarrow> u64 \<Rightarrow> book \<Rightarrow> bool \<times> book" where
  "cancel_spec oid client B =
    (if owned B oid client then (True, \<lambda>w p. filter (\<lambda>a. ao_id a \<noteq> oid) (B w p)) else (False, B))"

section \<open>Consuming a queue\<close>

lemma mk_fill_sel [simp]:
  "maker_order_id (mk_fill t ts p a q) = ao_id a" "taker_order_id (mk_fill t ts p a q) = t"
  "fill_price (mk_fill t ts p a q) = p" "fill_qty (mk_fill t ts p a q) = q" "fill_ts (mk_fill t ts p a q) = ts"
  by (simp_all add: mk_fill_def)

lemma consume_0 [simp]: "consume t ts 0 xs = []" by (cases xs rule: list.exhaust) auto
lemma unfilled_0 [simp]: "unfilled 0 xs = 0" by (cases xs rule: list.exhaust) auto
lemma leftover_0 [simp]: "leftover 0 xs = xs" by (cases xs rule: list.exhaust) auto

lemma queue_simps [simp]: "queue L [] = []" "queue L (p # ps) = map (Pair p) (L p) @ queue L ps"
  by (simp_all add: queue_def)

lemma consume_append: "consume t ts q (xs @ ys) = consume t ts q xs @ consume t ts (unfilled q xs) ys"
  by (induction t ts q xs rule: consume.induct) auto

lemma unfilled_append: "unfilled q (xs @ ys) = unfilled (unfilled q xs) ys"
  by (induction q xs rule: unfilled.induct) auto

lemma leftover_append: "leftover q (xs @ ys) = leftover q xs @ leftover (unfilled q xs) ys"
proof (induction q xs rule: leftover.induct)
  case (2 q p a xs)
  then show ?case by auto
qed simp

text \<open>Quantities as naturals: nothing wraps.\<close>

lemma consume_conserves:
  "(\<Sum>f\<leftarrow>consume t ts q xs. unat (fill_qty f)) + unat (unfilled q xs) = unat q"
proof (induction t ts q xs rule: consume.induct)
  case (2 t ts q p a xs)
  have "unat (q - ao_qty a) + unat (ao_qty a) = unat q" if "ao_qty a \<le> q"
    using that by (simp add: unat_sub word_le_nat_alt)
  with 2 show ?case by auto
qed simp

lemma leftover_conserves:
  "(\<Sum>f\<leftarrow>consume t ts q xs. unat (fill_qty f)) + (\<Sum>x\<leftarrow>leftover q xs. unat (ao_qty (snd x))) =
   (\<Sum>x\<leftarrow>xs. unat (ao_qty (snd x)))"
proof (induction t ts q xs rule: consume.induct)
  case (2 t ts q p a xs)
  have "unat (ao_qty a - q) + unat q = unat (ao_qty a)" if "\<not> ao_qty a \<le> q"
    using that by (simp add: unat_sub word_le_nat_alt)
  with 2 show ?case by auto
qed simp

text \<open>What is not filled met nothing more to trade with.\<close>

lemma unfilled_leftover: "unfilled q xs \<noteq> 0 \<Longrightarrow> leftover q xs = []"
  by (induction q xs rule: unfilled.induct) (auto split: if_splits)

section \<open>Queues by price\<close>

lemma at_price_simps [simp]:
  "at_price [] p = []" "at_price ((p', a) # xs) p = (if p' = p then a # at_price xs p else at_price xs p)"
  "at_price (xs @ ys) p = at_price xs p @ at_price ys p"
  by (simp_all add: at_price_def)

lemma at_price_Pair: "at_price (map (Pair p') as) p = (if p' = p then as else [])"
  by (induction as) auto

lemma at_price_queue: "distinct ps \<Longrightarrow> at_price (queue L ps) p = (if p \<in> set ps then L p else [])"
  by (induction ps) (auto simp: at_price_Pair)

lemma in_at_price: "a \<in> set (at_price xs p) \<longleftrightarrow> (p, a) \<in> set xs"
  by (force simp: at_price_def)

lemma in_queue: "(p, a) \<in> set (queue L ps) \<longleftrightarrow> p \<in> set ps \<and> a \<in> set (L p)"
  by (auto simp: queue_def)

lemma queue_Nil: "queue L ps = [] \<longleftrightarrow> (\<forall>p\<in>set ps. L p = [])"
  by (induction ps) auto

lemma set_crossing:
  assumes "1 \<le> price" "price \<le> 99"
  shows "p \<in> set (crossing YES price) \<longleftrightarrow> 1 \<le> p \<and> p \<le> price"
    and "p \<in> set (crossing NO price) \<longleftrightarrow> price \<le> p \<and> p \<le> 99"
proof -
  have u: "unat price \<le> 99" using assms(2) by (simp add: word_le_nat_alt)
  show "p \<in> set (crossing YES price) \<longleftrightarrow> 1 \<le> p \<and> p \<le> price"
    using in_set_of_nat_u8 [of "Suc (unat price)" p 1] u by (auto simp: word_le_nat_alt simp del: upt_Suc)
  show "p \<in> set (crossing NO price) \<longleftrightarrow> price \<le> p \<and> p \<le> 99"
    using in_set_of_nat_u8 [of 100 p "unat price"] by (auto simp: word_le_nat_alt)
qed

lemma distinct_crossing: "price \<le> 99 \<Longrightarrow> distinct (crossing sd price)"
  by (cases sd) (auto simp: word_le_nat_alt intro!: distinct_of_nat_u8 simp del: upt_Suc)

section \<open>Well-formed books\<close>

text \<open>
  Level totals are 32-bit sums over at most 2048 orders, so they cannot wrap while no order is
  larger than \<open>max_order_qty\<close> = \<open>2^21 - 1\<close>; the HTTP handler admits at most 1000000.
\<close>

definition max_order_qty :: u32 where
  "max_order_qty = 2097151"

definition book_ok :: "book \<Rightarrow> u64 \<Rightarrow> bool" where
  "book_ok B nid \<longleftrightarrow>
     (\<forall>w p. \<forall>a\<in>set (B w p). 1 \<le> p \<and> p \<le> 99 \<and> 0 < ao_qty a \<and> ao_qty a \<le> max_order_qty \<and> ao_id a < nid) \<and>
     (\<forall>w p. sorted_wrt (<) (map ao_id (B w p))) \<and>
     (\<forall>p q. B Bids p \<noteq> [] \<longrightarrow> B Asks q \<noteq> [] \<longrightarrow> p < q)"

text \<open>What is left of a queue is a suffix of it, with at most its first order reduced.\<close>

definition okey :: "u8 \<times> aorder \<Rightarrow> u8 \<times> u64 \<times> u64 \<times> u64" where
  "okey x = (fst x, ao_id (snd x), ao_client (snd x), ao_ts (snd x))"

lemma leftover_suffix: "\<exists>ys zs. xs = ys @ zs \<and> map okey (leftover q xs) = map okey zs"
proof (induction q xs rule: leftover.induct)
  case (1 q)
  then show ?case by simp
next
  case (2 q p a xs)
  show ?case
  proof (cases "q \<noteq> 0 \<and> ao_qty a \<le> q")
    case True
    then obtain ys zs where "xs = ys @ zs" "map okey (leftover (q - ao_qty a) xs) = map okey zs" using 2 by blast
    then show ?thesis using True by (intro exI [of _ "(p, a) # ys"] exI [of _ zs]) simp
  next
    case False
    then show ?thesis by (intro exI [of _ "[]"] exI [of _ "(p, a) # xs"]) (auto simp: okey_def)
  qed
qed

lemma leftover_member:
  assumes "(p, b) \<in> set (leftover q xs)"
  shows "\<exists>a. (p, a) \<in> set xs \<and> ao_id b = ao_id a \<and> ao_client b = ao_client a \<and> ao_ts b = ao_ts a \<and>
    ao_qty b \<le> ao_qty a \<and> (0 < ao_qty a \<longrightarrow> 0 < ao_qty b)"
  using assms
proof (induction q xs rule: leftover.induct)
  case (2 q p' a xs)
  have "ao_qty a - q \<le> ao_qty a" "0 < ao_qty a - q" if "\<not> ao_qty a \<le> q"
    using that by (simp_all add: word_le_nat_alt word_less_nat_alt unat_sub)
  with 2 show ?case by (fastforce split: if_splits)
qed simp

lemma sorted_at_leftover:
  assumes "sorted_wrt (<) (map ao_id (at_price xs p))"
  shows "sorted_wrt (<) (map ao_id (at_price (leftover q xs) p))"
proof -
  obtain ys zs where s: "xs = ys @ zs" "map okey (leftover q xs) = map okey zs" using leftover_suffix by blast
  have k: "map ao_id (at_price vs p) = map (\<lambda>k. fst (snd k)) (filter (\<lambda>k. fst k = p) (map okey vs))" for vs
    by (induction vs) (auto simp: at_price_def okey_def)
  have "map ao_id (at_price (leftover q xs) p) = map ao_id (at_price zs p)" unfolding k s(2) ..
  then show ?thesis using assms s(1) by (simp add: sorted_wrt_append)
qed

section \<open>Operations keep books well formed\<close>

lemma book_okD:
  assumes "book_ok B nid" "a \<in> set (B w p)"
  shows "1 \<le> p" "p \<le> 99" "0 < ao_qty a" "ao_qty a \<le> max_order_qty" "ao_id a < nid"
  using assms unfolding book_ok_def by blast+

lemma book_ok_sorted: "book_ok B nid \<Longrightarrow> sorted_wrt (<) (map ao_id (B w p))"
  unfolding book_ok_def by blast

lemma book_ok_uncrossed: "book_ok B nid \<Longrightarrow> B Bids p \<noteq> [] \<Longrightarrow> B Asks q \<noteq> [] \<Longrightarrow> p < q"
  unfolding book_ok_def by blast

lemma book_okI:
  assumes "\<And>w p a. a \<in> set (B w p) \<Longrightarrow>
      1 \<le> p \<and> p \<le> 99 \<and> 0 < ao_qty a \<and> ao_qty a \<le> max_order_qty \<and> ao_id a < nid"
    "\<And>w p. sorted_wrt (<) (map ao_id (B w p))"
    "\<And>p q. B Bids p \<noteq> [] \<Longrightarrow> B Asks q \<noteq> [] \<Longrightarrow> p < q"
  shows "book_ok B nid"
  using assms unfolding book_ok_def by blast

text \<open>The wall that was traded against.\<close>

definition traded_wall :: "(u8 \<Rightarrow> aorder list) \<Rightarrow> u8 list \<Rightarrow> u32 \<Rightarrow> u8 \<Rightarrow> aorder list" where
  "traded_wall L ps q p = (if p \<in> set ps then at_price (leftover q (queue L ps)) p else L p)"

lemma traded_member:
  assumes "b \<in> set (traded_wall L ps q p)"
  shows "\<exists>a\<in>set (L p). ao_id b = ao_id a \<and> ao_client b = ao_client a \<and> ao_ts b = ao_ts a \<and>
    ao_qty b \<le> ao_qty a \<and> (0 < ao_qty a \<longrightarrow> 0 < ao_qty b)"
proof (cases "p \<in> set ps")
  case True
  then have "(p, b) \<in> set (leftover q (queue L ps))" using assms by (simp add: traded_wall_def in_at_price)
  from leftover_member [OF this] show ?thesis by (auto simp: in_queue)
qed (use assms in \<open>auto simp: traded_wall_def\<close>)

lemma traded_sorted:
  assumes "distinct ps" "sorted_wrt (<) (map ao_id (L p))"
  shows "sorted_wrt (<) (map ao_id (traded_wall L ps q p))"
  using assms sorted_at_leftover [of "queue L ps" p q] by (auto simp: traded_wall_def at_price_queue)

lemma traded_Nil: "L p = [] \<Longrightarrow> traded_wall L ps q p = []"
  using traded_member [of _ L ps q p] by (cases "traded_wall L ps q p") auto

lemma traded_exhausted: "unfilled q (queue L ps) \<noteq> 0 \<Longrightarrow> p \<in> set ps \<Longrightarrow> traded_wall L ps q p = []"
  by (simp add: traded_wall_def unfilled_leftover)

lemma wall_all: "(\<forall>w. P w) \<longleftrightarrow> P Bids \<and> P Asks"
  by (metis wall.exhaust)

lemma place_spec_accept:
  fixes sd :: side
  assumes "accepts B price qty"
  defines "L \<equiv> B (opp_wall sd)" and "ps \<equiv> crossing sd price"
  defines "r \<equiv> unfilled qty (queue L ps)"
  shows "place_spec t ts client sd price qty B =
    (\<lparr>res_order_id = t, res_fills = consume t ts qty (queue L ps), qty_resting = r, accepted = True\<rparr>,
     \<lambda>w p. if w = opp_wall sd then traded_wall L ps qty p
       else if r \<noteq> 0 \<and> p = price then B w p @ [\<lparr>ao_id = t, ao_client = client, ao_qty = r, ao_ts = ts\<rparr>]
       else B w p)"
  using assms(1) unfolding place_spec_def
  by (cases sd)
    (simp_all add: Let_def L_def ps_def r_def traded_wall_def fun_eq_iff wall_all del: crossing.simps)

lemma unfilled_le: "unfilled q xs \<le> q"
proof (induction q xs rule: unfilled.induct)
  case (2 q p a xs)
  have "q - ao_qty a \<le> q" if "ao_qty a \<le> q" using that by (simp add: word_le_nat_alt unat_sub)
  with 2 show ?case using order_trans by fastforce
qed simp

lemma word_succ_less:
  fixes t :: u64
  assumes "t \<noteq> - 1"
  shows "t < t + 1"
proof -
  have "t < - 1" using assms word_order.extremum [of t] by (simp add: order_less_le)
  then have "unat t < unat (- 1 :: u64)" by (simp add: word_less_nat_alt)
  from unat_u64_succ [OF this] show ?thesis by (simp add: word_less_nat_alt)
qed

text \<open>An accepted order leaves the opposite wall traded and may join the queue of its own price.\<close>

lemma place_spec_walls:
  fixes sd :: side and t ts client :: u64
  assumes "accepts B price qty"
  defines "L \<equiv> B (opp_wall sd)" and "ps \<equiv> crossing sd price"
  defines "r \<equiv> unfilled qty (queue L ps)" and "B' \<equiv> snd (place_spec t ts client sd price qty B)"
  shows "B' (opp_wall sd) p = traded_wall L ps qty p"
    and "w \<noteq> opp_wall sd \<Longrightarrow> B' w p =
      (if r \<noteq> 0 \<and> p = price then B w p @ [\<lparr>ao_id = t, ao_client = client, ao_qty = r, ao_ts = ts\<rparr>] else B w p)"
  by (simp_all add: place_spec_accept [OF assms(1)] L_def ps_def r_def B'_def)

lemma placed_member:
  assumes B: "book_ok B t" and q: "qty \<le> max_order_qty" and t: "t \<noteq> - 1" and acc: "accepts B price qty"
    and a: "a \<in> set (snd (place_spec t ts client sd price qty B) w p)"
  shows "1 \<le> p \<and> p \<le> 99 \<and> 0 < ao_qty a \<and> ao_qty a \<le> max_order_qty \<and> ao_id a < t + 1"
proof -
  have t1: "t < t + 1" using word_succ_less [OF t] .
  consider b where "b \<in> set (B w p)" "ao_id a = ao_id b" "ao_qty a \<le> ao_qty b" "0 < ao_qty b \<longrightarrow> 0 < ao_qty a"
    | "p = price" "0 < ao_qty a" "ao_qty a \<le> qty" "ao_id a = t"
  proof (cases "w = opp_wall sd")
    case True
    then show ?thesis
      using that(1) traded_member [of a "B (opp_wall sd)" "crossing sd price" qty p] a place_spec_walls(1) [OF acc] by auto
  next
    case False
    then show ?thesis using that a place_spec_walls(2) [OF acc False] unfilled_le
      by (auto simp: word_neq_0_conv split: if_splits)
  qed
  then show ?thesis
  proof cases
    case (1 b)
    note D = book_okD [OF B 1(1)]
    show ?thesis using D 1(2,4) order_trans [OF 1(3) D(4)] less_trans [OF D(5) t1] by simp
  next
    case 2
    then show ?thesis using acc t1 order_trans [OF 2(3) q] by (simp add: accepts_def)
  qed
qed

lemma placed_sorted:
  assumes B: "book_ok B t" and acc: "accepts B price qty"
  shows "sorted_wrt (<) (map ao_id (snd (place_spec t ts client sd price qty B) w p))"
proof (cases "w = opp_wall sd")
  case True
  have "price \<le> 99" using acc by (simp add: accepts_def)
  then show ?thesis using True traded_sorted [OF distinct_crossing] book_ok_sorted [OF B] place_spec_walls(1) [OF acc] by simp
next
  case False
  then show ?thesis using place_spec_walls(2) [OF acc False] book_ok_sorted [OF B, of w p] book_okD(5) [OF B, of _ w p]
    by (auto simp: sorted_wrt_append)
qed

lemma placed_uncrossed:
  fixes sd :: side and t ts client :: u64
  assumes B: "book_ok B t" and acc: "accepts B price qty"
  defines "B' \<equiv> snd (place_spec t ts client sd price qty B)"
  assumes ne: "B' Bids p \<noteq> []" "B' Asks p' \<noteq> []"
  shows "p < p'"
proof -
  let ?L = "B (opp_wall sd)" and ?ps = "crossing sd price"
  have pr: "1 \<le> price" "price \<le> 99" using acc by (auto simp: accepts_def)
  note opp = place_spec_walls(1) [OF acc, where sd = sd and t = t and ts = ts and client = client, folded B'_def]
  note own = place_spec_walls(2) [OF acc, where sd = sd and t = t and ts = ts and client = client, folded B'_def]
  have old: "B' (opp_wall sd) x \<noteq> [] \<Longrightarrow> ?L x \<noteq> []" for x using opp traded_Nil [of ?L x] by auto
  have far: "x \<notin> set ?ps" if "B' (opp_wall sd) x \<noteq> []" "unfilled qty (queue ?L ?ps) \<noteq> 0" for x
    using that opp traded_exhausted [OF that(2)] by auto
  show ?thesis
  proof (cases sd)
    case YES
    then have a: "B Asks p' \<noteq> []" using ne(2) old by simp
    then have "1 \<le> p'" using book_okD(1) [OF B] by (metis list.set_sel(1))
    then show ?thesis
      using a YES ne own [of Bids p] far [of p'] book_ok_uncrossed [OF B, of p p'] set_crossing(1) [OF pr, of p']
      by (cases "B Bids p = []") (auto split: if_splits)
  next
    case NO
    then have a: "B Bids p \<noteq> []" using ne(1) old by simp
    then have "p \<le> 99" using book_okD(2) [OF B] by (metis list.set_sel(1))
    then show ?thesis
      using a NO ne own [of Asks p'] far [of p] book_ok_uncrossed [OF B, of p p'] set_crossing(2) [OF pr, of p]
      by (cases "B Asks p' = []") (auto split: if_splits)
  qed
qed

lemma place_spec_ok:
  assumes B: "book_ok B t" and q: "qty \<le> max_order_qty" and t: "t \<noteq> - 1"
  shows "book_ok (snd (place_spec t ts client sd price qty B))
    (if accepts B price qty then t + 1 else t)"
proof (cases "accepts B price qty")
  case False
  then show ?thesis using B by (simp add: place_spec_def)
next
  case True
  have "book_ok (snd (place_spec t ts client sd price qty B)) (t + 1)"
    by (rule book_okI) (rule placed_member [OF B q t True] placed_sorted [OF B True] placed_uncrossed [OF B True]; assumption)+
  then show ?thesis using True by simp
qed

lemma cancel_spec_ok:
  assumes "book_ok B nid"
  shows "book_ok (snd (cancel_spec oid client B)) nid"
proof -
  have "book_ok (\<lambda>w p. filter (\<lambda>a. ao_id a \<noteq> oid) (B w p)) nid"
  proof (rule book_okI)
    fix w p
    have "sorted_wrt (<) (filter (\<lambda>i. i \<noteq> oid) (map ao_id (B w p)))"
      by (rule sorted_wrt_filter [OF book_ok_sorted [OF assms]])
    then show "sorted_wrt (<) (map ao_id (filter (\<lambda>a. ao_id a \<noteq> oid) (B w p)))" by (simp add: filter_map comp_def)
  next
    fix p q
    assume "filter (\<lambda>a. ao_id a \<noteq> oid) (B Bids p) \<noteq> []" "filter (\<lambda>a. ao_id a \<noteq> oid) (B Asks q) \<noteq> []"
    then have "B Bids p \<noteq> []" "B Asks q \<noteq> []" by auto
    then show "p < q" by (rule book_ok_uncrossed [OF assms])
  qed (use book_okD [OF assms] in auto)
  then show ?thesis using assms by (simp add: cancel_spec_def)
qed

end
