(* ===== verification/Matching_Rep.thy ===== *)
theory Matching_Rep
  imports Order_Book
begin

text \<open>
  How the memory of a matching engine represents a book. A ghost \<open>G\<close> gives each wall and price
  the list of its orders together with the block each one lives in; \<open>rep e G X\<close> says that the
  linked lists, the level records, the index and the pool of the engine \<open>e\<close> are those of \<open>G\<close>, with
  the blocks in \<open>X\<close> allocated and in no list. The lemmas below give the effect of each memory
  operation of the engine on this representation.
\<close>

section \<open>Doubly linked lists\<close>

type_synonym ghost = "wall \<Rightarrow> u8 \<Rightarrow> (ptr \<times> aorder) list"

fun side_of :: "wall \<Rightarrow> side" where
  "side_of Bids = YES"
| "side_of Asks = NO"

definition node :: "wall \<Rightarrow> u8 \<Rightarrow> aorder \<Rightarrow> ptr \<Rightarrow> ptr \<Rightarrow> order" where
  "node w p a prv nxt = \<lparr>order_id = ao_id a, client_id = ao_client a, order_side = side_of w,
     order_price = p, qty_remaining = ao_qty a, ts_received = ao_ts a,
     prev_in_level = prv, next_in_level = nxt\<rparr>"

definition abs_order :: "order \<Rightarrow> aorder" where
  "abs_order o' = \<lparr>ao_id = order_id o', ao_client = client_id o', ao_qty = qty_remaining o',
     ao_ts = ts_received o'\<rparr>"

definition hd_ptr :: "(ptr \<times> aorder) list \<Rightarrow> ptr \<Rightarrow> ptr" where
  "hd_ptr xs n = (case xs of [] \<Rightarrow> n | x # _ \<Rightarrow> fst x)"

definition last_ptr :: "ptr \<Rightarrow> (ptr \<times> aorder) list \<Rightarrow> ptr" where
  "last_ptr n xs = (if xs = [] then n else fst (last xs))"

fun seg :: "(ptr \<Rightarrow> order option) \<Rightarrow> wall \<Rightarrow> u8 \<Rightarrow> ptr \<Rightarrow> (ptr \<times> aorder) list \<Rightarrow> ptr \<Rightarrow> bool" where
  "seg h w p prv [] nxt \<longleftrightarrow> True"
| "seg h w p prv ((x, a) # xs) nxt \<longleftrightarrow> h x = Some (node w p a prv (hd_ptr xs nxt)) \<and> seg h w p x xs nxt"

lemma node_sel [simp]:
  "order_id (node w p a prv nxt) = ao_id a" "client_id (node w p a prv nxt) = ao_client a"
  "order_side (node w p a prv nxt) = side_of w" "order_price (node w p a prv nxt) = p"
  "qty_remaining (node w p a prv nxt) = ao_qty a" "ts_received (node w p a prv nxt) = ao_ts a"
  "prev_in_level (node w p a prv nxt) = prv" "next_in_level (node w p a prv nxt) = nxt"
  "abs_order (node w p a prv nxt) = a"
  by (simp_all add: node_def abs_order_def)

lemma node_upd [simp]:
  "(node w p a prv nxt)\<lparr>prev_in_level := prv'\<rparr> = node w p a prv' nxt"
  "(node w p a prv nxt)\<lparr>next_in_level := nxt'\<rparr> = node w p a prv nxt'"
  "(node w p a prv nxt)\<lparr>qty_remaining := q\<rparr> = node w p (a\<lparr>ao_qty := q\<rparr>) prv nxt"
  by (simp_all add: node_def)

lemma hd_ptr_simps [simp]:
  "hd_ptr [] n = n" "hd_ptr (x # xs) n = fst x" "hd_ptr (xs @ ys) n = hd_ptr xs (hd_ptr ys n)"
  by (auto simp: hd_ptr_def split: list.splits)

lemma last_ptr_simps [simp]:
  "last_ptr n [] = n" "last_ptr n (x # xs) = last_ptr (fst x) xs" "last_ptr n (xs @ ys) = last_ptr (last_ptr n xs) ys"
  by (auto simp: last_ptr_def)

lemma seg_append [simp]:
  "seg h w p prv (xs @ ys) nxt \<longleftrightarrow> seg h w p prv xs (hd_ptr ys nxt) \<and> seg h w p (last_ptr prv xs) ys nxt"
  by (induction h w p prv xs nxt rule: seg.induct) auto

lemma seg_cong: "seg h w p prv xs nxt \<Longrightarrow> (\<And>x. x \<in> fst ` set xs \<Longrightarrow> h' x = h x) \<Longrightarrow> seg h' w p prv xs nxt"
  by (induction h w p prv xs nxt rule: seg.induct) auto

lemma seg_notin [simp]: "q \<notin> fst ` set xs \<Longrightarrow> seg (h(q := v)) w p prv xs nxt \<longleftrightarrow> seg h w p prv xs nxt"
  by (induction h w p prv xs nxt rule: seg.induct) auto

lemma seg_dom: "seg h w p prv xs nxt \<Longrightarrow> (x, a) \<in> set xs \<Longrightarrow> \<exists>pr nx. h x = Some (node w p a pr nx)"
  by (induction h w p prv xs nxt rule: seg.induct) auto

text \<open>Redirecting the \<open>next\<close> link of the last node and the \<open>prev\<close> link of the first one.\<close>

lemma seg_set_next:
  assumes "seg h w p prv (xs @ [(y, b)]) nxt" "y \<notin> fst ` set xs"
  shows "seg (h(y \<mapsto> node w p b (last_ptr prv xs) nxt')) w p prv (xs @ [(y, b)]) nxt'"
  using assms by simp

lemma seg_set_prev:
  assumes "seg h w p prv ((y, b) # ys) nxt" "y \<notin> fst ` set ys"
  shows "seg (h(y \<mapsto> node w p b prv' (hd_ptr ys nxt))) w p prv' ((y, b) # ys) nxt"
  using assms by simp

definition set_next :: "(ptr \<Rightarrow> order option) \<Rightarrow> ptr \<Rightarrow> ptr \<Rightarrow> (ptr \<Rightarrow> order option)" where
  "set_next h q v = (if q = 0 then h else h(q := map_option (\<lambda>o'. o'\<lparr>next_in_level := v\<rparr>) (h q)))"

definition set_prev :: "(ptr \<Rightarrow> order option) \<Rightarrow> ptr \<Rightarrow> ptr \<Rightarrow> (ptr \<Rightarrow> order option)" where
  "set_prev h q v = (if q = 0 then h else h(q := map_option (\<lambda>o'. o'\<lparr>prev_in_level := v\<rparr>) (h q)))"

lemma set_next_other [simp]: "x \<noteq> q \<Longrightarrow> set_next h q v x = h x" by (simp add: set_next_def)
lemma set_prev_other [simp]: "x \<noteq> q \<Longrightarrow> set_prev h q v x = h x" by (simp add: set_prev_def)

lemma seg_unlink:
  assumes "seg h w p 0 (xs @ (x, a) # ys) 0" "distinct (map fst (xs @ (x, a) # ys))"
    "0 \<notin> fst ` set (xs @ (x, a) # ys)"
  shows "seg (set_prev (set_next h (last_ptr 0 xs) (hd_ptr ys 0)) (hd_ptr ys 0) (last_ptr 0 xs)) w p 0 (xs @ ys) 0"
proof -
  define h1 where "h1 = set_next h (last_ptr 0 xs) (hd_ptr ys 0)"
  have seg1: "seg h1 w p 0 xs (hd_ptr ys 0)"
  proof (cases xs rule: rev_cases)
    case (snoc zs z)
    obtain y b where z: "z = (y, b)" by force
    show ?thesis
      using seg_set_next [of h w p 0 zs y b x "hd_ptr ys 0"] assms by (auto simp: h1_def set_next_def snoc z)
  qed simp
  have h1_ys: "h1 u = h u" if "u \<in> fst ` set ys" for u
  proof -
    have "u \<noteq> last_ptr 0 xs" using that assms by (cases xs rule: rev_cases) (auto simp: image_iff)
    then show ?thesis by (simp add: h1_def)
  qed
  have "seg h w p x ys 0" using assms by simp
  then have seg2: "seg h1 w p x ys 0" by (rule seg_cong) (rule h1_ys)
  show ?thesis
  proof (cases ys)
    case Nil
    then show ?thesis using seg1 by (simp add: h1_def set_prev_def)
  next
    case (Cons z zs)
    obtain y b where z: "z = (y, b)" by force
    have "y \<noteq> 0" "y \<notin> fst ` set xs" "y \<notin> fst ` set zs" using assms by (auto simp: Cons z)
    then show ?thesis
      unfolding h1_def [symmetric] using seg1 seg2 by (simp add: set_prev_def Cons z)
  qed
qed

section \<open>Heap and levels\<close>

definition heap_ok :: "engine \<Rightarrow> ptr set \<Rightarrow> bool" where
  "heap_ok e L \<longleftrightarrow> pool_inv pool_capacity sizeof_order (eng_pool e) \<and>
     L = pl.live pool_capacity sizeof_order (eng_pool e)"

definition mk_level :: "(ptr \<times> aorder) list \<Rightarrow> price_level" where
  "mk_level xs = \<lparr>lvl_head = hd_ptr xs 0, lvl_tail = last_ptr 0 xs, total_qty = (\<Sum>x\<leftarrow>xs. ao_qty (snd x))\<rparr>"

definition mk_levels :: "(u8 \<Rightarrow> (ptr \<times> aorder) list) \<Rightarrow> price_level list" where
  "mk_levels g = map (\<lambda>i. mk_level (g (of_nat i))) [0..<num_levels]"

definition put_level :: "wall \<Rightarrow> u8 \<Rightarrow> price_level \<Rightarrow> engine \<Rightarrow> engine" where
  "put_level w p l e = (case w of
     Bids \<Rightarrow> e\<lparr>bids := (bids e)[unat p := l]\<rparr> | Asks \<Rightarrow> e\<lparr>asks := (asks e)[unat p := l]\<rparr>)"

lemma heap_ok_null: "heap_ok e L \<Longrightarrow> 0 \<notin> L"
  using pl.null_not_block [of pool_capacity sizeof_order "eng_pool e"] by (auto simp: heap_ok_def pl.live_def)

lemma deref_store: "q \<noteq> 0 \<Longrightarrow> deref (e\<lparr>eng_pool := store_obj q o' (eng_pool e)\<rparr>) = (deref e)(q \<mapsto> o')"
  by (auto simp: deref_def store_obj_def load_obj_def)

lemma heap_ok_store:
  assumes "heap_ok e L" "q \<in> L"
  shows "heap_ok (e\<lparr>eng_pool := store_obj q o' (eng_pool e)\<rparr>) L"
  using assms pl.store_live [of pool_capacity sizeof_order "eng_pool e" q o']
  by (auto simp: heap_ok_def pl.live_def)

lemma heap_ok_dealloc:
  assumes "heap_ok e L" "q \<in> L"
  shows "heap_ok (e\<lparr>eng_pool := deallocate q (eng_pool e)\<rparr>) (L - {q}) \<and>
    deref (e\<lparr>eng_pool := deallocate q (eng_pool e)\<rparr>) = (deref e)(q := None)"
  using assms pl.dealloc_live [of pool_capacity sizeof_order "eng_pool e" q]
  by (auto simp: heap_ok_def pl.live_def deref_def)

lemma heap_ok_cong: "eng_pool e' = eng_pool e \<Longrightarrow> heap_ok e' L = heap_ok e L"
  by (simp add: heap_ok_def)

lemma deref_cong: "eng_pool e' = eng_pool e \<Longrightarrow> deref e' = deref e"
  by (auto simp: deref_def)

lemma eng_upd_simps [simp]:
  "levels (e\<lparr>eng_pool := a\<rparr>) = levels e" "levels (e\<lparr>eng_orders := b\<rparr>) = levels e"
  "levels (e\<lparr>eng_best_bid := c\<rparr>) = levels e" "levels (e\<lparr>eng_best_ask := c\<rparr>) = levels e"
  "levels (e\<lparr>next_order_id := d\<rparr>) = levels e"
  "deref (e\<lparr>eng_orders := b\<rparr>) = deref e" "deref (e\<lparr>eng_best_bid := c\<rparr>) = deref e"
  "deref (e\<lparr>eng_best_ask := c\<rparr>) = deref e" "deref (e\<lparr>next_order_id := d\<rparr>) = deref e"
  "heap_ok (e\<lparr>eng_orders := b\<rparr>) = heap_ok e" "heap_ok (e\<lparr>eng_best_bid := c\<rparr>) = heap_ok e"
  "heap_ok (e\<lparr>eng_best_ask := c\<rparr>) = heap_ok e" "heap_ok (e\<lparr>next_order_id := d\<rparr>) = heap_ok e"
  by (auto simp: levels_def deref_def heap_ok_def fun_eq_iff split: wall.splits)

lemma put_level_simps [simp]:
  "levels (put_level w p l e) = (levels e)(w := (levels e w)[unat p := l])"
  "deref (put_level w p l e) = deref e" "heap_ok (put_level w p l e) = heap_ok e"
  "eng_pool (put_level w p l e) = eng_pool e" "eng_orders (put_level w p l e) = eng_orders e"
  "eng_best_bid (put_level w p l e) = eng_best_bid e" "eng_best_ask (put_level w p l e) = eng_best_ask e"
  "next_order_id (put_level w p l e) = next_order_id e"
  by (auto simp: put_level_def levels_def deref_def heap_ok_def fun_eq_iff split: wall.splits)

lemma upd_level_put: "get_level e w p = Some l \<Longrightarrow> upd_level w p f e = Some (put_level w p (f l) e)"
  by (auto simp: upd_level_def put_level_def split: wall.splits)

text \<open>The parts of an engine that the memory operations leave alone.\<close>

definition frame :: "engine \<Rightarrow> engine \<Rightarrow> bool" where
  "frame e e' \<longleftrightarrow> eng_best_bid e' = eng_best_bid e \<and> eng_best_ask e' = eng_best_ask e \<and>
     next_order_id e' = next_order_id e"

lemma frame_refl [simp]: "frame e e" by (simp add: frame_def)
lemma frame_trans: "frame e e1 \<Longrightarrow> frame e1 e2 \<Longrightarrow> frame e e2" by (simp add: frame_def)

lemma assign_view:
  assumes "heap_ok e L" "q \<in> L" "deref e q = Some o'"
  shows "\<exists>e'. assign q f e = Some e' \<and> heap_ok e' L \<and> deref e' = (deref e)(q \<mapsto> f o') \<and>
    levels e' = levels e \<and> eng_orders e' = eng_orders e \<and> frame e e'"
proof -
  have "q \<noteq> 0" using heap_ok_null [OF assms(1)] assms(2) by metis
  then show ?thesis using assms by (simp add: assign_def heap_ok_store deref_store frame_def)
qed

lemma upd_level_view:
  assumes "unat p < length (levels e w)"
  shows "\<exists>e'. upd_level w p f e = Some e' \<and> (\<forall>L. heap_ok e' L = heap_ok e L) \<and> deref e' = deref e \<and>
    levels e' = (levels e)(w := (levels e w)[unat p := f (levels e w ! unat p)]) \<and>
    eng_orders e' = eng_orders e \<and> frame e e'"
proof -
  have "upd_level w p f e = Some (put_level w p (f (levels e w ! unat p)) e)"
    using assms by (intro upd_level_put) (simp add: get_level_def)
  then show ?thesis by (simp add: frame_def)
qed

lemma mk_levels_nth: "unat p < num_levels \<Longrightarrow> mk_levels g ! unat p = mk_level (g p)"
  by (simp add: mk_levels_def)

lemma length_mk_levels [simp]: "length (mk_levels g) = num_levels"
  by (simp add: mk_levels_def)

lemma mk_levels_upd:
  assumes "unat (p :: u8) < num_levels"
  shows "(mk_levels g)[unat p := mk_level xs] = mk_levels (g(p := xs))"
proof (rule nth_equalityI)
  fix i assume "i < length ((mk_levels g)[unat p := mk_level xs])"
  then have i: "i < num_levels" by simp
  then have "i < 256" by (simp add: num_levels_def)
  then have "(of_nat i = p) = (i = unat p)"
    by (rule of_nat_eq_u8)
  with i show "(mk_levels g)[unat p := mk_level xs] ! i = mk_levels (g(p := xs)) ! i"
    by (simp add: mk_levels_def nth_list_update)
qed simp

section \<open>The representation\<close>

definition ptrs :: "(ptr \<times> aorder) list \<Rightarrow> ptr set" where
  "ptrs xs = fst ` set xs"

definition live_ptrs :: "ghost \<Rightarrow> ptr set" where
  "live_ptrs G = (\<Union>w. \<Union>p. ptrs (G w p))"

definition shape :: "ghost \<Rightarrow> ptr set \<Rightarrow> bool" where
  "shape G X \<longleftrightarrow> (\<forall>w p. distinct (map fst (G w p))) \<and>
     (\<forall>w p w' p'. (w, p) \<noteq> (w', p') \<longrightarrow> ptrs (G w p) \<inter> ptrs (G w' p') = {}) \<and>
     X \<inter> live_ptrs G = {} \<and> (\<forall>w p. G w p \<noteq> [] \<longrightarrow> 1 \<le> p \<and> p \<le> 99)"

definition ids :: "(ptr \<times> aorder) list \<Rightarrow> (ptr \<times> u64) set" where
  "ids xs = (\<lambda>x. (fst x, ao_id (snd x))) ` set xs"

definition entries :: "ghost \<Rightarrow> (ptr \<times> u64) set" where
  "entries G = (\<Union>w. \<Union>p. ids (G w p))"

definition index_rep :: "ptr flat_hash_map \<Rightarrow> ghost \<Rightarrow> bool" where
  "index_rep m G \<longleftrightarrow> fhm_inv index_capacity m \<and> (\<forall>k x. fhm_abs m k = Some x \<longleftrightarrow> (x, k) \<in> entries G)"

definition rep :: "engine \<Rightarrow> ghost \<Rightarrow> ptr set \<Rightarrow> bool" where
  "rep e G X \<longleftrightarrow> heap_ok e (live_ptrs G \<union> X) \<and> (\<forall>w. levels e w = mk_levels (G w)) \<and>
     (\<forall>w p. seg (deref e) w p 0 (G w p) 0) \<and> shape G X \<and> index_rep (eng_orders e) G"

definition gset :: "ghost \<Rightarrow> wall \<Rightarrow> u8 \<Rightarrow> (ptr \<times> aorder) list \<Rightarrow> ghost" where
  "gset G w p xs = G(w := (G w)(p := xs))"

lemma gset_apply [simp]: "gset G w p xs w' p' = (if w' = w \<and> p' = p then xs else G w' p')"
  by (simp add: gset_def)

lemma gset_wall: "gset G w p xs w' = (if w' = w then (G w)(p := xs) else G w')"
  by (simp add: gset_def)

lemma gset_gset [simp]: "gset (gset G w p xs) w p ys = gset G w p ys"
  by (simp add: gset_def)

lemma gset_same [simp]: "gset G w p (G w p) = G"
  by (simp add: gset_def)

lemma ptrs_simps [simp]: "ptrs [] = {}" "ptrs (x # xs) = insert (fst x) (ptrs xs)" "ptrs (xs @ ys) = ptrs xs \<union> ptrs ys"
  by (auto simp: ptrs_def)

lemma ptrs_live: "ptrs (G w p) \<subseteq> live_ptrs G"
  by (auto simp: live_ptrs_def)

lemma live_ptrs_iff: "x \<in> live_ptrs G \<longleftrightarrow> (\<exists>w p. x \<in> ptrs (G w p))"
  by (simp add: live_ptrs_def)

lemma shape_disjoint: "shape G X \<Longrightarrow> (w, p) \<noteq> (w', p') \<Longrightarrow> ptrs (G w p) \<inter> ptrs (G w' p') = {}"
  unfolding shape_def by blast

lemma shape_owner:
  "shape G X \<Longrightarrow> x \<in> ptrs (G w p) \<Longrightarrow> x \<in> ptrs (G w' p') \<Longrightarrow> (w, p) = (w', p')"
  using shape_disjoint [of G X w p w' p'] by blast

lemma shape_held: "shape G X \<Longrightarrow> X \<inter> live_ptrs G = {}"
  unfolding shape_def by blast

lemma live_gset:
  assumes "shape G X"
  shows "live_ptrs (gset G w p xs) = (live_ptrs G - ptrs (G w p)) \<union> ptrs xs"
proof (rule set_eqI)
  fix x
  have "x \<in> live_ptrs (gset G w p xs) \<longleftrightarrow> x \<in> ptrs xs \<or> (\<exists>w' p'. (w', p') \<noteq> (w, p) \<and> x \<in> ptrs (G w' p'))"
  proof
    assume "x \<in> live_ptrs (gset G w p xs)"
    then obtain w' p' where "x \<in> ptrs (gset G w p xs w' p')" unfolding live_ptrs_iff by blast
    moreover have "gset G w p xs w' p' = (if (w', p') = (w, p) then xs else G w' p')" by simp
    ultimately show "x \<in> ptrs xs \<or> (\<exists>w' p'. (w', p') \<noteq> (w, p) \<and> x \<in> ptrs (G w' p'))"
      by (cases "(w', p') = (w, p)") (simp, metis)
  next
    assume "x \<in> ptrs xs \<or> (\<exists>w' p'. (w', p') \<noteq> (w, p) \<and> x \<in> ptrs (G w' p'))"
    moreover have "x \<in> ptrs (gset G w p xs w p)" if "x \<in> ptrs xs" using that by simp
    moreover have "x \<in> ptrs (gset G w p xs w' p')" if "(w', p') \<noteq> (w, p)" "x \<in> ptrs (G w' p')" for w' p'
      using that by auto
    ultimately show "x \<in> live_ptrs (gset G w p xs)" unfolding live_ptrs_iff by blast
  qed
  moreover have "(\<exists>w' p'. (w', p') \<noteq> (w, p) \<and> x \<in> ptrs (G w' p')) \<longleftrightarrow> x \<in> live_ptrs G \<and> x \<notin> ptrs (G w p)"
    unfolding live_ptrs_iff using shape_owner [OF assms, of x w p] by (metis Pair_inject)
  ultimately show "x \<in> live_ptrs (gset G w p xs) \<longleftrightarrow> x \<in> (live_ptrs G - ptrs (G w p)) \<union> ptrs xs" by blast
qed

lemma shape_gset:
  assumes "shape G X" "distinct (map fst xs)" "ptrs xs \<subseteq> ptrs (G w p) \<union> X" "Y \<subseteq> X" "Y \<inter> ptrs xs = {}"
    "xs \<noteq> [] \<Longrightarrow> 1 \<le> p \<and> p \<le> 99"
  shows "shape (gset G w p xs) Y"
  unfolding shape_def
proof (intro conjI allI impI)
  fix w1 p1
  have d: "distinct (map fst (G w1 p1))" and pr: "G w1 p1 \<noteq> [] \<Longrightarrow> 1 \<le> p1 \<and> p1 \<le> 99"
    using assms(1) unfolding shape_def by blast+
  show "distinct (map fst (gset G w p xs w1 p1))" using d assms(2) by simp
  show "1 \<le> p1" "p1 \<le> 99" if "gset G w p xs w1 p1 \<noteq> []"
    using that assms(6) pr by (auto split: if_splits)
next
  fix w1 w2 :: wall and p1 p2 :: u8 assume ne: "(w1, p1) \<noteq> (w2, p2)"
  have other: "ptrs xs \<inter> ptrs (G w' p') = {}" if "(w', p') \<noteq> (w, p)" for w' p'
  proof -
    have "ptrs (G w p) \<inter> ptrs (G w' p') = {}" using shape_disjoint [OF assms(1)] that by blast
    with shape_held [OF assms(1)] show ?thesis using assms(3) ptrs_live [of G w' p'] by blast
  qed
  show "ptrs (gset G w p xs w1 p1) \<inter> ptrs (gset G w p xs w2 p2) = {}"
    using ne other [of w1 p1] other [of w2 p2] shape_disjoint [OF assms(1) ne] by (auto simp: Int_commute)
next
  show "Y \<inter> live_ptrs (gset G w p xs) = {}"
    using assms(4,5) shape_held [OF assms(1)] unfolding live_gset [OF assms(1)] by blast
qed

lemma rep_levels:
  assumes "rep e G X" "unat p < num_levels"
  shows "get_level e w p = Some (mk_level (G w p))"
  using assms unfolding rep_def by (simp add: get_level_def mk_levels_nth)

lemma rep_price:
  assumes "rep e G X" "G w p \<noteq> []"
  shows "unat p < num_levels" "1 \<le> p" "p \<le> 99"
proof -
  show "1 \<le> p" "p \<le> 99" using assms unfolding rep_def shape_def by blast+
  from this(2) have "unat p \<le> unat (99 :: u8)" by (simp only: word_le_nat_alt)
  then show "unat p < num_levels" by (simp add: num_levels_def)
qed

lemma rep_null: "rep e G X \<Longrightarrow> 0 \<notin> live_ptrs G \<union> X"
  using heap_ok_null unfolding rep_def by blast

lemma rep_null_level: "rep e G X \<Longrightarrow> 0 \<notin> fst ` set (G w p)"
  using rep_null [of e G X] ptrs_live [of G w p] unfolding ptrs_def by blast

text \<open>The general step: the list of one level changes and everything else stays.\<close>

lemma rep_step:
  assumes "rep e G X" "unat p < num_levels"
    and "heap_ok e' (live_ptrs (gset G w p xs) \<union> Y)"
    and "levels e' = (levels e)(w := (levels e w)[unat p := mk_level xs])"
    and "seg (deref e') w p 0 xs 0"
    and "\<And>x. x \<notin> ptrs (G w p) \<union> X \<Longrightarrow> deref e' x = deref e x"
    and "shape (gset G w p xs) Y"
    and "index_rep (eng_orders e') (gset G w p xs)"
  shows "rep e' (gset G w p xs) Y"
proof -
  have sh: "shape G X" and lv: "\<And>w. levels e w = mk_levels (G w)"
    and sg: "\<And>w p. seg (deref e) w p 0 (G w p) 0" using assms(1) unfolding rep_def by blast+
  have "levels e' w' = mk_levels (gset G w p xs w')" for w'
    by (simp add: assms(4) lv gset_wall mk_levels_upd [OF assms(2)])
  moreover have "seg (deref e') w' p' 0 (gset G w p xs w' p') 0" for w' p'
  proof (cases "(w', p') = (w, p)")
    case True
    then show ?thesis using assms(5) by simp
  next
    case False
    have "deref e' x = deref e x" if "x \<in> fst ` set (G w' p')" for x
      using that shape_disjoint [OF sh False] shape_held [OF sh] ptrs_live [of G w' p'] assms(6) [of x]
      unfolding ptrs_def [symmetric] by blast
    with sg have "seg (deref e') w' p' 0 (G w' p') 0" by (rule seg_cong)
    moreover have "gset G w p xs w' p' = G w' p'" using False by auto
    ultimately show ?thesis by simp
  qed
  ultimately show ?thesis using assms(3,7,8) unfolding rep_def by blast
qed

section \<open>The index\<close>

lemma ids_simps [simp]: "ids [] = {}" "ids (x # xs) = insert (fst x, ao_id (snd x)) (ids xs)" "ids (xs @ ys) = ids xs \<union> ids ys"
  by (auto simp: ids_def)

lemma ids_ptrs: "(x, k) \<in> ids xs \<Longrightarrow> x \<in> ptrs xs"
  by (auto simp: ids_def ptrs_def)

lemma entries_iff: "(x, k) \<in> entries G \<longleftrightarrow> (\<exists>w p. (x, k) \<in> ids (G w p))"
  by (simp add: entries_def)

lemma entries_live: "(x, k) \<in> entries G \<Longrightarrow> x \<in> live_ptrs G"
  unfolding entries_iff live_ptrs_iff using ids_ptrs by blast

lemma entries_gset:
  assumes "shape G X"
  shows "(x, k) \<in> entries (gset G w p xs) \<longleftrightarrow>
    (x, k) \<in> ids xs \<or> (x, k) \<in> entries G \<and> (x, k) \<notin> ids (G w p)"
proof
  assume "(x, k) \<in> entries (gset G w p xs)"
  then obtain w' p' where *: "(x, k) \<in> ids (gset G w p xs w' p')" unfolding entries_iff by blast
  show "(x, k) \<in> ids xs \<or> (x, k) \<in> entries G \<and> (x, k) \<notin> ids (G w p)"
  proof (cases "(w', p') = (w, p)")
    case False
    then have g: "gset G w p xs w' p' = G w' p'" by auto
    then have "(x, k) \<in> entries G" using * unfolding entries_iff by auto
    moreover have "(x, k) \<notin> ids (G w p)"
      using shape_disjoint [OF assms False] * g ids_ptrs by (metis disjoint_iff)
    ultimately show ?thesis by blast
  qed (use * in simp)
next
  assume "(x, k) \<in> ids xs \<or> (x, k) \<in> entries G \<and> (x, k) \<notin> ids (G w p)"
  then show "(x, k) \<in> entries (gset G w p xs)"
  proof
    assume "(x, k) \<in> ids xs"
    then have "(x, k) \<in> ids (gset G w p xs w p)" by simp
    then show ?thesis unfolding entries_iff by blast
  next
    assume *: "(x, k) \<in> entries G \<and> (x, k) \<notin> ids (G w p)"
    then obtain w' p' where "(x, k) \<in> ids (G w' p')" unfolding entries_iff by blast
    moreover then have "(x, k) \<in> ids (gset G w p xs w' p')" using * by auto
    ultimately show ?thesis unfolding entries_iff by blast
  qed
qed

lemma index_rep_gset_same:
  assumes "index_rep m G" "shape G X" "ids xs = ids (G w p)"
  shows "index_rep m (gset G w p xs)"
proof -
  have "(x, k) \<in> ids (G w p) \<Longrightarrow> (x, k) \<in> entries G" for x k unfolding entries_iff by blast
  then show ?thesis using assms(1,3) unfolding index_rep_def entries_gset [OF assms(2)] by blast
qed

lemma index_rep_unique:
  "index_rep m G \<Longrightarrow> (x, k) \<in> entries G \<Longrightarrow> (y, k) \<in> entries G \<Longrightarrow> x = y"
  unfolding index_rep_def by (metis option.inject)

lemma index_rep_remove:
  assumes "index_rep m G" "shape G X" "G w p = xs @ (x, a) # ys" "fhm_inv index_capacity m'"
    "fhm_abs m' = (fhm_abs m)(ao_id a := None)"
  shows "index_rep m' (gset G w p (xs @ ys))"
proof -
  have sh: "distinct (map fst (G w p))" using assms(2) unfolding shape_def by blast
  have e1: "(x, ao_id a) \<in> entries G" unfolding entries_iff using assms(3) by (metis ids_simps(2,3) UnI2 fst_conv insertI1 snd_conv)
  have nx: "(x, k) \<notin> ids (xs @ ys)" for k using sh assms(3) ids_ptrs [of x k "xs @ ys"] by (auto simp: ptrs_def)
  have "(y, k) \<in> entries (gset G w p (xs @ ys)) \<longleftrightarrow> k \<noteq> ao_id a \<and> (y, k) \<in> entries G" for y k
  proof -
    have "(y, k) \<in> ids (G w p) \<longleftrightarrow> (y, k) \<in> ids (xs @ ys) \<or> (y, k) = (x, ao_id a)" using assms(3) by auto
    moreover have "(y, k) \<in> ids (G w p) \<Longrightarrow> (y, k) \<in> entries G" unfolding entries_iff by blast
    moreover have "(y, k) \<in> entries G \<Longrightarrow> k = ao_id a \<Longrightarrow> y = x" using index_rep_unique [OF assms(1)] e1 by blast
    ultimately show ?thesis unfolding entries_gset [OF assms(2)] using nx by auto
  qed
  then show ?thesis using assms(1,4,5) unfolding index_rep_def by auto
qed

lemma index_rep_add:
  assumes "index_rep m G" "shape G X" "fhm_inv index_capacity m'" "fhm_abs m k = None"
    "fhm_abs m' = (fhm_abs m)(k \<mapsto> x)" "ids xs = insert (x, k) (ids (G w p))"
  shows "index_rep m' (gset G w p xs)"
proof -
  have "(y, j) \<in> entries (gset G w p xs) \<longleftrightarrow> (y, j) = (x, k) \<or> (y, j) \<in> entries G" for y j
    unfolding entries_gset [OF assms(2)] assms(6) using entries_iff by blast
  moreover have "(y, k) \<notin> entries G" for y using assms(1,4) unfolding index_rep_def by (metis option.distinct(1))
  ultimately show ?thesis using assms(1,3,5) unfolding index_rep_def by auto
qed

section \<open>Operations on the representation\<close>

lemma repD:
  assumes "rep e G X"
  shows "heap_ok e (live_ptrs G \<union> X)" "levels e w = mk_levels (G w)" "seg (deref e) w p 0 (G w p) 0"
    "shape G X" "index_rep (eng_orders e) G" "distinct (map fst (G w p))"
  using assms unfolding rep_def shape_def by blast+

lemma rep_frame_held:
  assumes "rep e G X" "q \<in> X" "q \<noteq> 0"
    "heap_ok e' (live_ptrs G \<union> X)" "deref e' = (deref e)(q \<mapsto> o')" "levels e' = levels e"
    "eng_orders e' = eng_orders e"
  shows "rep e' G X"
proof -
  have "seg (deref e') w p 0 (G w p) 0" for w p
  proof (rule seg_cong [OF repD(3) [OF assms(1)]])
    fix x assume "x \<in> fst ` set (G w p)"
    then have "x \<noteq> q"
      using shape_held [OF repD(4) [OF assms(1)]] assms(2) ptrs_live [of G w p] unfolding ptrs_def by blast
    then show "deref e' x = deref e x" using assms(5) by simp
  qed
  then show ?thesis using assms unfolding rep_def by simp
qed

lemma seg_head_upd:
  assumes "seg h w p prv ((x, a) # xs) nxt" "x \<notin> fst ` set xs"
  shows "seg (h(x \<mapsto> node w p b prv (hd_ptr xs nxt))) w p prv ((x, b) # xs) nxt"
  using assms by simp

lemma rep_same_ptrs:
  assumes "rep e G X" "unat p < num_levels" "map fst xs = map fst (G w p)" "ids xs = ids (G w p)"
    "heap_ok e' (live_ptrs G \<union> X)" "levels e' = (levels e)(w := (levels e w)[unat p := mk_level xs])"
    "seg (deref e') w p 0 xs 0" "\<And>y. y \<notin> ptrs (G w p) \<union> X \<Longrightarrow> deref e' y = deref e y"
    "eng_orders e' = eng_orders e"
  shows "rep e' (gset G w p xs) X"
proof (rule rep_step [OF assms(1,2) _ assms(6,7,8)])
  note R = repD [OF assms(1)]
  have pt: "ptrs xs = ptrs (G w p)" unfolding ptrs_def set_map [symmetric] assms(3) ..
  then have "live_ptrs (gset G w p xs) = live_ptrs G"
    unfolding live_gset [OF R(4)] using ptrs_live [of G w p] by blast
  then show "heap_ok e' (live_ptrs (gset G w p xs) \<union> X)" using assms(5) by simp
  have "X \<inter> ptrs xs = {}" using shape_held [OF R(4)] ptrs_live [of G w p] pt by blast
  moreover have "G w p \<noteq> []" if "xs \<noteq> []" using that assms(3) by force
  ultimately show "shape (gset G w p xs) X"
    using R(6) [of w p] rep_price [OF assms(1), of w p] pt assms(3)
    by (intro shape_gset [OF R(4)]) simp_all
  show "index_rep (eng_orders e') (gset G w p xs)"
    unfolding assms(9) by (rule index_rep_gset_same [OF R(5) R(4) assms(4)])
qed

lemma trade_rep:
  assumes "rep e G X" "inc \<in> X" "deref e inc = Some io" "G w pt = (x, a) # xs"
    and t: "t = min (ao_qty a) (qty_remaining io)"
  shows "\<exists>e'. trade w pt inc x fills e =
      Some (fills @ [mk_fill (order_id io) (ts_received io) pt a t], e') \<and>
    rep e' (gset G w pt ((x, a\<lparr>ao_qty := ao_qty a - t\<rparr>) # xs)) X \<and>
    deref e' inc = Some (io\<lparr>qty_remaining := qty_remaining io - t\<rparr>) \<and> frame e e'"
proof -
  let ?L = "live_ptrs G \<union> X" and ?a = "a\<lparr>ao_qty := ao_qty a - t\<rparr>" and ?nx = "hd_ptr xs 0"
  note R = repD [OF assms(1)]
  have pt: "unat pt < num_levels" using rep_price(1) [OF assms(1), of w pt] assms(4) by simp
  have x: "x \<in> ptrs (G w pt)" "x \<notin> fst ` set xs" using R(6) [of w pt] by (auto simp: assms(4))
  then have xL: "x \<in> ?L" and ne: "inc \<noteq> x"
    using ptrs_live [of G w pt] shape_held [OF R(4)] assms(2) by blast+
  have dx: "deref e x = Some (node w pt a 0 ?nx)" using R(3) [of w pt] by (simp add: assms(4))
  obtain e1 where e1: "assign x (\<lambda>o'. o'\<lparr>qty_remaining := qty_remaining o' - t\<rparr>) e = Some e1" "heap_ok e1 ?L"
    "deref e1 = (deref e)(x \<mapsto> node w pt ?a 0 ?nx)" "levels e1 = levels e" "eng_orders e1 = eng_orders e" "frame e e1"
    using assign_view [OF R(1) xL dx, of "\<lambda>o'. o'\<lparr>qty_remaining := qty_remaining o' - t\<rparr>"] by auto
  obtain e2 where e2: "upd_level w pt (\<lambda>l. l\<lparr>total_qty := total_qty l - t\<rparr>) e1 = Some e2" "heap_ok e2 ?L"
    "deref e2 = deref e1" "eng_orders e2 = eng_orders e1" "frame e1 e2"
    "levels e2 = (levels e1)(w := (levels e1 w)[unat pt := (\<lambda>l. l\<lparr>total_qty := total_qty l - t\<rparr>) (levels e1 w ! unat pt)])"
    using upd_level_view [of pt e1 w "\<lambda>l. l\<lparr>total_qty := total_qty l - t\<rparr>"] e1(2,4) R(2) [of w] pt by auto
  have di: "deref e2 inc = Some io" using e2(3) e1(3) ne assms(3) by simp
  obtain e3 where e3: "assign inc (\<lambda>o'. o'\<lparr>qty_remaining := qty_remaining o' - t\<rparr>) e2 = Some e3" "heap_ok e3 ?L"
    "deref e3 = (deref e2)(inc \<mapsto> io\<lparr>qty_remaining := qty_remaining io - t\<rparr>)" "levels e3 = levels e2"
    "eng_orders e3 = eng_orders e2" "frame e2 e3"
    using assign_view [OF e2(2) _ di, of "\<lambda>o'. o'\<lparr>qty_remaining := qty_remaining o' - t\<rparr>"] assms(2) by auto
  have lv: "(\<lambda>l. l\<lparr>total_qty := total_qty l - t\<rparr>) (mk_level (G w pt)) = mk_level ((x, ?a) # xs)"
    by (simp add: mk_level_def assms(4))
  have "seg (deref e1) w pt 0 ((x, ?a) # xs) 0"
    using seg_head_upd [OF _ x(2), of "deref e" w pt 0 a 0 ?a] R(3) [of w pt] by (simp add: e1(3) assms(4))
  moreover have "inc \<notin> fst ` set ((x, ?a) # xs)"
    using shape_held [OF R(4)] ptrs_live [of G w pt] assms(2,4) by (auto simp: ptrs_def)
  ultimately have sg: "seg (deref e3) w pt 0 ((x, ?a) # xs) 0" unfolding e3(3) e2(3) by (subst seg_notin)
  have "rep e3 (gset G w pt ((x, ?a) # xs)) X"
  proof (rule rep_same_ptrs [OF assms(1) pt _ _ e3(2) _ sg])
    show "levels e3 = (levels e)(w := (levels e w)[unat pt := mk_level ((x, ?a) # xs)])"
      using e3(4) e2(6) e1(4) R(2) [of w] lv pt by (simp add: mk_levels_nth)
    show "deref e3 y = deref e y" if "y \<notin> ptrs (G w pt) \<union> X" for y
      using that x(1) assms(2) by (auto simp: e3(3) e2(3) e1(3))
  qed (simp_all add: assms(4) e3(5) e2(4) e1(5))
  moreover have "trade w pt inc x fills e = Some (fills @ [mk_fill (order_id io) (ts_received io) pt a t], e3)"
    using e1(1) e2(1) e3(1) t by (simp add: trade_def dx assms(3) mk_fill_def)
  moreover have "frame e e3" using e1(6) e2(5) e3(6) frame_trans by metis
  moreover have "deref e3 inc = Some (io\<lparr>qty_remaining := qty_remaining io - t\<rparr>)" by (simp add: e3(3))
  ultimately show ?thesis by blast
qed

text \<open>Taking an order out of its list, once the links, the level and the index have been redirected.\<close>

lemma rep_unlink:
  assumes "rep e G X" "G w p = xs @ (x, a) # ys"
    "heap_ok e' ((live_ptrs G \<union> X) - {x})"
    "deref e' = (set_prev (set_next (deref e) (last_ptr 0 xs) (hd_ptr ys 0)) (hd_ptr ys 0) (last_ptr 0 xs))(x := None)"
    "levels e' = (levels e)(w := (levels e w)[unat p := mk_level (xs @ ys)])"
    "fhm_inv index_capacity (eng_orders e')" "fhm_abs (eng_orders e') = (fhm_abs (eng_orders e))(ao_id a := None)"
  shows "rep e' (gset G w p (xs @ ys)) X \<and> (\<forall>q\<in>X. deref e' q = deref e q)"
proof -
  note R = repD [OF assms(1)]
  have d: "distinct (map fst (xs @ (x, a) # ys))" using R(6) [of w p] assms(2) by simp
  have n: "0 \<notin> fst ` set (xs @ (x, a) # ys)" using rep_null_level [OF assms(1), of w p] assms(2) by simp
  have pt: "unat p < num_levels" using rep_price(1) [OF assms(1), of w p] assms(2) by simp
  have xX: "x \<notin> X" using shape_held [OF R(4)] ptrs_live [of G w p] assms(2) by auto
  have other: "deref e' y = deref e y" if "y \<notin> ptrs (G w p)" for y
  proof -
    have "y \<noteq> x" using that assms(2) by auto
    moreover have "y \<noteq> last_ptr 0 xs \<or> last_ptr 0 xs = 0" using that assms(2) by (cases xs rule: rev_cases) auto
    moreover have "y \<noteq> hd_ptr ys 0 \<or> hd_ptr ys 0 = 0" using that assms(2) by (cases ys) auto
    ultimately show ?thesis unfolding assms(4) by (auto simp: set_prev_def set_next_def)
  qed
  have "seg (deref e') w p 0 (xs @ ys) 0"
  proof -
    have "x \<notin> fst ` set (xs @ ys)" using d by (auto simp: image_iff)
    then show ?thesis
      unfolding assms(4) using seg_unlink [OF _ d n] R(3) [of w p] by (subst seg_notin) (auto simp: assms(2))
  qed
  moreover have "shape (gset G w p (xs @ ys)) X"
    using d shape_held [OF R(4)] ptrs_live [of G w p] rep_price [OF assms(1), of w p] assms(2)
    by (intro shape_gset [OF R(4)]) auto
  moreover have "live_ptrs (gset G w p (xs @ ys)) \<union> X = (live_ptrs G \<union> X) - {x}"
    unfolding live_gset [OF R(4)] using d ptrs_live [of G w p] xX assms(2) by (auto simp: ptrs_def)
  moreover have "index_rep (eng_orders e') (gset G w p (xs @ ys))"
    by (rule index_rep_remove [OF R(5) R(4) assms(2,6,7)])
  ultimately have "rep e' (gset G w p (xs @ ys)) X"
    using assms(3) other by (intro rep_step [OF assms(1) pt _ assms(5)]) auto
  moreover have "\<forall>q\<in>X. deref e' q = deref e q"
    using other shape_held [OF R(4)] ptrs_live [of G w p] by blast
  ultimately show ?thesis by blast
qed

text \<open>Redirecting one link, or the head or tail of the level when there is no neighbour.\<close>

definition head_unless :: "ptr \<Rightarrow> ptr \<Rightarrow> price_level \<Rightarrow> price_level" where
  "head_unless q v l = (if q \<noteq> 0 then l else l\<lparr>lvl_head := v\<rparr>)"

definition tail_unless :: "ptr \<Rightarrow> ptr \<Rightarrow> price_level \<Rightarrow> price_level" where
  "tail_unless q v l = (if q \<noteq> 0 then l else l\<lparr>lvl_tail := v\<rparr>)"

lemma levels_compose:
  fixes e e1 e2 :: engine
  assumes "levels e1 = (levels e)(w := (levels e w)[i := f (levels e w ! i)])"
    "levels e2 = (levels e1)(w := (levels e1 w)[i := g (levels e1 w ! i)])" "i < length (levels e w)"
  shows "levels e2 = (levels e)(w := (levels e w)[i := g (f (levels e w ! i))])"
  using assms by simp

lemma relink_next:
  assumes "heap_ok e L" "q \<noteq> 0 \<Longrightarrow> q \<in> L \<and> deref e q \<noteq> None" "unat p < length (levels e w)"
  shows "\<exists>e'. (if q \<noteq> 0 then assign q (\<lambda>o'. o'\<lparr>next_in_level := v\<rparr>) e
      else upd_level w p (\<lambda>l. l\<lparr>lvl_head := v\<rparr>) e) = Some e' \<and> heap_ok e' L \<and>
    deref e' = set_next (deref e) q v \<and>
    levels e' = (levels e)(w := (levels e w)[unat p := head_unless q v (levels e w ! unat p)]) \<and>
    eng_orders e' = eng_orders e \<and> frame e e'"
proof (cases "q = 0")
  case True
  then show ?thesis using upd_level_view [OF assms(3), of "\<lambda>l. l\<lparr>lvl_head := v\<rparr>"] assms(1)
    by (auto simp: set_next_def head_unless_def)
next
  case False
  then obtain o' where "q \<in> L" "deref e q = Some o'" using assms(2) by auto
  then show ?thesis using assign_view [OF assms(1), of q o' "\<lambda>o'. o'\<lparr>next_in_level := v\<rparr>"] False
    by (auto simp: set_next_def head_unless_def)
qed

lemma relink_prev:
  assumes "heap_ok e L" "q \<noteq> 0 \<Longrightarrow> q \<in> L \<and> deref e q \<noteq> None" "unat p < length (levels e w)"
  shows "\<exists>e'. (if q \<noteq> 0 then assign q (\<lambda>o'. o'\<lparr>prev_in_level := v\<rparr>) e
      else upd_level w p (\<lambda>l. l\<lparr>lvl_tail := v\<rparr>) e) = Some e' \<and> heap_ok e' L \<and>
    deref e' = set_prev (deref e) q v \<and>
    levels e' = (levels e)(w := (levels e w)[unat p := tail_unless q v (levels e w ! unat p)]) \<and>
    eng_orders e' = eng_orders e \<and> frame e e'"
proof (cases "q = 0")
  case True
  then show ?thesis using upd_level_view [OF assms(3), of "\<lambda>l. l\<lparr>lvl_tail := v\<rparr>"] assms(1)
    by (auto simp: set_prev_def tail_unless_def)
next
  case False
  then obtain o' where "q \<in> L" "deref e q = Some o'" using assms(2) by auto
  then show ?thesis using assign_view [OF assms(1), of q o' "\<lambda>o'. o'\<lparr>prev_in_level := v\<rparr>"] False
    by (auto simp: set_prev_def tail_unless_def)
qed

lemma rep_node:
  assumes "rep e G X" "G w p = xs @ (x, a) # ys"
  shows "deref e x = Some (node w p a (last_ptr 0 xs) (hd_ptr ys 0))" "x \<in> live_ptrs G" "x \<noteq> 0"
    "(x, ao_id a) \<in> entries G" "last_ptr 0 xs \<noteq> x" "hd_ptr ys 0 \<noteq> x"
proof -
  note R = repD [OF assms(1)]
  show x: "x \<in> live_ptrs G" using ptrs_live [of G w p] assms(2) by auto
  then show nz: "x \<noteq> 0" using rep_null [OF assms(1)] by (metis UnI1)
  show "deref e x = Some (node w p a (last_ptr 0 xs) (hd_ptr ys 0))" using R(3) [of w p] assms(2) by simp
  have "(x, ao_id a) \<in> ids (G w p)" by (simp add: assms(2))
  then show "(x, ao_id a) \<in> entries G" unfolding entries_iff by blast
  have d: "distinct (map fst (xs @ (x, a) # ys))" using R(6) [of w p] assms(2) by simp
  show "last_ptr 0 xs \<noteq> x" using d nz by (cases xs rule: rev_cases) auto
  show "hd_ptr ys 0 \<noteq> x" using d nz by (cases ys) auto
qed

lemma rep_neighbours:
  assumes "rep e G X" "G w p = xs @ (x, a) # ys"
  shows "last_ptr 0 xs \<noteq> 0 \<Longrightarrow> last_ptr 0 xs \<in> live_ptrs G \<and> deref e (last_ptr 0 xs) \<noteq> None"
    and "hd_ptr ys 0 \<noteq> 0 \<Longrightarrow> hd_ptr ys 0 \<in> live_ptrs G \<and> deref e (hd_ptr ys 0) \<noteq> None"
proof -
  have *: "y \<in> live_ptrs G \<and> deref e y \<noteq> None" if "(y, b) \<in> set (G w p)" for y b
    using seg_dom [OF repD(3) [OF assms(1)] that] that ptrs_live [of G w p] by (force simp: ptrs_def)
  show "last_ptr 0 xs \<in> live_ptrs G \<and> deref e (last_ptr 0 xs) \<noteq> None" if "last_ptr 0 xs \<noteq> 0"
  proof (cases xs rule: rev_cases)
    case (snoc zs z)
    then show ?thesis using * [of "fst z" "snd z"] assms(2) by simp
  qed (use that in simp)
  show "hd_ptr ys 0 \<in> live_ptrs G \<and> deref e (hd_ptr ys 0) \<noteq> None" if "hd_ptr ys 0 \<noteq> 0"
  proof (cases ys)
    case (Cons z zs)
    then show ?thesis using * [of "fst z" "snd z"] assms(2) by simp
  qed (use that in simp)
qed

lemma index_key_valid: "index_rep m G \<Longrightarrow> (x, k) \<in> entries G \<Longrightarrow> k \<noteq> EMPTY"
  unfolding index_rep_def using fhm_abs_EMPTY by (metis option.distinct(1))

text \<open>Erasing the order from the index and giving back its block completes the removal.\<close>

lemma finish_unlink:
  assumes "rep e G X" "G w p = xs @ (x, a) # ys" "heap_ok e2 (live_ptrs G \<union> X)"
    "deref e2 = set_prev (set_next (deref e) (last_ptr 0 xs) (hd_ptr ys 0)) (hd_ptr ys 0) (last_ptr 0 xs)"
    "levels e2 = (levels e)(w := (levels e w)[unat p := mk_level (xs @ ys)])"
    "eng_orders e2 = eng_orders e" "frame e e2"
  shows "\<exists>ix b e'. fhm_erase index_capacity (eng_orders e2) (ao_id a) = Some (ix, b) \<and>
    e' = e2\<lparr>eng_orders := ix, eng_pool := deallocate x (eng_pool e2)\<rparr> \<and> rep e' (gset G w p (xs @ ys)) X \<and>
    (\<forall>q\<in>X. deref e' q = deref e q) \<and> frame e e'"
proof -
  note R = repD [OF assms(1)] and N = rep_node [OF assms(1,2)]
  obtain ix b where ix: "fhm_erase index_capacity (eng_orders e2) (ao_id a) = Some (ix, b)"
    "fhm_inv index_capacity ix" "fhm_abs ix = (fhm_abs (eng_orders e))(ao_id a := None)"
    using fhm.erase_abs [of index_capacity "eng_orders e" "ao_id a"] R(5) index_key_valid [OF R(5) N(4)] assms(6)
    unfolding index_rep_def by auto
  define e' where "e' = e2\<lparr>eng_orders := ix, eng_pool := deallocate x (eng_pool e2)\<rparr>"
  define e3 where "e3 = e2\<lparr>eng_pool := deallocate x (eng_pool e2)\<rparr>"
  have e': "e' = e3\<lparr>eng_orders := ix\<rparr>" by (simp add: e'_def e3_def)
  have h: "heap_ok e3 ((live_ptrs G \<union> X) - {x})" "deref e3 = (deref e2)(x := None)"
    using heap_ok_dealloc [OF assms(3)] N(2) by (simp_all add: e3_def)
  have "rep e' (gset G w p (xs @ ys)) X \<and> (\<forall>q\<in>X. deref e' q = deref e q)"
    by (rule rep_unlink [OF assms(1,2)]) (use h ix assms in \<open>simp_all add: e' e3_def\<close>)
  moreover have "frame e e'" using assms(7) by (simp add: e'_def frame_def)
  ultimately show ?thesis using ix(1) e'_def by blast
qed

lemma ptr_ends:
  assumes "0 \<notin> fst ` set xs"
  shows "last_ptr 0 xs = 0 \<longleftrightarrow> xs = []" "hd_ptr xs 0 = 0 \<longleftrightarrow> xs = []"
proof -
  have *: "fst x \<noteq> 0" if "x \<in> set xs" for x using that assms by (metis imageI)
  show "last_ptr 0 xs = 0 \<longleftrightarrow> xs = []" using * by (auto simp: last_ptr_def)
  show "hd_ptr xs 0 = 0 \<longleftrightarrow> xs = []" using * by (auto simp: hd_ptr_def split: list.splits)
qed

lemma hd_last_nonempty: "xs \<noteq> [] \<Longrightarrow> hd_ptr xs n = hd_ptr xs m" "ys \<noteq> [] \<Longrightarrow> last_ptr n ys = last_ptr m ys"
  by (auto simp: hd_ptr_def last_ptr_def split: list.splits)

lemma mk_level_unlink:
  assumes "0 \<notin> fst ` set (xs @ (x, a) # ys)"
  shows "tail_unless (hd_ptr ys 0) (last_ptr 0 xs) (head_unless (last_ptr 0 xs) (hd_ptr ys 0) (mk_level (xs @ (x, a) # ys))) =
    (mk_level (xs @ ys))\<lparr>total_qty := total_qty (mk_level (xs @ ys)) + ao_qty a\<rparr>"
proof -
  have "0 \<notin> fst ` set xs" "0 \<notin> fst ` set ys" using assms(1) by auto
  note E = ptr_ends [OF this(1)] ptr_ends [OF this(2)]
  have "hd_ptr xs x = hd_ptr xs (hd_ptr ys 0)" if "xs \<noteq> []" using that by (rule hd_last_nonempty)
  moreover have "last_ptr x ys = last_ptr (last_ptr 0 xs) ys" if "ys \<noteq> []" using that by (rule hd_last_nonempty)
  ultimately show ?thesis by (simp add: tail_unless_def head_unless_def mk_level_def E)
qed

lemma remove_filled_rep:
  assumes "rep e G X" "G w p = xs @ (x, a) # ys" "ao_qty a = 0"
  shows "\<exists>e'. remove_filled w p x e = Some (hd_ptr ys 0, e') \<and> rep e' (gset G w p (xs @ ys)) X \<and>
    (\<forall>q\<in>X. deref e' q = deref e q) \<and> frame e e'"
proof -
  let ?prv = "last_ptr 0 xs" and ?nxt = "hd_ptr ys 0" and ?L = "live_ptrs G \<union> X"
  note R = repD [OF assms(1)] and N = rep_node [OF assms(1,2)] and B = rep_neighbours [OF assms(1,2)]
  have pt: "unat p < num_levels" using rep_price(1) [OF assms(1), of w p] assms(2) by simp
  obtain e1 where e1: "(if ?prv \<noteq> 0 then assign ?prv (\<lambda>o'. o'\<lparr>next_in_level := ?nxt\<rparr>) e
      else upd_level w p (\<lambda>l. l\<lparr>lvl_head := ?nxt\<rparr>) e) = Some e1" "heap_ok e1 ?L"
    "deref e1 = set_next (deref e) ?prv ?nxt" "eng_orders e1 = eng_orders e" "frame e e1"
    "levels e1 = (levels e)(w := (levels e w)[unat p := head_unless ?prv ?nxt (levels e w ! unat p)])"
    using relink_next [OF R(1), of ?prv p w ?nxt] B(1) R(2) [of w] pt by auto
  have d1: "deref e1 x = deref e x" using e1(3) N(5) by simp
  have "?nxt \<noteq> 0 \<Longrightarrow> deref e1 ?nxt \<noteq> None" using B(2) e1(3) by (auto simp: set_next_def)
  then obtain e2 where e2: "(if ?nxt \<noteq> 0 then assign ?nxt (\<lambda>o'. o'\<lparr>prev_in_level := ?prv\<rparr>) e1
      else upd_level w p (\<lambda>l. l\<lparr>lvl_tail := ?prv\<rparr>) e1) = Some e2" "heap_ok e2 ?L"
    "deref e2 = set_prev (deref e1) ?nxt ?prv" "eng_orders e2 = eng_orders e1" "frame e1 e2"
    "levels e2 = (levels e1)(w := (levels e1 w)[unat p := tail_unless ?nxt ?prv (levels e1 w ! unat p)])"
    using relink_prev [OF e1(2), of ?nxt p w ?prv] B(2) e1(6) R(2) [of w] pt by auto
  have d2: "deref e2 x = deref e x" using e2(3) N(6) d1 by simp
  have "levels e2 = (levels e)(w := (levels e w)[unat p := mk_level (xs @ ys)])"
    using levels_compose [where f = "head_unless ?prv ?nxt" and g = "tail_unless ?nxt ?prv", OF e1(6) e2(6)]
      mk_level_unlink [of xs x a ys] rep_null_level [OF assms(1), of w p]
      assms(2,3) R(2) [of w] pt by (simp add: mk_levels_nth)
  then obtain ix b e' where F: "fhm_erase index_capacity (eng_orders e2) (ao_id a) = Some (ix, b)"
    "e' = e2\<lparr>eng_orders := ix, eng_pool := deallocate x (eng_pool e2)\<rparr>" "rep e' (gset G w p (xs @ ys)) X"
    "\<forall>q\<in>X. deref e' q = deref e q" "frame e e'"
    using finish_unlink [OF assms(1,2) e2(2)] e2(3,4) e1(3,4) frame_trans [OF e1(5) e2(5)] by auto
  have "remove_filled w p x e = Some (?nxt, e')"
    by (simp only: remove_filled_def Let_def N(1) d1 d2 bind.bind_lunit node_sel e1(1) e2(1) F(1,2) prod.case)
  then show ?thesis using F by blast
qed

lemma seg_snoc:
  assumes "seg h w p 0 xs 0" "x \<notin> fst ` set xs" "distinct (map fst xs)" "0 \<notin> fst ` set xs"
  shows "seg (set_next (h(x \<mapsto> node w p a (last_ptr 0 xs) 0)) (last_ptr 0 xs) x) w p 0 (xs @ [(x, a)]) 0"
proof (cases xs rule: rev_cases)
  case Nil
  then show ?thesis by (simp add: set_next_def)
next
  case (snoc zs z)
  obtain y b where z: "z = (y, b)" by force
  then show ?thesis using assms by (auto simp: set_next_def snoc)
qed

text \<open>The links of a new last node: its level's tail, and the head or the old tail's \<open>next\<close>.\<close>

lemma append_links:
  assumes "rep e G X" "x \<in> X" "deref e x = Some (node w p a 0 0)" "unat p < num_levels"
  shows "\<exists>e1 e2. upd_level w p (\<lambda>l. l\<lparr>lvl_tail := x\<rparr>) (e\<lparr>eng_orders := ix\<rparr>) = Some e1 \<and>
    (if last_ptr 0 (G w p) = 0 then upd_level w p (\<lambda>l. l\<lparr>lvl_head := x\<rparr>) e1
     else do {
       e \<leftarrow> assign x (\<lambda>o'. o'\<lparr>prev_in_level := last_ptr 0 (G w p)\<rparr>) e1;
       assign (last_ptr 0 (G w p)) (\<lambda>o'. o'\<lparr>next_in_level := x\<rparr>) e
     }) = Some e2 \<and> heap_ok e2 (live_ptrs G \<union> X) \<and>
    deref e2 = set_next ((deref e)(x \<mapsto> node w p a (last_ptr 0 (G w p)) 0)) (last_ptr 0 (G w p)) x \<and>
    levels e2 = (levels e)(w := (levels e w)[unat p :=
      head_unless (last_ptr 0 (G w p)) x ((levels e w ! unat p)\<lparr>lvl_tail := x\<rparr>)]) \<and>
    eng_orders e2 = ix \<and> frame e e2"
proof -
  let ?t = "last_ptr 0 (G w p)" and ?L = "live_ptrs G \<union> X"
  note R = repD [OF assms(1)]
  have pl: "unat p < length (levels e w)" using R(2) [of w] assms(4) by simp
  obtain e1 where e1: "upd_level w p (\<lambda>l. l\<lparr>lvl_tail := x\<rparr>) (e\<lparr>eng_orders := ix\<rparr>) = Some e1" "heap_ok e1 ?L" "deref e1 = deref e"
    "eng_orders e1 = ix" "frame e e1"
    "levels e1 = (levels e)(w := (levels e w)[unat p := (levels e w ! unat p)\<lparr>lvl_tail := x\<rparr>])"
    using upd_level_view [of p "e\<lparr>eng_orders := ix\<rparr>" w "\<lambda>l. l\<lparr>lvl_tail := x\<rparr>"] R(1) pl
    by (auto simp: frame_def)
  have x: "x \<in> ?L" "deref e1 x = Some (node w p a 0 0)" using assms(2,3) e1(3) by simp_all
  show ?thesis
  proof (cases "?t = 0")
    case True
    have "unat p < length (levels e1 w)" using pl e1(6) by simp
    from upd_level_view [OF this, of "\<lambda>l. l\<lparr>lvl_head := x\<rparr>"] obtain e2 where
      e2: "upd_level w p (\<lambda>l. l\<lparr>lvl_head := x\<rparr>) e1 = Some e2" "heap_ok e2 ?L" "deref e2 = deref e1"
      "eng_orders e2 = eng_orders e1" "frame e1 e2"
      "levels e2 = (levels e1)(w := (levels e1 w)[unat p := (levels e1 w ! unat p)\<lparr>lvl_head := x\<rparr>])"
      using e1(2) by auto
    moreover have "(deref e)(x \<mapsto> node w p a 0 0) = deref e" using assms(3) by (simp add: fun_upd_idem)
    ultimately show ?thesis
      using True e1 pl frame_trans [OF e1(5) e2(5)] by (simp add: set_next_def head_unless_def)
  next
    case False
    obtain ys y b where yb: "G w p = ys @ [(y, b)]" "?t = y" using False by (cases "G w p" rule: rev_cases) auto
    obtain e2 where e2: "assign x (\<lambda>o'. o'\<lparr>prev_in_level := ?t\<rparr>) e1 = Some e2" "heap_ok e2 ?L"
      "deref e2 = (deref e1)(x \<mapsto> node w p a ?t 0)" "levels e2 = levels e1" "eng_orders e2 = eng_orders e1" "frame e1 e2"
      using assign_view [OF e1(2) x, of "\<lambda>o'. o'\<lparr>prev_in_level := ?t\<rparr>"] by auto
    have y: "y \<in> live_ptrs G" "y \<noteq> x"
      using ptrs_live [of G w p] shape_held [OF R(4)] assms(2) yb by auto
    then obtain o' where o': "deref e2 y = Some o'" using rep_node(1) [OF assms(1), of w p ys y b "[]"] yb e2(3) e1(3) by simp
    then obtain e3 where e3: "assign y (\<lambda>o'. o'\<lparr>next_in_level := x\<rparr>) e2 = Some e3" "heap_ok e3 ?L"
      "deref e3 = (deref e2)(y \<mapsto> o'\<lparr>next_in_level := x\<rparr>)" "levels e3 = levels e2" "eng_orders e3 = eng_orders e2" "frame e2 e3"
      using assign_view [OF e2(2) _ o', of "\<lambda>o'. o'\<lparr>next_in_level := x\<rparr>"] y by auto
    have "deref e3 = set_next (deref e2) ?t x" using False yb(2) o' by (simp add: set_next_def e3(3))
    then show ?thesis
      using False e1 e2 e3 yb(2) frame_trans [OF frame_trans [OF e1(5) e2(6)] e3(6)] by (simp add: head_unless_def)
  qed
qed

lemma rep_append:
  assumes "rep e G X" "x \<in> X" "unat p < num_levels" "1 \<le> p \<and> p \<le> 99"
    "heap_ok e' (live_ptrs G \<union> X)"
    "deref e' = set_next ((deref e)(x \<mapsto> node w p a (last_ptr 0 (G w p)) 0)) (last_ptr 0 (G w p)) x"
    "levels e' = (levels e)(w := (levels e w)[unat p := mk_level (G w p @ [(x, a)])])"
    "index_rep (eng_orders e') (gset G w p (G w p @ [(x, a)]))"
  shows "rep e' (gset G w p (G w p @ [(x, a)])) (X - {x})"
proof (rule rep_step [OF assms(1,3) _ assms(7) _ _ _ assms(8)])
  note R = repD [OF assms(1)]
  have x: "x \<notin> ptrs (G w p)" using shape_held [OF R(4)] assms(2) ptrs_live [of G w p] by blast
  have "live_ptrs (gset G w p (G w p @ [(x, a)])) \<union> (X - {x}) = live_ptrs G \<union> X"
    unfolding live_gset [OF R(4)] using assms(2) ptrs_live [of G w p] by auto
  then show "heap_ok e' (live_ptrs (gset G w p (G w p @ [(x, a)])) \<union> (X - {x}))" using assms(5) by simp
  show "seg (deref e') w p 0 (G w p @ [(x, a)]) 0"
    unfolding assms(6) using x R(3,6) rep_null_level [OF assms(1)] by (intro seg_snoc) (auto simp: ptrs_def)
  show "deref e' y = deref e y" if "y \<notin> ptrs (G w p) \<union> X" for y
  proof -
    have "y \<noteq> last_ptr 0 (G w p) \<or> last_ptr 0 (G w p) = 0" using that by (cases "G w p" rule: rev_cases) auto
    then show ?thesis using that assms(2) unfolding assms(6) by (auto simp: set_next_def)
  qed
  show "shape (gset G w p (G w p @ [(x, a)])) (X - {x})"
    using x R(6) [of w p] shape_held [OF R(4)] assms(2,4) ptrs_live [of G w p]
    by (intro shape_gset [OF R(4)]) (auto simp: ptrs_def)
qed

lemma mk_level_append:
  assumes "0 \<notin> fst ` set xs" "x \<noteq> 0"
  shows "(\<lambda>l. l\<lparr>total_qty := total_qty l + ao_qty a\<rparr>)
    (head_unless (last_ptr 0 xs) x ((mk_level xs)\<lparr>lvl_tail := x\<rparr>)) = mk_level (xs @ [(x, a)])"
  using ptr_ends [OF assms(1)] hd_last_nonempty(1) [of xs x 0]
  by (cases "xs = []") (auto simp: head_unless_def mk_level_def)

lemma mk_level_tail: "lvl_tail (mk_level xs) = last_ptr 0 xs"
  by (simp add: mk_level_def)

lemma rest_order_rep:
  assumes "rep e G X" "x \<in> X" "deref e x = Some (node w p a 0 0)" "1 \<le> p \<and> p \<le> 99" "unat p < num_levels"
    "ao_id a \<noteq> EMPTY" "fhm_abs (eng_orders e) (ao_id a) = None"
    "card (dom (fhm_abs (eng_orders e))) < unat index_capacity"
  shows "\<exists>e'. rest_order w (side_of w) x e = Some e' \<and> rep e' (gset G w p (G w p @ [(x, a)])) (X - {x}) \<and>
    next_order_id e' = next_order_id e \<and>
    eng_best_bid e' = (if w = Bids then max (eng_best_bid e) p else eng_best_bid e) \<and>
    eng_best_ask e' = (if w = Asks then min (eng_best_ask e) p else eng_best_ask e)"
proof -
  let ?t = "last_ptr 0 (G w p)" and ?G = "gset G w p (G w p @ [(x, a)])"
  note R = repD [OF assms(1)]
  obtain ix where ix: "fhm_insert index_capacity (eng_orders e) (ao_id a) x = (ix, True)"
    "fhm_inv index_capacity ix" "fhm_abs ix = (fhm_abs (eng_orders e))(ao_id a \<mapsto> x)"
    using fhm.insert_abs [of index_capacity "eng_orders e" "ao_id a" x] R(5) assms(6,8)
    unfolding index_rep_def by auto
  have ixr: "index_rep ix ?G"
    by (rule index_rep_add [OF R(5) R(4) ix(2) assms(7) ix(3)]) simp
  define e0 where "e0 = e\<lparr>eng_orders := ix\<rparr>"
  obtain e1 e2 where E: "upd_level w p (\<lambda>l. l\<lparr>lvl_tail := x\<rparr>) e0 = Some e1"
    "(if ?t = 0 then upd_level w p (\<lambda>l. l\<lparr>lvl_head := x\<rparr>) e1
     else do {
       e \<leftarrow> assign x (\<lambda>o'. o'\<lparr>prev_in_level := ?t\<rparr>) e1;
       assign ?t (\<lambda>o'. o'\<lparr>next_in_level := x\<rparr>) e
     }) = Some e2" "heap_ok e2 (live_ptrs G \<union> X)"
    "deref e2 = set_next ((deref e)(x \<mapsto> node w p a ?t 0)) ?t x" "eng_orders e2 = ix" "frame e e2"
    "levels e2 = (levels e)(w := (levels e w)[unat p := head_unless ?t x ((levels e w ! unat p)\<lparr>lvl_tail := x\<rparr>)])"
    using append_links [OF assms(1-3,5), of ix] unfolding e0_def by blast
  have t: "?t \<noteq> x"
    using rep_null [OF assms(1)] shape_held [OF R(4)] assms(2) ptrs_live [of G w p]
    by (cases "G w p" rule: rev_cases) auto
  have d: "deref e2 x = Some (node w p a ?t 0)" using t E(4) by simp
  have x0: "x \<noteq> 0" using rep_null [OF assms(1)] assms(2) by (metis UnI2)
  obtain e3 where e3: "upd_level w p (\<lambda>l. l\<lparr>total_qty := total_qty l + ao_qty a\<rparr>) e2 = Some e3"
    "heap_ok e3 (live_ptrs G \<union> X)" "deref e3 = deref e2" "eng_orders e3 = eng_orders e2" "frame e2 e3"
    "levels e3 = (levels e2)(w := (levels e2 w)[unat p := (\<lambda>l. l\<lparr>total_qty := total_qty l + ao_qty a\<rparr>) (levels e2 w ! unat p)])"
    using upd_level_view [of p e2 w "\<lambda>l. l\<lparr>total_qty := total_qty l + ao_qty a\<rparr>"] E(3,7) R(2) [of w] assms(5) by auto
  have l: "levels e3 = (levels e)(w := (levels e w)[unat p := mk_level (G w p @ [(x, a)])])"
    using e3(6) E(7) R(2) [of w] assms(5) mk_level_append [OF rep_null_level [OF assms(1)] x0, of w p a]
    by (simp add: mk_levels_nth)
  have g: "get_level e0 w p = Some (mk_level (G w p))"
    using R(2) [of w] assms(5) by (simp add: get_level_def e0_def mk_levels_nth)
  define e4 where "e4 = (case side_of w of YES \<Rightarrow> e3\<lparr>eng_best_bid := max (eng_best_bid e3) p\<rparr>
     | NO \<Rightarrow> e3\<lparr>eng_best_ask := min (eng_best_ask e3) p\<rparr>)"
  have "rest_order w (side_of w) x e = Some e4"
    by (simp only: rest_order_def assms(3) bind.bind_lunit node_sel Let_def ix(1) fst_conv e0_def [symmetric]
        g mk_level_tail E(1,2) d e3(1) e4_def)
  moreover have "rep e4 ?G (X - {x})"
    by (rule rep_append [OF assms(1,2,5,4)]) (cases w; use e3 E(4,5) l ixr in \<open>simp add: e4_def\<close>)+
  moreover have "frame e e3" using frame_trans [OF E(6) e3(5)] .
  ultimately show ?thesis by (cases w) (auto simp: e4_def frame_def)
qed

end
