(* ===== verification/Matching_Refine.thy ===== *)
theory Matching_Refine
  imports Matching_Rep
begin

text \<open>
  The matching loops of the engine consume the queue of the book: each pass over a level takes
  orders from its front, the outer loop concatenates the levels in scan order, and the loops over
  the best prices find the best non-empty levels.
\<close>

section \<open>One level\<close>

definition flat :: "u8 \<Rightarrow> (ptr \<times> aorder) list \<Rightarrow> (u8 \<times> aorder) list" where
  "flat p xs = map (\<lambda>x. (p, snd x)) xs"

lemma flat_simps [simp]: "flat p [] = []" "flat p (x # xs) = (p, snd x) # flat p xs"
  by (simp_all add: flat_def)

declare gset_apply [simp del]

lemma gset_here [simp]: "gset G w p xs w p = xs"
  by (simp add: gset_apply)

lemma match_level_null: "match_level w pt inc 0 fills e = Some (fills, e)"
  by (simp add: match_level.simps)

lemma match_level_idle:
  "deref e inc = Some io \<Longrightarrow> qty_remaining io = 0 \<Longrightarrow> match_level w pt inc cur fills e = Some (fills, e)"
  by (simp add: match_level.simps)

lemma match_level_step:
  assumes "cur \<noteq> 0" "deref e inc = Some io" "qty_remaining io > 0"
    "trade w pt inc cur fills e = Some (fills1, e1)" "deref e1 cur = Some co"
  shows "match_level w pt inc cur fills e =
    (if qty_remaining co = 0 then do {
       (nxt, e2) \<leftarrow> remove_filled w pt cur e1;
       match_level w pt inc nxt fills1 e2
     } else Some (fills1, e1))"
  using assms by (subst match_level.simps) simp

lemma match_level_rep:
  assumes "rep e G X" "inc \<in> X" "deref e inc = Some io" "G w pt = zs"
  shows "\<exists>e' ys. match_level w pt inc (hd_ptr zs 0) fills e =
      Some (fills @ consume (order_id io) (ts_received io) (qty_remaining io) (flat pt zs), e') \<and>
    rep e' (gset G w pt ys) X \<and> flat pt ys = leftover (qty_remaining io) (flat pt zs) \<and>
    deref e' inc = Some (io\<lparr>qty_remaining := unfilled (qty_remaining io) (flat pt zs)\<rparr>) \<and> frame e e'"
  using assms
proof (induction zs arbitrary: e G io fills)
  case Nil
  then show ?case by (intro exI [of _ e] exI [of _ "[]"]) (simp add: match_level_null fun_upd_idem gset_def)
next
  case (Cons z xs)
  obtain x a where z: "z = (x, a)" by force
  let ?q = "qty_remaining io"
  have Gw: "G w pt = [] @ (x, a) # xs" using Cons.prems(4) z by simp
  have x0: "x \<noteq> 0" by (rule rep_node(3) [OF Cons.prems(1) Gw])
  show ?case
  proof (cases "?q = 0")
    case True
    then have "io\<lparr>qty_remaining := 0\<rparr> = io" by simp
    then show ?thesis
      using True Cons.prems match_level_idle [OF Cons.prems(3) True]
      by (intro exI [of _ e] exI [of _ "z # xs"]) (simp add: Cons.prems(4) [symmetric])
  next
    case False
    define t where "t = min (ao_qty a) ?q"
    let ?a = "a\<lparr>ao_qty := ao_qty a - t\<rparr>" and ?io = "io\<lparr>qty_remaining := ?q - t\<rparr>"
    let ?G = "gset G w pt ((x, ?a) # xs)" and ?f = "fills @ [mk_fill (order_id io) (ts_received io) pt a t]"
    obtain e1 where e1: "trade w pt inc x fills e = Some (?f, e1)" "rep e1 ?G X" "deref e1 inc = Some ?io" "frame e e1"
      using trade_rep [OF Cons.prems(1-3) _ t_def, of w pt x xs fills] Gw by auto
    have G1: "?G w pt = [] @ (x, ?a) # xs" by simp
    have step: "match_level w pt inc x fills e = (if ao_qty ?a = 0 then do {
         (nxt, e2) \<leftarrow> remove_filled w pt x e1; match_level w pt inc nxt ?f e2 } else Some (?f, e1))"
      using match_level_step [OF x0 Cons.prems(3) _ e1(1) rep_node(1) [OF e1(2) G1]] False
      by (simp add: word_neq_0_conv)
    show ?thesis
    proof (cases "ao_qty a \<le> ?q")
      case True
      then have t: "t = ao_qty a" by (simp add: t_def)
      obtain e2 where e2: "remove_filled w pt x e1 = Some (hd_ptr xs 0, e2)" "rep e2 (gset G w pt xs) X"
        "deref e2 inc = Some ?io" "frame e1 e2"
        using remove_filled_rep [OF e1(2) G1] e1(3) Cons.prems(2) by (auto simp: t)
      obtain e3 ys where e3: "match_level w pt inc (hd_ptr xs 0) ?f e2 =
          Some (?f @ consume (order_id io) (ts_received io) (?q - t) (flat pt xs), e3)"
        "rep e3 (gset (gset G w pt xs) w pt ys) X" "flat pt ys = leftover (?q - t) (flat pt xs)"
        "deref e3 inc = Some (?io\<lparr>qty_remaining := unfilled (?q - t) (flat pt xs)\<rparr>)" "frame e2 e3"
        using Cons.IH [OF e2(2) Cons.prems(2) e2(3), of ?f] by auto
      have "frame e e3" using frame_trans [OF frame_trans [OF e1(4) e2(4)] e3(5)] .
      then show ?thesis
        using e3 e2(1) step True False by (intro exI [of _ e3] exI [of _ ys]) (simp add: z t)
    next
      case False
      then have t: "t = ?q" by (simp add: t_def)
      have "ao_qty ?a \<noteq> 0" using False by (auto simp: t)
      then show ?thesis
        using e1 step False \<open>?q \<noteq> 0\<close> by (intro exI [of _ e1] exI [of _ "(x, ?a) # xs"]) (simp add: z t)
    qed
  qed
qed

section \<open>The levels in scan order\<close>

text \<open>The prices the outer loop visits from \<open>pt\<close> on while there is quantity left.\<close>

primrec scan_list :: "u8 \<Rightarrow> u8 \<Rightarrow> u8 \<Rightarrow> u8 list \<Rightarrow> bool" where
  "scan_list d price pt [] \<longleftrightarrow> \<not> (if d = 1 then pt \<le> price else pt \<ge> price)"
| "scan_list d price pt (p # ps) \<longleftrightarrow> p = pt \<and> (if d = 1 then pt \<le> price else pt \<ge> price) \<and>
     unat pt < num_levels \<and> scan_list d price (pt + d) ps"

definition gbook :: "ghost \<Rightarrow> book" where
  "gbook G = (\<lambda>w p. map snd (G w p))"

lemma flat_gbook: "flat p (G w p) = map (Pair p) (gbook G w p)"
  by (simp add: flat_def gbook_def)

lemma match_loop_stop:
  assumes "deref e inc = Some io" "\<not> (if d = 1 then pt \<le> price else pt \<ge> price) \<or> qty_remaining io = 0"
  shows "match_loop w d price inc pt fills e = Some (fills, e)"
  using assms by (subst match_loop.simps) auto

lemma match_loop_step:
  assumes "deref e inc = Some io" "if d = 1 then pt \<le> price else pt \<ge> price" "qty_remaining io \<noteq> 0"
    "get_level e w pt = Some l" "match_level w pt inc (lvl_head l) fills e = Some (fills1, e1)"
  shows "match_loop w d price inc pt fills e = match_loop w d price inc (pt + d) fills1 e1"
  using assms by (subst match_loop.simps) simp

lemma queue_gset:
  "p \<notin> set ps \<Longrightarrow> queue (gbook (gset G w p ys) w) ps = queue (gbook G w) ps"
  by (induction ps) (auto simp: gbook_def gset_apply)

lemma match_loop_rep:
  assumes "rep e G X" "inc \<in> X" "deref e inc = Some io" "scan_list d price pt ps" "distinct ps"
  shows "\<exists>e' G'. match_loop w d price inc pt fills e =
      Some (fills @ consume (order_id io) (ts_received io) (qty_remaining io) (queue (gbook G w) ps), e') \<and>
    rep e' G' X \<and> queue (gbook G' w) ps = leftover (qty_remaining io) (queue (gbook G w) ps) \<and>
    (\<forall>w' p. w' \<noteq> w \<or> p \<notin> set ps \<longrightarrow> G' w' p = G w' p) \<and>
    deref e' inc = Some (io\<lparr>qty_remaining := unfilled (qty_remaining io) (queue (gbook G w) ps)\<rparr>) \<and> frame e e'"
  using assms
proof (induction ps arbitrary: e G io pt fills)
  case Nil
  then show ?case using match_loop_stop [OF Nil.prems(3), of d pt price w fills]
    by (intro exI [of _ e] exI [of _ G]) simp
next
  case (Cons p ps)
  show ?case
  proof (cases "qty_remaining io = 0")
    case True
    then have "io\<lparr>qty_remaining := 0\<rparr> = io" by simp
    then show ?thesis
      using True Cons.prems match_loop_stop [OF Cons.prems(3), of d pt price w fills]
      by (intro exI [of _ e] exI [of _ G]) simp
  next
    case False
    let ?q = "qty_remaining io" and ?r = "unfilled (qty_remaining io) (flat pt (G w pt))"
    let ?f = "fills @ consume (order_id io) (ts_received io) ?q (flat pt (G w pt))"
    have p: "p = pt" "if d = 1 then pt \<le> price else pt \<ge> price" "unat pt < num_levels"
      "scan_list d price (pt + d) ps" "pt \<notin> set ps" "distinct ps" using Cons.prems(4,5) by auto
    obtain e1 ys where e1: "match_level w pt inc (hd_ptr (G w pt) 0) fills e = Some (?f, e1)"
      "rep e1 (gset G w pt ys) X" "flat pt ys = leftover ?q (flat pt (G w pt))"
      "deref e1 inc = Some (io\<lparr>qty_remaining := ?r\<rparr>)" "frame e e1"
      using match_level_rep [OF Cons.prems(1-3) refl, of w pt fills] by blast
    have step: "match_loop w d price inc pt fills e = match_loop w d price inc (pt + d) ?f e1"
      using match_loop_step [OF Cons.prems(3) p(2) False rep_levels [OF Cons.prems(1) p(3)]] e1(1)
      by (simp add: mk_level_def)
    have Q: "queue (gbook (gset G w pt ys) w) ps = queue (gbook G w) ps" using p(5) by (rule queue_gset)
    obtain e2 G' where e2: "match_loop w d price inc (pt + d) ?f e1 =
        Some (?f @ consume (order_id io) (ts_received io) ?r (queue (gbook G w) ps), e2)"
      "rep e2 G' X" "queue (gbook G' w) ps = leftover ?r (queue (gbook G w) ps)"
      "\<forall>w' p. w' \<noteq> w \<or> p \<notin> set ps \<longrightarrow> G' w' p = gset G w pt ys w' p"
      "deref e2 inc = Some (io\<lparr>qty_remaining := unfilled ?r (queue (gbook G w) ps)\<rparr>)" "frame e1 e2"
      using Cons.IH [OF e1(2) Cons.prems(2) e1(4) p(4,6), of ?f] by (auto simp: Q)
    have "gbook G' w pt = map snd ys" using e2(4) p(5) by (simp add: gbook_def)
    then have "queue (gbook G' w) (p # ps) = flat pt ys @ queue (gbook G' w) ps" by (simp add: p(1) flat_def)
    then have "queue (gbook G' w) (p # ps) = leftover ?q (queue (gbook G w) (p # ps))"
      by (simp add: p(1) e1(3) e2(3) flat_gbook leftover_append)
    then show ?thesis
      using e2(1,2,4,5) step frame_trans [OF e1(5) e2(6)] p(5)
      by (intro exI [of _ e2] exI [of _ G']) (auto simp: p(1) flat_gbook consume_append unfilled_append gset_apply)
  qed
qed

section \<open>Which prices are visited\<close>

lemma scan_up:
  assumes "price \<le> 99" "ba \<le> 100"
  shows "scan_list 1 price ba (map of_nat [unat ba..<Suc (unat price)])"
  using assms
proof (induction "Suc (unat price) - unat ba" arbitrary: ba)
  case 0
  then show ?case by (simp add: word_le_nat_alt)
next
  case (Suc n)
  then have le: "unat ba \<le> unat price" "ba \<le> price" "unat price \<le> 99" by (simp_all add: word_le_nat_alt)
  have s: "unat (ba + 1) = Suc (unat ba)" using le by (simp add: unat_word_ariths)
  have "scan_list 1 price (ba + 1) (map of_nat [unat (ba + 1)..<Suc (unat price)])"
    by (rule Suc.hyps(1)) (use Suc s le in \<open>auto simp: word_le_nat_alt\<close>)
  moreover have "[unat ba..<Suc (unat price)] = unat ba # [Suc (unat ba)..<Suc (unat price)]"
    using le by (simp add: upt_conv_Cons del: upt_Suc)
  ultimately show ?case using le s by (simp add: num_levels_def del: upt_Suc)
qed

lemma scan_down:
  assumes "1 \<le> price" "bb \<le> 99"
  shows "scan_list (- 1) price bb (rev (map of_nat [unat price..<Suc (unat bb)]))"
  using assms
proof (induction "Suc (unat bb) - unat price" arbitrary: bb)
  case 0
  then show ?case by (simp add: word_le_nat_alt)
next
  case (Suc n)
  then have le: "unat price \<le> unat bb" "price \<le> bb" "unat bb \<le> 99" "1 \<le> unat price" by (simp_all add: word_le_nat_alt)
  have s: "Suc (unat (bb - 1)) = unat bb" using le unat_sub [of 1 bb] by (simp add: word_le_nat_alt)
  have "scan_list (- 1) price (bb - 1) (rev (map of_nat [unat price..<Suc (unat (bb - 1))]))"
    by (rule Suc.hyps(1)) (use Suc s le in \<open>auto simp: word_le_nat_alt\<close>)
  moreover have "rev (map of_nat [unat price..<Suc (unat bb)]) = bb # rev (map of_nat [unat price..<unat bb])"
    using le by simp
  ultimately show ?case using le s by (simp add: num_levels_def)
qed

lemma queue_append: "queue L (ps @ qs) = queue L ps @ queue L qs"
  by (simp add: queue_def)

lemma upt_split: "m \<le> k \<Longrightarrow> k \<le> n \<Longrightarrow> [m..<n] = [m..<k] @ [k..<n]"
  using upt_add_eq_append [of m k "n - k"] by simp

lemma queue_up:
  assumes "\<And>p. p < ba \<Longrightarrow> L p = []" "price \<le> 99" "ba \<le> 100" "1 \<le> ba"
  shows "queue L (crossing YES price) = queue L (map of_nat [unat ba..<Suc (unat price)])"
proof -
  have e: "queue L (map of_nat [1..<k]) = []" if "k \<le> unat ba" for k
  proof -
    have "L (of_nat i) = []" if "i < k" for i
    proof (rule assms(1))
      have "i < 256" using that \<open>k \<le> unat ba\<close> assms(3) by (simp add: word_le_nat_alt)
      then show "of_nat i < ba" using that \<open>k \<le> unat ba\<close> by (simp add: word_less_nat_alt unat_of_nat_u8)
    qed
    then show ?thesis by (auto simp: queue_Nil)
  qed
  show ?thesis
  proof (cases "unat ba \<le> Suc (unat price)")
    case True
    have "1 \<le> unat ba" using assms(4) by (simp add: word_le_nat_alt)
    from upt_split [OF this True] show ?thesis by (simp add: queue_append e [simplified] del: upt_Suc)
  next
    case False
    then show ?thesis using e [of "Suc (unat price)"] by (simp del: upt_Suc)
  qed
qed

lemma queue_down:
  assumes "\<And>p. bb < p \<Longrightarrow> L p = []" "1 \<le> price" "bb \<le> 99"
  shows "queue L (crossing NO price) = queue L (rev (map of_nat [unat price..<Suc (unat bb)]))"
proof -
  have e: "queue L (rev (map of_nat [k..<100])) = []" if "unat bb < k" for k
  proof -
    have "L (of_nat i) = []" if "k \<le> i" "i < 100" for i
      using assms(1) [of "of_nat i"] that \<open>unat bb < k\<close> by (simp add: word_less_nat_alt unat_of_nat_u8)
    then show ?thesis by (auto simp: queue_Nil)
  qed
  have b: "unat bb \<le> 99" using assms(3) by (simp add: word_le_nat_alt)
  show ?thesis
  proof (cases "unat price \<le> Suc (unat bb)")
    case True
    have "Suc (unat bb) \<le> 100" using b by simp
    from upt_split [OF True this] show ?thesis by (simp add: queue_append e del: upt_Suc)
  next
    case False
    then show ?thesis using e [of "unat price"] by (simp del: upt_Suc)
  qed
qed

section \<open>Best prices\<close>

definition best_bid_ok :: "u8 \<Rightarrow> (u8 \<Rightarrow> 'a list) \<Rightarrow> bool" where
  "best_bid_ok bb g \<longleftrightarrow> bb \<le> 99 \<and> (bb = 0 \<or> g bb \<noteq> []) \<and> (\<forall>p. bb < p \<longrightarrow> g p = [])"

definition best_ask_ok :: "u8 \<Rightarrow> (u8 \<Rightarrow> 'a list) \<Rightarrow> bool" where
  "best_ask_ok ba g \<longleftrightarrow> ba \<le> 100 \<and> (ba = 100 \<or> g ba \<noteq> []) \<and> (\<forall>p. p < ba \<longrightarrow> g p = [])"

definition totals_ok :: "engine \<Rightarrow> wall \<Rightarrow> (u8 \<Rightarrow> 'a list) \<Rightarrow> bool" where
  "totals_ok e w g \<longleftrightarrow>
     (\<forall>p. unat p < num_levels \<longrightarrow> (\<exists>l. get_level e w p = Some l \<and> (total_qty l = 0 \<longleftrightarrow> g p = [])))"

lemma totals_ok_best [simp]:
  "totals_ok (e\<lparr>eng_best_bid := b\<rparr>) w g = totals_ok e w g" "totals_ok (e\<lparr>eng_best_ask := b\<rparr>) w g = totals_ok e w g"
  by (simp_all add: totals_ok_def get_level_def)

lemma scan_best_bid_ok:
  assumes "totals_ok e Bids g" "eng_best_bid e \<le> 99" "\<And>p. eng_best_bid e < p \<Longrightarrow> g p = []"
  shows "\<exists>bb. scan_best_bid e = Some (e\<lparr>eng_best_bid := bb\<rparr>) \<and> best_bid_ok bb g"
  using assms
proof (induction "unat (eng_best_bid e)" arbitrary: e rule: less_induct)
  case less
  let ?b = "eng_best_bid e"
  have b: "unat ?b < num_levels" using less.prems(2) by (simp add: word_le_nat_alt num_levels_def)
  then obtain l where l: "get_level e Bids ?b = Some l" "total_qty l = 0 \<longleftrightarrow> g ?b = []"
    using less.prems(1) unfolding totals_ok_def by blast
  show ?case
  proof (cases "total_qty l = 0 \<and> ?b \<noteq> 0")
    case True
    let ?e = "e\<lparr>eng_best_bid := ?b - 1\<rparr>"
    have s: "unat (?b - 1) < unat ?b" using True unat_step_down [of ?b 0] by simp
    have up: "g p = []" if "?b - 1 < p" for p
    proof -
      have "?b \<le> p" using that True inc_le [of "?b - 1" p] by simp
      then show ?thesis using True l(2) less.prems(3) [of p] by (cases "p = ?b") auto
    qed
    have "unat (?b - 1) \<le> 99" using s less.prems(2) by (simp add: word_le_nat_alt)
    then have "\<exists>bb. scan_best_bid ?e = Some (?e\<lparr>eng_best_bid := bb\<rparr>) \<and> best_bid_ok bb g"
      using less.prems(1) up s by (intro less.hyps) (simp_all add: word_le_nat_alt)
    moreover have "scan_best_bid e = scan_best_bid ?e" using True l(1) by (subst scan_best_bid.simps) simp
    ultimately show ?thesis by simp
  next
    case False
    then have "scan_best_bid e = Some (e\<lparr>eng_best_bid := ?b\<rparr>)" using l(1) by (subst scan_best_bid.simps) auto
    moreover have "best_bid_ok ?b g" using False l(2) less.prems(2,3) unfolding best_bid_ok_def by blast
    ultimately show ?thesis by blast
  qed
qed

lemma scan_best_ask_ok:
  assumes "totals_ok e Asks g" "eng_best_ask e \<le> 100" "\<And>p. p < eng_best_ask e \<Longrightarrow> g p = []"
  shows "\<exists>ba. scan_best_ask e = Some (e\<lparr>eng_best_ask := ba\<rparr>) \<and> best_ask_ok ba g"
  using assms
proof (induction "100 - unat (eng_best_ask e)" arbitrary: e rule: less_induct)
  case less
  let ?b = "eng_best_ask e"
  have b: "unat ?b < num_levels" "unat ?b \<le> 100" using less.prems(2) by (simp_all add: word_le_nat_alt num_levels_def)
  then obtain l where l: "get_level e Asks ?b = Some l" "total_qty l = 0 \<longleftrightarrow> g ?b = []"
    using less.prems(1) unfolding totals_ok_def by blast
  show ?case
  proof (cases "total_qty l = 0 \<and> ?b \<noteq> 100")
    case True
    let ?e = "e\<lparr>eng_best_ask := ?b + 1\<rparr>"
    have "unat ?b \<noteq> unat (100 :: u8)" using True word_unat_eq_iff [of ?b 100] by blast
    then have s: "unat ?b < 100" "unat (?b + 1) = Suc (unat ?b)" using b by (simp_all add: unat_word_ariths)
    have up: "g p = []" if "p < ?b + 1" for p
    proof -
      have "p = ?b \<or> p < ?b" using that s by (auto simp: word_less_nat_alt word_unat_eq_iff)
      then show ?thesis using True l(2) less.prems(3) [of p] by auto
    qed
    have "\<exists>ba. scan_best_ask ?e = Some (?e\<lparr>eng_best_ask := ba\<rparr>) \<and> best_ask_ok ba g"
      using less.prems(1) up s by (intro less.hyps) (simp_all add: word_le_nat_alt)
    moreover have "scan_best_ask e = scan_best_ask ?e" using True l(1) by (subst scan_best_ask.simps) simp
    ultimately show ?thesis by simp
  next
    case False
    then have "scan_best_ask e = Some (e\<lparr>eng_best_ask := ?b\<rparr>)" using l(1) by (subst scan_best_ask.simps) auto
    moreover have "best_ask_ok ?b g" using False l(2) less.prems(2,3) unfolding best_ask_ok_def by blast
    ultimately show ?thesis by blast
  qed
qed

end
