(* ===== verification/Matching_Correct.thy ===== *)
theory Matching_Correct
  imports Matching_Refine
begin

text \<open>
  The matching engine implements the order book of \<open>Order_Book\<close>: \<open>place_limit\<close> and \<open>cancel\<close>
  always return, without undefined behaviour, the results and the book of their specifications.
\<close>

section \<open>The invariant of an engine\<close>

definition eng_ok :: "engine \<Rightarrow> ghost \<Rightarrow> bool" where
  "eng_ok e G \<longleftrightarrow> rep e G {} \<and> book_ok (gbook G) (next_order_id e) \<and>
     best_bid_ok (eng_best_bid e) (G Bids) \<and> best_ask_ok (eng_best_ask e) (G Asks)"

lemma rep_best [simp]:
  "rep (e\<lparr>eng_best_bid := b\<rparr>) G X = rep e G X" "rep (e\<lparr>eng_best_ask := b\<rparr>) G X = rep e G X"
  "rep (e\<lparr>next_order_id := n\<rparr>) G X = rep e G X"
  by (simp_all add: rep_def)

subsection \<open>How many orders rest\<close>

lemma sizeof_order_pos: "0 < sizeof_order" by (simp add: sizeof_order_def)

lemma heap_ok_card:
  assumes "heap_ok e L"
  shows "finite L" "card L + length (free_list pool_capacity (eng_pool e)) = pool_capacity"
proof -
  have inv: "pool_inv pool_capacity sizeof_order (eng_pool e)" and L: "L = pl.live pool_capacity sizeof_order (eng_pool e)"
    using assms by (auto simp: heap_ok_def)
  show "finite L" by (simp add: L pl.live_def)
  show "card L + length (free_list pool_capacity (eng_pool e)) = pool_capacity"
    using pl.live_card [OF inv] by (simp add: L card_pool_blocks sizeof_order_pos)
qed

lemma shape_outside: "shape G X \<Longrightarrow> p \<notin> set (map of_nat [0..<101]) \<Longrightarrow> G w p = []"
proof (rule ccontr)
  assume a: "shape G X" "p \<notin> set (map of_nat [0..<101])" "G w p \<noteq> []"
  then have "p \<le> 99" unfolding shape_def by blast
  then have "unat p \<le> 99" by (simp add: word_le_nat_alt)
  then have "p \<in> of_nat ` {0..<101}" by (intro image_eqI [of _ _ "unat p"]) auto
  then show False using a(2) by simp
qed

lemma card_ptrs: "shape G X \<Longrightarrow> card (ptrs (G w p)) = length (G w p)"
  unfolding shape_def ptrs_def using distinct_card [of "map fst (G w p)"] by simp

lemma book_size_card:
  assumes "shape G X"
  shows "book_size (gbook G) = card (live_ptrs G)"
proof -
  let ?P = "set (map of_nat [0..<101]) :: u8 set"
  have d: "distinct (map of_nat [0..<101] :: u8 list)" by (rule distinct_of_nat_u8) simp
  have wall: "(\<Sum>p\<leftarrow>map of_nat [0..<101]. length (gbook G w p)) = card (\<Union>p\<in>?P. ptrs (G w p))" for w
  proof -
    have "card (\<Union>p\<in>?P. ptrs (G w p)) = (\<Sum>p\<in>?P. card (ptrs (G w p)))"
      using shape_disjoint [OF assms] by (intro card_UN_disjoint) (auto simp: ptrs_def)
    also have "\<dots> = (\<Sum>p\<in>?P. length (gbook G w p))" by (simp add: card_ptrs [OF assms] gbook_def)
    also have "\<dots> = (\<Sum>p\<leftarrow>map of_nat [0..<101]. length (gbook G w p))"
      by (rule sum_list_distinct_conv_sum_set [OF d, symmetric])
    finally show ?thesis ..
  qed
  have "live_ptrs G = (\<Union>p\<in>?P. ptrs (G Bids p)) \<union> (\<Union>p\<in>?P. ptrs (G Asks p))"
  proof (rule set_eqI)
    fix x
    have "x \<in> live_ptrs G \<longleftrightarrow> (\<exists>p. x \<in> ptrs (G Bids p)) \<or> (\<exists>p. x \<in> ptrs (G Asks p))"
      unfolding live_ptrs_iff by (metis wall.exhaust)
    moreover have "(\<exists>p. x \<in> ptrs (G w p)) \<longleftrightarrow> x \<in> (\<Union>p\<in>?P. ptrs (G w p))" for w
      using shape_outside [OF assms, of _ w] by (metis UN_iff empty_iff ptrs_simps(1))
    ultimately show "x \<in> live_ptrs G \<longleftrightarrow> x \<in> (\<Union>p\<in>?P. ptrs (G Bids p)) \<union> (\<Union>p\<in>?P. ptrs (G Asks p))" by blast
  qed
  moreover have "(\<Union>p\<in>?P. ptrs (G Bids p)) \<inter> (\<Union>p\<in>?P. ptrs (G Asks p)) = {}"
    using shape_disjoint [OF assms, of Bids _ Asks] by blast
  moreover have "finite (\<Union>p\<in>?P. ptrs (G w p))" for w by (simp add: ptrs_def)
  ultimately have "card (live_ptrs G) = card (\<Union>p\<in>?P. ptrs (G Bids p)) + card (\<Union>p\<in>?P. ptrs (G Asks p))"
    by (simp only: card_Un_disjoint)
  then show ?thesis unfolding book_size_def by (simp only: wall [symmetric]) simp
qed

subsection \<open>Level totals\<close>

lemma rep_length_le:
  assumes "rep e G X"
  shows "length (G w p) \<le> pool_capacity"
proof -
  note R = repD [OF assms]
  have "card (ptrs (G w p)) \<le> card (live_ptrs G \<union> X)"
    using heap_ok_card(1) [OF R(1)] ptrs_live [of G w p] by (intro card_mono) auto
  then show ?thesis using heap_ok_card(2) [OF R(1)] card_ptrs [OF R(4), of w p] by simp
qed

lemma unat_sum_list:
  fixes f :: "'a \<Rightarrow> u32"
  shows "(\<Sum>x\<leftarrow>xs. unat (f x)) < 2 ^ 32 \<Longrightarrow> unat (\<Sum>x\<leftarrow>xs. f x) = (\<Sum>x\<leftarrow>xs. unat (f x))"
proof (induction xs)
  case (Cons x xs)
  then have "unat (\<Sum>x\<leftarrow>xs. f x) = (\<Sum>x\<leftarrow>xs. unat (f x))" by simp
  then show ?case using Cons.prems by (simp add: unat_word_ariths)
qed simp

lemma level_total:
  assumes "rep e G X" "book_ok (gbook G) nid"
  shows "(\<Sum>x\<leftarrow>G w p. unat (ao_qty (snd x))) < 2 ^ 32"
    and "unat (total_qty (mk_level (G w p))) = (\<Sum>a\<leftarrow>gbook G w p. unat (ao_qty a))"
proof -
  have m: "unat (ao_qty (snd x)) \<le> 2097151" if "x \<in> set (G w p)" for x
    using book_okD(4) [OF assms(2), of "snd x" w p] that
    by (simp add: gbook_def max_order_qty_def word_le_nat_alt)
  have "(\<Sum>x\<leftarrow>G w p. unat (ao_qty (snd x))) \<le> (\<Sum>x\<leftarrow>G w p. 2097151)" by (rule sum_list_mono) (rule m)
  also have "\<dots> = length (G w p) * 2097151" by (simp add: sum_list_triv)
  also have "\<dots> \<le> 2048 * 2097151" using rep_length_le [OF assms(1), of w p] by (simp add: pool_capacity_def)
  finally show s: "(\<Sum>x\<leftarrow>G w p. unat (ao_qty (snd x))) < 2 ^ 32" by simp
  show "unat (total_qty (mk_level (G w p))) = (\<Sum>a\<leftarrow>gbook G w p. unat (ao_qty a))"
    using unat_sum_list [OF s] by (simp add: mk_level_def gbook_def comp_def)
qed

lemma level_total_zero:
  assumes "rep e G X" "book_ok (gbook G) nid"
  shows "total_qty (mk_level (G w p)) = 0 \<longleftrightarrow> G w p = []"
proof -
  have "(\<Sum>a\<leftarrow>gbook G w p. unat (ao_qty a)) = 0 \<longleftrightarrow> gbook G w p = []"
  proof (cases "gbook G w p")
    case (Cons a as)
    then have "0 < ao_qty a" using book_okD(3) [OF assms(2), of a w p] by simp
    then show ?thesis using Cons by (simp add: word_less_nat_alt)
  qed simp
  then have "unat (total_qty (mk_level (G w p))) = 0 \<longleftrightarrow> gbook G w p = []"
    unfolding level_total(2) [OF assms] .
  then show ?thesis by (simp add: unat_eq_zero gbook_def)
qed

lemma rep_totals: "rep e G X \<Longrightarrow> book_ok (gbook G) nid \<Longrightarrow> totals_ok e w (G w)"
  unfolding totals_ok_def using rep_levels level_total_zero by blast

section \<open>Blocks taken and given back\<close>

lemma alloc_rep:
  assumes "rep e G {}" "book_size (gbook G) < pool_capacity"
  shows "\<exists>x pl. allocate (eng_pool e) = Some (x, pl) \<and> x \<noteq> 0 \<and>
    (\<forall>o'. rep (e\<lparr>eng_pool := store_obj x o' pl\<rparr>) G {x} \<and> deref (e\<lparr>eng_pool := store_obj x o' pl\<rparr>) x = Some o')"
proof -
  note R = repD [OF assms(1)]
  have inv: "pool_inv pool_capacity sizeof_order (eng_pool e)"
    and live: "live_ptrs G = pl.live pool_capacity sizeof_order (eng_pool e)"
    using R(1) by (auto simp: heap_ok_def)
  have "free_list pool_capacity (eng_pool e) \<noteq> []"
    using heap_ok_card(2) [OF R(1)] assms(2) book_size_card [OF R(4)] by auto
  then obtain x ps where fl: "free_list pool_capacity (eng_pool e) = x # ps" by (cases "free_list pool_capacity (eng_pool e)") auto
  obtain pl where al: "allocate (eng_pool e) = Some (x, pl)" using pl.alloc_block [OF inv fl] by auto
  have x0: "x \<noteq> 0"
    using pl.free_blocks [OF inv] pl.null_not_block [OF inv] fl by (metis list.set_intros(1) subsetD)
  have F: "pool_inv pool_capacity sizeof_order pl" "x \<notin> live_ptrs G"
    "pl.live pool_capacity sizeof_order pl = insert x (live_ptrs G)" "load_obj pl = load_obj (eng_pool e)"
    using pl.alloc_fresh [OF inv al x0] live by auto
  define e1 where "e1 = e\<lparr>eng_pool := pl\<rparr>"
  have h1: "heap_ok e1 (live_ptrs G \<union> {x})" and d1: "deref e1 = deref e"
    using F by (auto simp: e1_def heap_ok_def deref_def)
  have sh: "shape G {x}" using R(4) F(2) unfolding shape_def by blast
  have r1: "rep e1 G {x}" using h1 d1 sh R(2,3,5) unfolding rep_def by (simp add: e1_def)
  have h2: "heap_ok (e1\<lparr>eng_pool := store_obj x o' (eng_pool e1)\<rparr>) (live_ptrs G \<union> {x})" for o'
    by (rule heap_ok_store [OF h1]) simp
  have "rep (e1\<lparr>eng_pool := store_obj x o' (eng_pool e1)\<rparr>) G {x}" for o'
    by (rule rep_frame_held [OF r1 _ x0 h2 deref_store [OF x0]]) simp_all
  moreover have "deref (e1\<lparr>eng_pool := store_obj x o' (eng_pool e1)\<rparr>) x = Some o'" for o'
    by (simp add: deref_store [OF x0])
  ultimately show ?thesis using al x0 by (simp add: e1_def)
qed

lemma alloc_full:
  assumes "rep e G {}" "\<not> book_size (gbook G) < pool_capacity"
  shows "allocate (eng_pool e) = Some (0, eng_pool e)"
proof -
  note R = repD [OF assms(1)]
  have "length (free_list pool_capacity (eng_pool e)) = 0"
    using heap_ok_card(2) [OF R(1)] assms(2) book_size_card [OF R(4)] unfolding Un_empty_right by linarith
  then have "free_list pool_capacity (eng_pool e) = []" by simp
  then show ?thesis using pl.alloc_null R(1) unfolding heap_ok_def by blast
qed

lemma discard_rep:
  assumes "rep e G X" "x \<in> X"
  shows "rep (e\<lparr>eng_pool := deallocate x (eng_pool e)\<rparr>) G (X - {x})"
proof -
  note R = repD [OF assms(1)]
  define e' where "e' = e\<lparr>eng_pool := deallocate x (eng_pool e)\<rparr>"
  have x: "x \<notin> live_ptrs G" using shape_held [OF R(4)] assms(2) by blast
  have h: "heap_ok e' ((live_ptrs G \<union> X) - {x})" "deref e' = (deref e)(x := None)"
    using heap_ok_dealloc [OF R(1)] assms(2) by (simp_all add: e'_def)
  have "(live_ptrs G \<union> X) - {x} = live_ptrs G \<union> (X - {x})" using x by blast
  moreover have "seg (deref e') w p 0 (G w p) 0" for w p
    unfolding h(2) using R(3) [of w p] x ptrs_live [of G w p] by (subst seg_notin) (auto simp: ptrs_def)
  moreover have "shape G (X - {x})" using R(4) unfolding shape_def by blast
  ultimately show ?thesis using h(1) R(2,5) unfolding rep_def by (simp add: e'_def)
qed

lemma index_card:
  assumes "rep e G X"
  shows "card (dom (fhm_abs (eng_orders e))) \<le> pool_capacity"
proof -
  note R = repD [OF assms]
  let ?m = "fhm_abs (eng_orders e)"
  have e: "?m k = Some x \<longleftrightarrow> (x, k) \<in> entries G" for k x using R(5) unfolding index_rep_def by blast
  have "inj_on (\<lambda>k. the (?m k)) (dom ?m)"
  proof (rule inj_onI)
    fix k j assume "k \<in> dom ?m" "j \<in> dom ?m" "the (?m k) = the (?m j)"
    then obtain x where "(x, k) \<in> entries G" "(x, j) \<in> entries G" using e by auto
    then obtain w p w' p' where "(x, k) \<in> ids (G w p)" "(x, j) \<in> ids (G w' p')" unfolding entries_iff by blast
    moreover from this have "(w, p) = (w', p')" using shape_owner [OF R(4)] ids_ptrs by blast
    ultimately obtain a b where "(x, a) \<in> set (G w p)" "(x, b) \<in> set (G w p)" "ao_id a = k" "ao_id b = j"
      by (auto simp: ids_def)
    then show "k = j" using eq_key_imp_eq_value [OF R(6) [of w p]] by blast
  qed
  moreover have "(\<lambda>k. the (?m k)) ` dom ?m \<subseteq> live_ptrs G \<union> X" using e entries_live by fastforce
  ultimately have "card (dom ?m) \<le> card (live_ptrs G \<union> X)"
    using heap_ok_card(1) [OF R(1)] by (metis card_inj_on_le)
  then show ?thesis using heap_ok_card(2) [OF R(1)] by simp
qed

section \<open>Finishing an operation\<close>

lemma finish_ok:
  assumes "rep e G {}" "book_ok (gbook G) (next_order_id e)"
    "eng_best_bid e \<le> 99" "\<And>p. eng_best_bid e < p \<Longrightarrow> G Bids p = []"
    "eng_best_ask e \<le> 100" "\<And>p. p < eng_best_ask e \<Longrightarrow> G Asks p = []"
  shows "\<exists>e1 e2. scan_best_bid e = Some e1 \<and> scan_best_ask e1 = Some e2 \<and> eng_ok e2 G \<and>
    next_order_id e2 = next_order_id e"
proof -
  obtain bb where bb: "scan_best_bid e = Some (e\<lparr>eng_best_bid := bb\<rparr>)" "best_bid_ok bb (G Bids)"
    using scan_best_bid_ok [OF rep_totals [OF assms(1,2)] assms(3,4)] by blast
  have "rep (e\<lparr>eng_best_bid := bb\<rparr>) G {}" using assms(1) by simp
  from scan_best_ask_ok [OF rep_totals [OF this assms(2)]]
  obtain ba where ba: "scan_best_ask (e\<lparr>eng_best_bid := bb\<rparr>) = Some (e\<lparr>eng_best_bid := bb, eng_best_ask := ba\<rparr>)"
    "best_ask_ok ba (G Asks)" using assms(5,6) by auto
  show ?thesis using bb ba assms(1,2) by (simp add: eng_ok_def)
qed

section \<open>Placing an order\<close>

text \<open>The state after the matching loop, for either side.\<close>

definition traded_ghost :: "ghost \<Rightarrow> side \<Rightarrow> u8 \<Rightarrow> u32 \<Rightarrow> ghost \<Rightarrow> bool" where
  "traded_ghost G sd price qty G' \<longleftrightarrow>
     (\<forall>w. w \<noteq> opp_wall sd \<longrightarrow> G' w = G w) \<and>
     (\<forall>p. gbook G' (opp_wall sd) p = traded_wall (gbook G (opp_wall sd)) (crossing sd price) qty p)"

definition scan_start :: "side \<Rightarrow> engine \<Rightarrow> u8" where
  "scan_start sd e = (case sd of YES \<Rightarrow> eng_best_ask e | NO \<Rightarrow> eng_best_bid e)"

definition scan_dir :: "side \<Rightarrow> u8" where
  "scan_dir sd = (case sd of YES \<Rightarrow> 1 | NO \<Rightarrow> - 1)"

lemma best_ask_pos: "best_ask_ok ba g \<Longrightarrow> g 0 = [] \<Longrightarrow> 1 \<le> ba"
proof -
  assume "best_ask_ok ba g" "g 0 = []"
  then have "ba \<noteq> 0" unfolding best_ask_ok_def by force
  then have "unat ba \<noteq> 0" by (simp add: unat_eq_zero)
  then show ?thesis by (simp add: word_le_nat_alt)
qed

lemma scan_prices:
  fixes sd :: side
  assumes "eng_ok e G" "1 \<le> price" "price \<le> 99"
  defines "L \<equiv> gbook G (opp_wall sd)"
  shows "\<exists>ps. scan_list (scan_dir sd) price (scan_start sd e) ps \<and> distinct ps \<and>
    queue L (crossing sd price) = queue L ps \<and> set ps \<subseteq> set (crossing sd price) \<and>
    (\<forall>p\<in>set (crossing sd price) - set ps. L p = [])"
proof -
  have bb: "eng_best_bid e \<le> 99" "\<And>p. eng_best_bid e < p \<Longrightarrow> gbook G Bids p = []"
    and ba: "eng_best_ask e \<le> 100" "\<And>p. p < eng_best_ask e \<Longrightarrow> gbook G Asks p = []"
    using assms(1) by (auto simp: eng_ok_def best_bid_ok_def best_ask_ok_def gbook_def)
  have "\<not> (1 :: u8) \<le> 0" by (simp add: word_le_nat_alt)
  then have "G Asks 0 = []" using rep_price(2) [of e G "{}" Asks 0] assms(1) unfolding eng_ok_def by blast
  then have ba1: "1 \<le> eng_best_ask e" using best_ask_pos assms(1) unfolding eng_ok_def by blast
  have pr: "unat price \<le> 99" using assms(3) by (simp add: word_le_nat_alt)
  have bbu: "unat (eng_best_bid e) \<le> 99" using bb(1) by (simp add: word_le_nat_alt)
  show ?thesis
  proof (cases sd)
    case YES
    let ?ps = "map of_nat [unat (eng_best_ask e)..<Suc (unat price)] :: u8 list"
    have m: "p \<in> set ?ps \<longleftrightarrow> eng_best_ask e \<le> p \<and> p \<le> price" for p
      using in_set_of_nat_u8 [of "Suc (unat price)" p "unat (eng_best_ask e)"] pr by (simp add: word_le_nat_alt less_Suc_eq_le)
    have "set ?ps \<subseteq> set (crossing YES price)" unfolding subset_iff m set_crossing(1) [OF assms(2,3)] using ba1 by auto
    moreover have "\<forall>p\<in>set (crossing YES price) - set ?ps. gbook G Asks p = []"
      unfolding Ball_def Diff_iff m set_crossing(1) [OF assms(2,3)] using ba(2) by (auto simp: not_le)
    moreover have "distinct ?ps" using pr by (intro distinct_of_nat_u8) simp
    ultimately show ?thesis
      using YES scan_up [OF assms(3) ba(1)] queue_up [OF ba(2) assms(3) ba(1) ba1]
      by (intro exI [of _ ?ps]) (simp add: L_def scan_dir_def scan_start_def del: crossing.simps upt_Suc)
  next
    case NO
    let ?ps = "rev (map of_nat [unat price..<Suc (unat (eng_best_bid e))]) :: u8 list"
    have m: "p \<in> set ?ps \<longleftrightarrow> price \<le> p \<and> p \<le> eng_best_bid e" for p
      using in_set_of_nat_u8 [of "Suc (unat (eng_best_bid e))" p "unat price"] bbu by (simp add: word_le_nat_alt less_Suc_eq_le)
    have "set ?ps \<subseteq> set (crossing NO price)" unfolding subset_iff m set_crossing(2) [OF assms(2,3)] using bb(1) by auto
    moreover have "\<forall>p\<in>set (crossing NO price) - set ?ps. gbook G Bids p = []"
      unfolding Ball_def Diff_iff m set_crossing(2) [OF assms(2,3)] using bb(2) by (auto simp: not_le)
    moreover have "distinct ?ps" using bbu by (simp del: upt_Suc) (intro distinct_of_nat_u8, simp)
    ultimately show ?thesis
      using NO scan_down [OF assms(2) bb(1)] queue_down [OF bb(2) assms(2) bb(1)]
      by (intro exI [of _ ?ps]) (simp add: L_def scan_dir_def scan_start_def del: crossing.simps upt_Suc)
  qed
qed

lemma place_matched:
  fixes sd :: side
  assumes "eng_ok e0 G" "rep e G {x}" "1 \<le> price" "price \<le> 99" "deref e x = Some io"
    "eng_best_bid e = eng_best_bid e0" "eng_best_ask e = eng_best_ask e0"
  defines "xs \<equiv> queue (gbook G (opp_wall sd)) (crossing sd price)"
  shows "\<exists>e' G'. match_loop (opp_wall sd) (scan_dir sd) price x (scan_start sd e0) [] e =
      Some (consume (order_id io) (ts_received io) (qty_remaining io) xs, e') \<and>
    rep e' G' {x} \<and> traded_ghost G sd price (qty_remaining io) G' \<and>
    deref e' x = Some (io\<lparr>qty_remaining := unfilled (qty_remaining io) xs\<rparr>) \<and> frame e e'"
proof -
  let ?w = "opp_wall sd" and ?q = "qty_remaining io"
  obtain ps where ps: "scan_list (scan_dir sd) price (scan_start sd e0) ps" "distinct ps"
    "queue (gbook G ?w) (crossing sd price) = queue (gbook G ?w) ps" "set ps \<subseteq> set (crossing sd price)"
    "\<forall>p\<in>set (crossing sd price) - set ps. gbook G ?w p = []"
    using scan_prices [OF assms(1,3,4), of sd] by blast
  obtain e' G' where M: "match_loop ?w (scan_dir sd) price x (scan_start sd e0) [] e =
      Some ([] @ consume (order_id io) (ts_received io) ?q (queue (gbook G ?w) ps), e')"
    "rep e' G' {x}" "queue (gbook G' ?w) ps = leftover ?q (queue (gbook G ?w) ps)"
    "\<forall>w' p. w' \<noteq> ?w \<or> p \<notin> set ps \<longrightarrow> G' w' p = G w' p"
    "deref e' x = Some (io\<lparr>qty_remaining := unfilled ?q (queue (gbook G ?w) ps)\<rparr>)" "frame e e'"
    using match_loop_rep [OF assms(2) _ assms(5) ps(1,2), of ?w "[]"] by blast
  have "gbook G' ?w p = traded_wall (gbook G ?w) (crossing sd price) ?q p" for p
  proof -
    have "at_price (leftover ?q (queue (gbook G ?w) ps)) p = (if p \<in> set ps then gbook G' ?w p else [])"
      unfolding M(3) [symmetric] by (rule at_price_queue [OF ps(2)])
    moreover have "p \<notin> set ps \<Longrightarrow> gbook G' ?w p = gbook G ?w p" using M(4) by (simp add: gbook_def)
    ultimately show ?thesis using ps(4,5) by (auto simp: traded_wall_def ps(3))
  qed
  then have "traded_ghost G sd price ?q G'" using M(4) by (auto simp: traded_ghost_def fun_eq_iff)
  then show ?thesis using M unfolding xs_def ps(3) by (intro exI [of _ e'] exI [of _ G']) simp
qed

lemma own_not_opp: "own_wall sd \<noteq> opp_wall sd" "w \<noteq> opp_wall sd \<longleftrightarrow> w = own_wall sd" "side_of (own_wall sd) = sd"
  by (cases sd; cases w; simp)+

lemma traded_ghost_member:
  assumes "traded_ghost G sd price qty G'" "a \<in> set (gbook G' w p)"
  shows "\<exists>b\<in>set (gbook G w p). ao_id a = ao_id b"
proof (cases "w = opp_wall sd")
  case True
  then have "a \<in> set (traded_wall (gbook G w) (crossing sd price) qty p)" using assms by (simp add: traded_ghost_def)
  from traded_member [OF this] show ?thesis by blast
next
  case False
  then have "G' w = G w" using assms(1) unfolding traded_ghost_def by blast
  then show ?thesis using assms(2) by (auto simp: gbook_def)
qed

lemma traded_ghost_Nil: "traded_ghost G sd price qty G' \<Longrightarrow> G w p = [] \<Longrightarrow> G' w p = []"
  using traded_ghost_member [of G sd price qty G' _ w p] by (cases "G' w p") (auto simp: gbook_def)

lemma entries_gbook: "(x, k) \<in> entries G \<Longrightarrow> \<exists>w p. \<exists>a\<in>set (gbook G w p). ao_id a = k"
  unfolding entries_iff by (force simp: ids_def gbook_def)

lemma index_fresh:
  assumes "rep e G' X" "traded_ghost G sd price qty G'" "book_ok (gbook G) nid"
  shows "fhm_abs (eng_orders e) nid = None"
proof (rule ccontr)
  assume "fhm_abs (eng_orders e) nid \<noteq> None"
  then obtain x where "(x, nid) \<in> entries G'" using repD(5) [OF assms(1)] unfolding index_rep_def by blast
  then obtain w p a where "a \<in> set (gbook G' w p)" "ao_id a = nid" using entries_gbook by blast
  then obtain b where "b \<in> set (gbook G w p)" "ao_id b = nid" using traded_ghost_member [OF assms(2)] by force
  then show False using book_okD(5) [OF assms(3)] by blast
qed

text \<open>After the matching loop: the rest joins the book, or the block goes back to the pool.\<close>

lemma place_rest:
  assumes "eng_ok e0 G" "rep e G1 {x}" "traded_ghost G sd price qty G1" "1 \<le> price" "price \<le> 99"
    "deref e x = Some (node (own_wall sd) price a 0 0)" "ao_id a = next_order_id e0" "ao_id a \<noteq> EMPTY"
    "eng_best_bid e = eng_best_bid e0" "eng_best_ask e = eng_best_ask e0"
  shows "\<exists>e' G'. (if ao_qty a > 0 then rest_order (own_wall sd) sd x e
      else Some (e\<lparr>eng_pool := deallocate x (eng_pool e)\<rparr>)) = Some e' \<and> rep e' G' {} \<and>
    gbook G' = (\<lambda>w p. if w = opp_wall sd then traded_wall (gbook G w) (crossing sd price) qty p
      else if ao_qty a \<noteq> 0 \<and> p = price then gbook G w p @ [a] else gbook G w p) \<and>
    next_order_id e' = next_order_id e \<and>
    eng_best_bid e' \<le> 99 \<and> (\<forall>p. eng_best_bid e' < p \<longrightarrow> G' Bids p = []) \<and>
    eng_best_ask e' \<le> 100 \<and> (\<forall>p. p < eng_best_ask e' \<longrightarrow> G' Asks p = [])"
proof -
  have bb: "eng_best_bid e \<le> 99" "\<And>p. eng_best_bid e < p \<Longrightarrow> G1 Bids p = []"
    and ba: "eng_best_ask e \<le> 100" "\<And>p. p < eng_best_ask e \<Longrightarrow> G1 Asks p = []"
    using assms(1,9,10) traded_ghost_Nil [OF assms(3)] by (auto simp: eng_ok_def best_bid_ok_def best_ask_ok_def)
  have own: "G1 w = G w" if "w \<noteq> opp_wall sd" for w using assms(3) that unfolding traded_ghost_def by blast
  have opp: "gbook G1 (opp_wall sd) p = traded_wall (gbook G (opp_wall sd)) (crossing sd price) qty p" for p
    using assms(3) unfolding traded_ghost_def by blast
  show ?thesis
  proof (cases "ao_qty a = 0")
    case True
    have "gbook G1 w p = (if w = opp_wall sd then traded_wall (gbook G w) (crossing sd price) qty p else gbook G w p)" for w p
      using opp own by (simp add: gbook_def)
    then show ?thesis using True discard_rep [OF assms(2)] bb ba
      by (intro exI [of _ "e\<lparr>eng_pool := deallocate x (eng_pool e)\<rparr>"] exI [of _ G1]) (simp add: fun_eq_iff)
  next
    case False
    let ?G = "gset G1 (own_wall sd) price (G1 (own_wall sd) price @ [(x, a)])"
    have pr: "unat price < num_levels" using assms(5) by (simp add: word_le_nat_alt num_levels_def)
    have fr: "fhm_abs (eng_orders e) (ao_id a) = None"
      using index_fresh [OF assms(2,3)] assms(1,7) unfolding eng_ok_def by auto
    have cd: "card (dom (fhm_abs (eng_orders e))) < unat index_capacity"
      using index_card [OF assms(2)] by (simp add: pool_capacity_def index_capacity_def)
    obtain e' where E: "rest_order (own_wall sd) sd x e = Some e'" "rep e' ?G {}" "next_order_id e' = next_order_id e"
      "eng_best_bid e' = (if own_wall sd = Bids then max (eng_best_bid e) price else eng_best_bid e)"
      "eng_best_ask e' = (if own_wall sd = Asks then min (eng_best_ask e) price else eng_best_ask e)"
      using rest_order_rep [OF assms(2) _ assms(6) conjI [OF assms(4,5)] pr assms(8) fr cd] own_not_opp(3) [of sd] by auto
    have gb: "gbook ?G w p = (if w = opp_wall sd then traded_wall (gbook G w) (crossing sd price) qty p
        else if p = price then gbook G w p @ [a] else gbook G w p)" for w p
    proof (cases "w = opp_wall sd")
      case True
      then have "gbook ?G w p = gbook G1 w p" using own_not_opp(1) [of sd] by (simp add: gbook_def gset_apply)
      then show ?thesis using True opp by simp
    next
      case False
      then have "w = own_wall sd" "G1 w = G w" using own_not_opp(2) own by blast+
      then show ?thesis using False by (simp add: gbook_def gset_apply)
    qed
    have nb: "?G w p = G1 w p" if "w \<noteq> own_wall sd \<or> p \<noteq> price" for w p using that by (auto simp: gset_apply)
    have "eng_best_bid e' \<le> 99 \<and> (\<forall>p. eng_best_bid e' < p \<longrightarrow> ?G Bids p = [])"
      using bb nb [of Bids] assms(5) by (cases sd) (auto simp: E(4))
    moreover have "eng_best_ask e' \<le> 100 \<and> (\<forall>p. p < eng_best_ask e' \<longrightarrow> ?G Asks p = [])"
      using ba nb [of Asks] by (cases sd) (auto simp: E(5) min_def)
    ultimately show ?thesis using False E(1-3) gb
      by (intro exI [of _ e'] exI [of _ ?G]) (simp add: word_neq_0_conv fun_eq_iff)
  qed
qed

lemma place_limit_accepted:
  assumes "eng_ok e G" "next_order_id e \<noteq> EMPTY" "qty \<le> max_order_qty" "accepts (gbook G) price qty"
  shows "\<exists>r e' G'. place_limit ts client sd price qty e = Some (r, e') \<and> eng_ok e' G' \<and>
    (r, gbook G') = place_spec (next_order_id e) ts client sd price qty (gbook G) \<and>
    next_order_id e' = next_order_id e + 1"
proof -
  let ?t = "next_order_id e" and ?xs = "queue (gbook G (opp_wall sd)) (crossing sd price)"
  let ?r = "unfilled qty ?xs"
  have pr: "1 \<le> price" "price \<le> 99" "qty \<noteq> 0" and sz: "book_size (gbook G) < pool_capacity"
    using assms(4) by (auto simp: accepts_def)
  have r: "rep e G {}" using assms(1) by (simp add: eng_ok_def)
  obtain x pl where al: "allocate (eng_pool e) = Some (x, pl)" "x \<noteq> 0"
    "\<And>o'. rep (e\<lparr>eng_pool := store_obj x o' pl\<rparr>) G {x}" "\<And>o'. deref (e\<lparr>eng_pool := store_obj x o' pl\<rparr>) x = Some o'"
    using alloc_rep [OF r sz] by blast
  define a where "a = (\<lambda>q. \<lparr>ao_id = ?t, ao_client = client, ao_qty = q, ao_ts = ts\<rparr>)"
  define io where "io = node (own_wall sd) price (a qty) 0 0"
  define e1 where "e1 = e\<lparr>next_order_id := ?t + 1, eng_pool := store_obj x io pl\<rparr>"
  have e1': "e1 = (e\<lparr>eng_pool := store_obj x io pl\<rparr>)\<lparr>next_order_id := ?t + 1\<rparr>" by (simp add: e1_def)
  have r1: "rep e1 G {x}" and d1: "deref e1 x = Some io" using al(3,4) by (simp_all add: e1')
  obtain e2 G1 where M: "match_loop (opp_wall sd) (scan_dir sd) price x (scan_start sd e) [] e1 =
      Some (consume ?t ts qty ?xs, e2)" "rep e2 G1 {x}" "traded_ghost G sd price qty G1"
    "deref e2 x = Some (node (own_wall sd) price (a ?r) 0 0)" "frame e1 e2"
    using place_matched [OF assms(1) r1 pr(1,2) d1, of sd] by (auto simp: io_def e1_def a_def)
  have f2: "eng_best_bid e2 = eng_best_bid e" "eng_best_ask e2 = eng_best_ask e" "next_order_id e2 = ?t + 1"
    using M(5) by (simp_all add: frame_def e1_def)
  obtain e3 G3 where P: "(if ao_qty (a ?r) > 0 then rest_order (own_wall sd) sd x e2
      else Some (e2\<lparr>eng_pool := deallocate x (eng_pool e2)\<rparr>)) = Some e3" "rep e3 G3 {}"
    "gbook G3 = (\<lambda>w p. if w = opp_wall sd then traded_wall (gbook G w) (crossing sd price) qty p
      else if ao_qty (a ?r) \<noteq> 0 \<and> p = price then gbook G w p @ [a ?r] else gbook G w p)"
    "next_order_id e3 = next_order_id e2"
    "eng_best_bid e3 \<le> 99" "\<And>p. eng_best_bid e3 < p \<Longrightarrow> G3 Bids p = []"
    "eng_best_ask e3 \<le> 100" "\<And>p. p < eng_best_ask e3 \<Longrightarrow> G3 Asks p = []"
    using place_rest [OF assms(1) M(2,3) pr(1,2) M(4) _ _ f2(1,2)] assms(2) by (auto simp: a_def)
  have spec: "place_spec ?t ts client sd price qty (gbook G) =
      (\<lparr>res_order_id = ?t, res_fills = consume ?t ts qty ?xs, qty_resting = ?r, accepted = True\<rparr>, gbook G3)"
    using place_spec_accept [OF assms(4), of ?t ts client sd] P(3) by (auto simp: a_def fun_eq_iff)
  have bk: "book_ok (gbook G3) (?t + 1)"
    using place_spec_ok [of "gbook G" ?t qty ts client sd price] assms spec by (simp add: eng_ok_def EMPTY_def)
  obtain e4 e5 where S: "scan_best_bid e3 = Some e4" "scan_best_ask e4 = Some e5" "eng_ok e5 G3"
    "next_order_id e5 = next_order_id e3"
    using finish_ok [OF P(2) _ P(5-8)] bk f2(3) P(4) by auto
  have node: "io = \<lparr>order_id = ?t, client_id = client, order_side = sd, order_price = price, qty_remaining = qty,
      ts_received = ts, prev_in_level = 0, next_in_level = 0\<rparr>"
    by (simp add: io_def node_def a_def own_not_opp(3))
  have sdc: "(case sd of YES \<Rightarrow> (Asks, Bids, eng_best_ask e, 1) | NO \<Rightarrow> (Bids, Asks, eng_best_bid e, - 1)) =
      (opp_wall sd, own_wall sd, scan_start sd e, scan_dir sd)"
    by (cases sd) (simp_all add: scan_start_def scan_dir_def)
  have "\<not> (price < 1 \<or> price > 99)" using pr by auto
  then have "place_limit ts client sd price qty e =
      Some (\<lparr>res_order_id = ?t, res_fills = consume ?t ts qty ?xs, qty_resting = ?r, accepted = True\<rparr>, e5)"
    using al(1,2) M(1,4) P(1) S(1,2) pr(3)
    by (auto simp: place_limit_def sdc e1_def node a_def Let_def word_gt_0)
  then show ?thesis using spec S(3,4) P(4) f2(3) by auto
qed

lemma place_limit_rejected:
  assumes "eng_ok e G" "\<not> accepts (gbook G) price qty"
  shows "place_limit ts client sd price qty e = Some (rejected, e)"
proof (cases "1 \<le> price \<and> price \<le> 99 \<and> qty \<noteq> 0")
  case True
  then have "allocate (eng_pool e) = Some (0, eng_pool e)"
    using assms by (intro alloc_full [of e G]) (auto simp: eng_ok_def accepts_def)
  then show ?thesis using True by (cases sd) (auto simp: place_limit_def not_less)
next
  case False
  then show ?thesis by (auto simp: place_limit_def not_less not_le)
qed

lemma place_limit_ok:
  assumes "eng_ok e G" "next_order_id e \<noteq> EMPTY" "qty \<le> max_order_qty"
  shows "\<exists>r e' G'. place_limit ts client sd price qty e = Some (r, e') \<and> eng_ok e' G' \<and>
    (r, gbook G') = place_spec (next_order_id e) ts client sd price qty (gbook G) \<and>
    next_order_id e' = (if accepts (gbook G) price qty then next_order_id e + 1 else next_order_id e)"
proof (cases "accepts (gbook G) price qty")
  case True
  then show ?thesis using place_limit_accepted [OF assms True, of ts client sd] by simp
next
  case False
  then show ?thesis using place_limit_rejected [OF assms(1) False, of ts client sd] assms(1)
    by (intro exI [of _ rejected] exI [of _ e] exI [of _ G]) (simp add: place_spec_def)
qed

section \<open>Cancelling an order\<close>

lemma gbook_find:
  assumes "rep e G X"
  shows "fhm_abs (eng_orders e) oid = Some x \<longleftrightarrow> (\<exists>w p xs a ys. G w p = xs @ (x, a) # ys \<and> ao_id a = oid)"
proof -
  have "fhm_abs (eng_orders e) oid = Some x \<longleftrightarrow> (x, oid) \<in> entries G"
    using repD(5) [OF assms] unfolding index_rep_def by blast
  also have "\<dots> \<longleftrightarrow> (\<exists>w p a. (x, a) \<in> set (G w p) \<and> ao_id a = oid)" unfolding entries_iff by (force simp: ids_def)
  finally show ?thesis by (metis in_set_conv_decomp)
qed

lemma owned_iff:
  assumes "rep e G X"
  shows "owned (gbook G) oid client \<longleftrightarrow>
    (\<exists>w p xs x a ys. G w p = xs @ (x, a) # ys \<and> ao_id a = oid \<and> ao_client a = client)"
proof -
  have "owned (gbook G) oid client \<longleftrightarrow> (\<exists>w p. \<exists>a\<in>set (gbook G w p). ao_id a = oid \<and> ao_client a = client)"
  proof -
    have "p \<in> set (map of_nat [0..<101])" if "a \<in> set (gbook G w p)" for a w p
      using shape_outside [OF repD(4) [OF assms]] that by (force simp: gbook_def)
    moreover have "w \<in> {Bids, Asks}" for w by (cases w) auto
    ultimately show ?thesis unfolding owned_def by blast
  qed
  also have "\<dots> \<longleftrightarrow> (\<exists>w p x a. (x, a) \<in> set (G w p) \<and> ao_id a = oid \<and> ao_client a = client)"
    by (force simp: gbook_def)
  finally show ?thesis by (metis in_set_conv_decomp)
qed

text \<open>An id occurs once, so removing its order is dropping the id from every queue.\<close>

lemma gbook_remove:
  assumes "rep e G X" "G w p = xs @ (x, a) # ys" "ao_id a = oid"
  shows "gbook (gset G w p (xs @ ys)) = (\<lambda>w p. filter (\<lambda>a. ao_id a \<noteq> oid) (gbook G w p))"
proof (intro ext)
  fix w' p'
  note R = repD [OF assms(1)]
  have uniq: "(w', p') = (w, p) \<and> y = x" if "(y, b) \<in> set (G w' p')" "ao_id b = oid" for y b w' p'
  proof -
    have "(y, oid) \<in> ids (G w' p')" using that by (force simp: ids_def)
    then have "(y, oid) \<in> entries G" unfolding entries_iff by blast
    then have "y = x" using index_rep_unique [OF R(5)] rep_node(4) [OF assms(1,2)] assms(3) by blast
    moreover have "x \<in> ptrs (G w p)" "y \<in> ptrs (G w' p')" using assms(2) that by (force simp: ptrs_def)+
    ultimately show ?thesis using shape_owner [OF R(4)] by blast
  qed
  have keep: "filter (\<lambda>a. ao_id a \<noteq> oid) (map snd zs) = map snd zs"
    if "set zs \<subseteq> set (G w' p')" "\<And>y b. (y, b) \<in> set zs \<Longrightarrow> y \<noteq> x \<or> (w', p') \<noteq> (w, p)" for zs w' p'
    using uniq that by (fastforce simp: filter_id_conv)
  have d: "distinct (map fst (xs @ (x, a) # ys))" using R(6) [of w p] assms(2) by simp
  show "gbook (gset G w p (xs @ ys)) w' p' = filter (\<lambda>a. ao_id a \<noteq> oid) (gbook G w' p')"
  proof (cases "(w', p') = (w, p)")
    case True
    have "filter (\<lambda>a. ao_id a \<noteq> oid) (map snd xs) = map snd xs" "filter (\<lambda>a. ao_id a \<noteq> oid) (map snd ys) = map snd ys"
      using keep [of xs w p] keep [of ys w p] d assms(2) by force+
    then show ?thesis using True assms(2,3) by (simp add: gbook_def)
  next
    case False
    then have "gset G w p (xs @ ys) w' p' = G w' p'" by (auto simp: gset_apply)
    then show ?thesis using keep [of "G w' p'" w' p'] False by (simp add: gbook_def)
  qed
qed

lemma set_commute: "set_next (set_prev h q v) r u = set_prev (set_next h r u) q v"
proof
  fix x
  show "set_next (set_prev h q v) r u x = set_prev (set_next h r u) q v x"
    by (cases "h x") (auto simp: set_next_def set_prev_def)
qed

lemma unless_commute: "head_unless q v (tail_unless r u l) = tail_unless r u (head_unless q v l)"
  by (simp add: head_unless_def tail_unless_def)

text \<open>The links and the total of the level after lines 141 to 152 of \<open>cancel\<close>.\<close>

lemma cancel_unlink:
  assumes "rep e G X" "G w p = xs @ (x, a) # ys"
  defines "co \<equiv> node w p a (last_ptr 0 xs) (hd_ptr ys 0)"
  shows "\<exists>e1 e2 e3.
    (if next_in_level co = 0 then upd_level w p (\<lambda>l. l\<lparr>lvl_tail := prev_in_level co\<rparr>) e
     else assign (next_in_level co) (\<lambda>o'. o'\<lparr>prev_in_level := prev_in_level co\<rparr>) e) = Some e1 \<and> deref e1 x = Some co \<and>
    (if prev_in_level co = 0 then upd_level w p (\<lambda>l. l\<lparr>lvl_head := next_in_level co\<rparr>) e1
     else assign (prev_in_level co) (\<lambda>o'. o'\<lparr>next_in_level := next_in_level co\<rparr>) e1) = Some e2 \<and> deref e2 x = Some co \<and>
    upd_level w p (\<lambda>l. l\<lparr>total_qty := total_qty l - qty_remaining co\<rparr>) e2 = Some e3 \<and>
    heap_ok e3 (live_ptrs G \<union> X) \<and>
    deref e3 = set_prev (set_next (deref e) (last_ptr 0 xs) (hd_ptr ys 0)) (hd_ptr ys 0) (last_ptr 0 xs) \<and>
    levels e3 = (levels e)(w := (levels e w)[unat p := mk_level (xs @ ys)]) \<and>
    eng_orders e3 = eng_orders e \<and> frame e e3"
proof -
  let ?prv = "last_ptr 0 xs" and ?nxt = "hd_ptr ys 0" and ?L = "live_ptrs G \<union> X"
  let ?tot = "\<lambda>l. l\<lparr>total_qty := total_qty l - ao_qty a\<rparr>"
  note R = repD [OF assms(1)] and N = rep_node [OF assms(1,2)] and B = rep_neighbours [OF assms(1,2)]
  have pt: "unat p < length (levels e w)" using rep_price(1) [OF assms(1), of w p] assms(2) R(2) [of w] by simp
  obtain e1 where e1: "(if ?nxt \<noteq> 0 then assign ?nxt (\<lambda>o'. o'\<lparr>prev_in_level := ?prv\<rparr>) e
      else upd_level w p (\<lambda>l. l\<lparr>lvl_tail := ?prv\<rparr>) e) = Some e1" "heap_ok e1 ?L"
    "deref e1 = set_prev (deref e) ?nxt ?prv" "eng_orders e1 = eng_orders e" "frame e e1"
    "levels e1 = (levels e)(w := (levels e w)[unat p := tail_unless ?nxt ?prv (levels e w ! unat p)])"
    using relink_prev [OF R(1) _ pt, of ?nxt ?prv] B(2) by auto
  have "?prv \<noteq> 0 \<Longrightarrow> deref e1 ?prv \<noteq> None" using B(1) e1(3) by (auto simp: set_prev_def)
  then obtain e2 where e2: "(if ?prv \<noteq> 0 then assign ?prv (\<lambda>o'. o'\<lparr>next_in_level := ?nxt\<rparr>) e1
      else upd_level w p (\<lambda>l. l\<lparr>lvl_head := ?nxt\<rparr>) e1) = Some e2" "heap_ok e2 ?L"
    "deref e2 = set_next (deref e1) ?prv ?nxt" "eng_orders e2 = eng_orders e1" "frame e1 e2"
    "levels e2 = (levels e1)(w := (levels e1 w)[unat p := head_unless ?prv ?nxt (levels e1 w ! unat p)])"
    using relink_next [OF e1(2), of ?prv p w ?nxt] B(1) e1(6) pt by auto
  have l2: "levels e2 = (levels e)(w := (levels e w)[unat p := head_unless ?prv ?nxt (tail_unless ?nxt ?prv (levels e w ! unat p))])"
    using levels_compose [where f = "tail_unless ?nxt ?prv" and g = "head_unless ?prv ?nxt", OF e1(6) e2(6) pt] .
  obtain e3 where e3: "upd_level w p ?tot e2 = Some e3" "heap_ok e3 ?L" "deref e3 = deref e2"
    "eng_orders e3 = eng_orders e2" "frame e2 e3" "levels e3 = (levels e2)(w := (levels e2 w)[unat p := ?tot (levels e2 w ! unat p)])"
    using upd_level_view [of p e2 w ?tot] e2(2) l2 pt by auto
  have "?tot (head_unless ?prv ?nxt (tail_unless ?nxt ?prv (levels e w ! unat p))) = mk_level (xs @ ys)"
    using mk_level_unlink [of xs x a ys] rep_null_level [OF assms(1), of w p] assms(2) pt R(2) [of w]
    by (simp add: mk_levels_nth unless_commute)
  then have l3: "levels e3 = (levels e)(w := (levels e w)[unat p := mk_level (xs @ ys)])"
    using levels_compose [where f = "\<lambda>l. head_unless ?prv ?nxt (tail_unless ?nxt ?prv l)" and g = ?tot, OF l2 e3(6) pt] by simp
  have d: "deref e1 x = Some co" "deref e2 x = Some co"
    using N(1,5,6) by (simp_all add: e1(3) e2(3) co_def)
  have i: "next_in_level co = ?nxt" "prev_in_level co = ?prv" "qty_remaining co = ao_qty a" by (simp_all add: co_def)
  have f: "frame e e3" using frame_trans [OF frame_trans [OF e1(5) e2(5)] e3(5)] .
  have "(if ?nxt = 0 then upd_level w p (\<lambda>l. l\<lparr>lvl_tail := ?prv\<rparr>) e
      else assign ?nxt (\<lambda>o'. o'\<lparr>prev_in_level := ?prv\<rparr>) e) = Some e1" using e1(1) by (cases "?nxt = 0") simp_all
  moreover have "(if ?prv = 0 then upd_level w p (\<lambda>l. l\<lparr>lvl_head := ?nxt\<rparr>) e1
      else assign ?prv (\<lambda>o'. o'\<lparr>next_in_level := ?nxt\<rparr>) e1) = Some e2" using e2(1) by (cases "?prv = 0") simp_all
  moreover have "deref e3 = set_prev (set_next (deref e) ?prv ?nxt) ?nxt ?prv" by (simp only: e3(3) e2(3) e1(3) set_commute)
  moreover have "eng_orders e3 = eng_orders e" by (simp only: e3(4) e2(4) e1(4))
  ultimately show ?thesis unfolding i using e3(1,2) l3 d f by blast
qed

text \<open>Cancelling a resting order of the client: unlink, erase, give back, and look for the best prices.\<close>

lemma cancel_owned:
  assumes e: "eng_ok e G" and slot: "fhm_find index_capacity (eng_orders e) oid = Some slot"
    and x: "x = slot_value (fm_slots (eng_orders e) ! unat slot)"
    and g: "G w p = xs @ (x, a) # ys" "ao_id a = oid" and cl: "ao_client a = client"
  shows "\<exists>r e' G'. cancel oid client e = Some (r, e') \<and> eng_ok e' G' \<and>
    (r, gbook G') = cancel_spec oid client (gbook G) \<and> next_order_id e' = next_order_id e"
proof -
  have r: "rep e G {}" and bk: "book_ok (gbook G) (next_order_id e)"
    and bb: "eng_best_bid e \<le> 99" "\<And>p. eng_best_bid e < p \<Longrightarrow> G Bids p = []"
    and ba: "eng_best_ask e \<le> 100" "\<And>p. p < eng_best_ask e \<Longrightarrow> G Asks p = []"
    using e by (auto simp: eng_ok_def best_bid_ok_def best_ask_ok_def)
  define co where "co = node w p a (last_ptr 0 xs) (hd_ptr ys 0)"
  have d: "deref e x = Some co" using rep_node(1) [OF r g(1)] by (simp add: co_def)
  let ?G = "gset G w p (xs @ ys)"
  have own: "owned (gbook G) oid client" unfolding owned_iff [OF r] using g cl by blast
  then have spec: "cancel_spec oid client (gbook G) = (True, gbook ?G)"
    by (simp add: cancel_spec_def gbook_remove [OF r g])
  obtain e1 e2 e3 where U:
    "(if next_in_level co = 0 then upd_level w p (\<lambda>l. l\<lparr>lvl_tail := prev_in_level co\<rparr>) e
     else assign (next_in_level co) (\<lambda>o'. o'\<lparr>prev_in_level := prev_in_level co\<rparr>) e) = Some e1" "deref e1 x = Some co"
    "(if prev_in_level co = 0 then upd_level w p (\<lambda>l. l\<lparr>lvl_head := next_in_level co\<rparr>) e1
     else assign (prev_in_level co) (\<lambda>o'. o'\<lparr>next_in_level := next_in_level co\<rparr>) e1) = Some e2" "deref e2 x = Some co"
    "upd_level w p (\<lambda>l. l\<lparr>total_qty := total_qty l - qty_remaining co\<rparr>) e2 = Some e3"
    "heap_ok e3 (live_ptrs G \<union> {})"
    "deref e3 = set_prev (set_next (deref e) (last_ptr 0 xs) (hd_ptr ys 0)) (hd_ptr ys 0) (last_ptr 0 xs)"
    "levels e3 = (levels e)(w := (levels e w)[unat p := mk_level (xs @ ys)])" "eng_orders e3 = eng_orders e" "frame e e3"
    using cancel_unlink [OF r g(1)] unfolding co_def by blast
  obtain ix b e4 where F: "fhm_erase index_capacity (eng_orders e3) oid = Some (ix, b)"
    "e4 = e3\<lparr>eng_orders := ix, eng_pool := deallocate x (eng_pool e3)\<rparr>" "rep e4 ?G {}" "frame e e4"
    using finish_unlink [OF r g(1) U(6-10)] g(2) by blast
  have sub: "?G w' p' = []" if "G w' p' = []" for w' p' using that g(1) by (auto simp: gset_apply)
  have bk4: "book_ok (gbook ?G) (next_order_id e4)"
    using cancel_spec_ok [OF bk, of oid client] spec F(4) by (simp add: frame_def)
  obtain e5 e6 where S: "scan_best_bid e4 = Some e5" "scan_best_ask e5 = Some e6" "eng_ok e6 ?G"
    "next_order_id e6 = next_order_id e4"
    using finish_ok [OF F(3) bk4] bb ba sub F(4) by (auto simp: frame_def)
  have w: "(case order_side co of YES \<Rightarrow> Bids | NO \<Rightarrow> Asks) = w" by (cases w) (simp_all add: co_def)
  have c: "client_id co = client" "order_price co = p" using cl by (simp_all add: co_def)
  have "cancel oid client e = Some (True, e6)"
    by (simp only: cancel_def slot option.case Let_def x [symmetric] d bind.bind_lunit c w U(1-5) F(1)
        prod.case F(2) [symmetric] S(1,2) if_False simp_thms)
  then show ?thesis using S(3,4) spec F(4) by (intro exI [of _ True] exI [of _ e6] exI [of _ ?G]) (simp add: frame_def)
qed

text \<open>An order that rests for another client is not the client's.\<close>

lemma not_owned:
  assumes r: "rep e G {}" and g: "G w p = xs @ (x, a) # ys" "ao_id a = oid" and cl: "ao_client a \<noteq> client"
  shows "\<not> owned (gbook G) oid client"
proof
  assume "owned (gbook G) oid client"
  then obtain w' p' xs' y b ys' where o': "G w' p' = xs' @ (y, b) # ys'" "ao_id b = oid" "ao_client b = client"
    unfolding owned_iff [OF r] by blast
  have "fhm_abs (eng_orders e) oid = Some y" "fhm_abs (eng_orders e) oid = Some x" using gbook_find [OF r] o' g by blast+
  then have "y = x" by simp
  then have "abs_order (node w p a (last_ptr 0 xs) (hd_ptr ys 0)) = b" using rep_node(1) [OF r o'(1)] rep_node(1) [OF r g(1)] by simp
  then show False using cl o'(3) by simp
qed

lemma cancel_ok:
  assumes "eng_ok e G" "oid \<noteq> EMPTY"
  shows "\<exists>r e' G'. cancel oid client e = Some (r, e') \<and> eng_ok e' G' \<and>
    (r, gbook G') = cancel_spec oid client (gbook G) \<and> next_order_id e' = next_order_id e"
proof -
  have r: "rep e G {}" using assms(1) by (simp add: eng_ok_def)
  have get: "fhm_get index_capacity (eng_orders e) oid = fhm_abs (eng_orders e) oid"
    using fhm.lookup_abs [OF _ assms(2)] repD(5) [OF r] unfolding index_rep_def by blast
  show ?thesis
  proof (cases "fhm_find index_capacity (eng_orders e) oid")
    case None
    then have "fhm_abs (eng_orders e) oid = None" using get by (simp add: fhm_get_def)
    then have "\<not> owned (gbook G) oid client" unfolding owned_iff [OF r] using gbook_find [OF r] by (metis option.distinct(1))
    then show ?thesis using None assms(1)
      by (intro exI [of _ False] exI [of _ e] exI [of _ G]) (simp add: cancel_def cancel_spec_def)
  next
    case (Some slot)
    define x where "x = slot_value (fm_slots (eng_orders e) ! unat slot)"
    have "fhm_abs (eng_orders e) oid = Some x" using get Some by (simp add: fhm_get_def x_def)
    then obtain w p xs a ys where g: "G w p = xs @ (x, a) # ys" "ao_id a = oid" using gbook_find [OF r] by blast
    show ?thesis
    proof (cases "ao_client a = client")
      case True
      then show ?thesis by (rule cancel_owned [OF assms(1) Some x_def g])
    next
      case False
      have "deref e x = Some (node w p a (last_ptr 0 xs) (hd_ptr ys 0))" using rep_node(1) [OF r g(1)] .
      then show ?thesis using False Some not_owned [OF r g False] assms(1)
        by (intro exI [of _ False] exI [of _ e] exI [of _ G]) (simp add: cancel_def cancel_spec_def x_def)
    qed
  qed
qed

end
