(* ===== verification/Matching_Properties.thy ===== *)
theory Matching_Properties
  imports Matching_Correct
begin

text \<open>
  Properties of the matching engine over every state a caller can reach, stated over the book
  read out of the engine's memory.
\<close>

section \<open>Reading the book out of memory\<close>

primrec walk_level :: "nat \<Rightarrow> engine \<Rightarrow> ptr \<Rightarrow> aorder list" where
  "walk_level 0 e p = []"
| "walk_level (Suc n) e p =
     (case deref e p of None \<Rightarrow> [] | Some o' \<Rightarrow> abs_order o' # walk_level n e (next_in_level o'))"

definition book_of :: "engine \<Rightarrow> book" where
  "book_of e w p = (case get_level e w p of None \<Rightarrow> [] | Some l \<Rightarrow> walk_level pool_capacity e (lvl_head l))"

lemma walk_level_seg:
  "seg (deref e) w p prv xs 0 \<Longrightarrow> length xs \<le> n \<Longrightarrow> walk_level n e (hd_ptr xs 0) = map snd xs"
proof (induction xs arbitrary: n prv)
  case Nil
  then show ?case by (cases n) (simp_all add: deref_def)
next
  case (Cons x xs)
  obtain y a where x: "x = (y, a)" by force
  obtain m where n: "n = Suc m" using Cons.prems(2) by (cases n) auto
  show ?case using Cons.IH [of y m] Cons.prems by (simp add: x n)
qed

lemma rep_book_of:
  assumes "rep e G X"
  shows "book_of e = gbook G"
proof (intro ext)
  fix w p
  show "book_of e w p = gbook G w p"
  proof (cases "unat p < num_levels")
    case True
    then show ?thesis
      using rep_levels [OF assms True, of w] walk_level_seg [OF repD(3) [OF assms, of w p] rep_length_le [OF assms, of w p]]
      by (simp add: book_of_def gbook_def mk_level_def)
  next
    case False
    then have "G w p = []" using rep_price(1) [OF assms] by blast
    moreover have "get_level e w p = None"
      using False repD(2) [OF assms, of w] by (simp add: get_level_def)
    ultimately show ?thesis by (simp add: book_of_def gbook_def)
  qed
qed

section \<open>Reachable engines\<close>

text \<open>
  A caller creates an engine and then places and cancels. The engine itself does not check two things
  that its callers have to keep: the quantity of an order is at most \<open>2^21 - 1\<close>, which keeps level totals
  within 32 bits (the HTTP handler refuses quantities above 1000000), and the reserved key \<open>2^64 - 1\<close> of
  the index is neither cancelled nor assigned (it would be after \<open>2^64 - 2\<close> orders). An engine is reachable
  when its callers have kept to that.
\<close>

inductive eng_reach :: "engine \<Rightarrow> bool" where
  create: "MatchingEngine_new (Some (base, mem)) (Some sl) = Some e \<Longrightarrow> 0 < base \<Longrightarrow>
    length sl = unat index_capacity \<Longrightarrow> eng_reach e"
| place: "eng_reach e \<Longrightarrow> qty \<le> max_order_qty \<Longrightarrow> next_order_id e \<noteq> EMPTY \<Longrightarrow>
    place_limit ts client sd price qty e = Some (r, e') \<Longrightarrow> eng_reach e'"
| cancel: "eng_reach e \<Longrightarrow> oid \<noteq> EMPTY \<Longrightarrow> cancel oid client e = Some (r, e') \<Longrightarrow> eng_reach e'"

lemma cap_ok_index: "cap_ok index_capacity"
  by (simp add: cap_ok_def index_capacity_def)

lemma new_engine_ok:
  assumes "MatchingEngine_new (Some (base, mem)) (Some sl) = Some e" "0 < base" "length sl = unat index_capacity"
  shows "eng_ok e (\<lambda>w p. [])" "next_order_id e = 1"
proof -
  obtain pl where pl: "Pool_new pool_capacity sizeof_order (Some (base, mem)) = Some pl" by (simp add: Pool_new_def)
  obtain ix where ix: "FlatHashMap_new (Some sl) = Some ix" "fhm_inv index_capacity ix" "fhm_abs ix = Map.empty"
    using FlatHashMap_new_inv [OF cap_ok_index assms(3)] by blast
  let ?L = "replicate num_levels \<lparr>lvl_head = 0, lvl_tail = 0, total_qty = 0\<rparr> :: price_level list"
  have e: "e = \<lparr>eng_pool = pl, bids = ?L, asks = ?L, eng_orders = ix, eng_best_bid = 0, eng_best_ask = 100, next_order_id = 1\<rparr>"
    using assms(1) by (simp add: MatchingEngine_new_def pl ix(1))
  have P: "pool_inv pool_capacity sizeof_order pl" "free_list pool_capacity pl = pool_blocks pool_capacity sizeof_order pl"
    using Pool_new_inv [OF pl _ sizeof_order_pos assms(2)] by (auto simp: pool_capacity_def)
  have "heap_ok e {}" using P by (simp add: heap_ok_def e pl.live_def)
  moreover have "levels e w = mk_levels (\<lambda>p. [])" for w
    by (cases w) (simp_all add: levels_def e mk_levels_def mk_level_def map_replicate_const)
  moreover have "index_rep ix (\<lambda>w p. [])" using ix(2,3) by (simp add: index_rep_def entries_def)
  ultimately have "rep e (\<lambda>w p. []) {}" by (simp add: rep_def live_ptrs_def shape_def e)
  then show "eng_ok e (\<lambda>w p. [])"
    by (simp add: eng_ok_def book_ok_def gbook_def best_bid_ok_def best_ask_ok_def e)
  show "next_order_id e = 1" by (simp add: e)
qed

lemma eng_reach_ok: "eng_reach e \<Longrightarrow> \<exists>G. eng_ok e G"
proof (induction rule: eng_reach.induct)
  case (create base mem sl e)
  then show ?case using new_engine_ok(1) by blast
next
  case (place e qty ts client sd price r e')
  then show ?case using place_limit_ok [of e _ qty ts client sd price] by fastforce
next
  case (cancel e oid client r e')
  then show ?case using cancel_ok [of e _ oid client] by fastforce
qed

lemma eng_reach_book:
  assumes "eng_reach e"
  obtains G where "eng_ok e G" "book_of e = gbook G" "rep e G {}" "book_ok (book_of e) (next_order_id e)"
proof -
  obtain G where G: "eng_ok e G" using eng_reach_ok [OF assms] by blast
  then have "rep e G {}" "book_ok (gbook G) (next_order_id e)" by (simp_all add: eng_ok_def)
  then show thesis using that [OF G] rep_book_of by metis
qed

text \<open>An engine to apply the properties to.\<close>

definition demo_engine :: engine where
  "demo_engine = the (MatchingEngine_new (Some (4096, \<lambda>_. Link 0))
     (Some (replicate (unat index_capacity) \<lparr>slot_key = 0, slot_value = 0\<rparr>)))"

lemma demo_new: "MatchingEngine_new (Some (4096, \<lambda>_. Link 0))
    (Some (replicate (unat index_capacity) \<lparr>slot_key = 0, slot_value = 0\<rparr>)) = Some demo_engine"
  by (simp add: demo_engine_def MatchingEngine_new_def Pool_new_def FlatHashMap_new_def Let_def)

lemma demo_reach: "eng_reach demo_engine"
  by (rule eng_reach.create [OF demo_new]) simp_all

lemma demo_book: "book_of demo_engine = (\<lambda>w p. [])" "next_order_id demo_engine = 1"
proof -
  have "eng_ok demo_engine (\<lambda>w p. [])" "next_order_id demo_engine = 1"
    using new_engine_ok [OF demo_new] by simp_all
  then show "book_of demo_engine = (\<lambda>w p. [])" "next_order_id demo_engine = 1"
    using rep_book_of by (auto simp: eng_ok_def gbook_def)
qed

lemma empty_accepts: "accepts (\<lambda>w p. []) price qty \<longleftrightarrow> 1 \<le> price \<and> price \<le> 99 \<and> qty \<noteq> 0"
  by (simp add: accepts_def book_size_def pool_capacity_def comp_def sum_list_triv)

lemma empty_queue: "queue (\<lambda>p. []) ps = []"
  by (simp add: queue_Nil)

lemma empty_place:
  assumes "1 \<le> price" "price \<le> 99" "qty \<noteq> 0"
  shows "place_spec t ts client sd price qty (\<lambda>w p. []) =
    (\<lparr>res_order_id = t, res_fills = [], qty_resting = qty, accepted = True\<rparr>,
     \<lambda>w p. if w = own_wall sd \<and> p = price
       then [\<lparr>ao_id = t, ao_client = client, ao_qty = qty, ao_ts = ts\<rparr>] else [])"
proof -
  have "accepts (\<lambda>w p. []) price qty" using assms by (simp add: empty_accepts)
  from place_spec_accept [OF this, of t ts client sd] show ?thesis
    using assms(3) by (auto simp: empty_queue traded_wall_def fun_eq_iff own_not_opp)
qed

text \<open>The engine after a buyer of ten at 40.\<close>

definition bid_book :: book where
  "bid_book = (\<lambda>w p. if w = Bids \<and> p = 40 then [\<lparr>ao_id = 1, ao_client = 1, ao_qty = 10, ao_ts = 7\<rparr>] else [])"

lemma demo_bid: "\<exists>e. eng_reach e \<and> next_order_id e = 2 \<and> book_of e = bid_book"
proof -
  have q: "(10 :: u32) \<le> max_order_qty" "next_order_id demo_engine \<noteq> EMPTY"
    by (simp_all add: max_order_qty_def EMPTY_def demo_book)
  have ok: "eng_ok demo_engine (\<lambda>w p. [])" using new_engine_ok [OF demo_new] by simp
  have acc: "accepts (gbook (\<lambda>w p. [])) 40 10" by (simp add: gbook_def empty_accepts)
  obtain r e' G' where P: "place_limit 7 1 YES 40 10 demo_engine = Some (r, e')" "eng_ok e' G'"
    "(r, gbook G') = place_spec 1 7 1 YES 40 10 (gbook (\<lambda>w p. []))" "next_order_id e' = 2"
    using place_limit_ok [OF ok q(2,1), of 7 1 YES 40] acc by (auto simp: demo_book)
  have "eng_reach e'" by (rule eng_reach.place [OF demo_reach q(1,2) P(1)])
  moreover have "book_of e' = bid_book"
    using P(2,3) rep_book_of empty_place [of 40 10 1 7 1 YES] by (auto simp: eng_ok_def gbook_def bid_book_def)
  ultimately show ?thesis using P(4) by blast
qed

lemma bid_book_accepts: "accepts bid_book 40 15"
proof -
  have "book_size bid_book = 1" by code_simp
  then show ?thesis by (simp add: accepts_def pool_capacity_def)
qed

section \<open>Refinement\<close>

lemma place_reach:
  assumes "eng_reach e" "qty \<le> max_order_qty" "next_order_id e \<noteq> EMPTY"
  obtains r e' where "place_limit ts client sd price qty e = Some (r, e')"
    "(r, book_of e') = place_spec (next_order_id e) ts client sd price qty (book_of e)"
proof -
  obtain G where G: "eng_ok e G" "book_of e = gbook G" using eng_reach_book [OF assms(1)] .
  obtain r e' G' where P: "place_limit ts client sd price qty e = Some (r, e')" "eng_ok e' G'"
    "(r, gbook G') = place_spec (next_order_id e) ts client sd price qty (gbook G)"
    using place_limit_ok [OF G(1) assms(3,2), of ts client sd price] by blast
  then have "book_of e' = gbook G'" using rep_book_of unfolding eng_ok_def by blast
  then show thesis using P G(2) by (intro that) auto
qed

text \<open>What an accepted call returns and leaves.\<close>

lemma place_reach_accepted:
  assumes "eng_reach e" "qty \<le> max_order_qty" "next_order_id e \<noteq> EMPTY"
    "place_limit ts client sd price qty e = Some (r, e')" "accepted r"
  defines "xs \<equiv> queue (book_of e (opp_wall sd)) (crossing sd price)"
  shows "1 \<le> price" "price \<le> 99" "res_order_id r = next_order_id e"
    "res_fills r = consume (next_order_id e) ts qty xs" "qty_resting r = unfilled qty xs"
    "book_of e' (opp_wall sd) = traded_wall (book_of e (opp_wall sd)) (crossing sd price) qty"
proof -
  obtain r' e'' where "place_limit ts client sd price qty e = Some (r', e'')"
    "(r', book_of e'') = place_spec (next_order_id e) ts client sd price qty (book_of e)"
    using place_reach [OF assms(1-3)] .
  then have sp: "(r, book_of e') = place_spec (next_order_id e) ts client sd price qty (book_of e)" using assms(4) by simp
  then have acc: "accepts (book_of e) price qty" using assms(5) by (auto simp: place_spec_def rejected_def split: if_splits)
  then show "1 \<le> price" "price \<le> 99" by (simp_all add: accepts_def)
  show "res_order_id r = next_order_id e" "res_fills r = consume (next_order_id e) ts qty xs"
    "qty_resting r = unfilled qty xs"
    "book_of e' (opp_wall sd) = traded_wall (book_of e (opp_wall sd)) (crossing sd price) qty"
    using sp unfolding place_spec_accept [OF acc] xs_def by auto
qed

text \<open>
  (C2) Refinement: in every reachable engine \<open>place_limit\<close> returns, follows no bad pointer, and its
  result and the book it leaves are those of the order book with price-time priority: the order
  consumes the crossing orders of the other side, best price first and oldest first at a price,
  and what is left of it rests at the end of its own level. The quantity is at most \<open>2^21 - 1\<close>, and
  the ids are not used up.
\<close>

theorem place_limit_refines:
  assumes "eng_reach e" "qty \<le> max_order_qty" "next_order_id e \<noteq> EMPTY"
  shows "\<exists>r e'. place_limit ts client sd price qty e = Some (r, e') \<and>
    (r, book_of e') = place_spec (next_order_id e) ts client sd price qty (book_of e)"
  by (rule place_reach [OF assms, of ts client sd price]) blast

theorem place_limit_refines_witness:
  "\<exists>r e'. place_limit 7 1 YES 40 10 demo_engine = Some (r, e') \<and> res_order_id r = 1 \<and> qty_resting r = 10 \<and>
     book_of e' Bids 40 = [\<lparr>ao_id = 1, ao_client = 1, ao_qty = 10, ao_ts = 7\<rparr>]"
proof -
  have q: "(10 :: u32) \<le> max_order_qty" "(1 :: u64) \<noteq> EMPTY" by (simp_all add: max_order_qty_def EMPTY_def)
  obtain r e' where P: "place_limit 7 1 YES 40 10 demo_engine = Some (r, e')"
    "(r, book_of e') = place_spec 1 7 1 YES 40 10 (\<lambda>w p. [])"
    using place_limit_refines [OF demo_reach q(1), of 7 1 YES 40] q(2) by (auto simp: demo_book)
  then have "r = \<lparr>res_order_id = 1, res_fills = [], qty_resting = 10, accepted = True\<rparr>"
    "book_of e' = (\<lambda>w p. if w = own_wall YES \<and> p = 40
       then [\<lparr>ao_id = 1, ao_client = 1, ao_qty = 10, ao_ts = 7\<rparr>] else [])"
    using empty_place [of 40 10 1 7 1 YES] by simp_all
  then show ?thesis using P(1) by simp
qed

text \<open>
  (C12) Refinement: in every reachable engine and for every id but the reserved \<open>2^64 - 1\<close> (which has a
  theorem of its own below), \<open>cancel\<close> returns; it removes exactly the order with the given id when that order rests and belongs to the client, and otherwise returns false and
  leaves the book as it was.
\<close>

theorem cancel_refines:
  assumes "eng_reach e" "oid \<noteq> EMPTY"
  shows "\<exists>r e'. cancel oid client e = Some (r, e') \<and> (r, book_of e') = cancel_spec oid client (book_of e)"
proof -
  obtain G where G: "eng_ok e G" "book_of e = gbook G" using eng_reach_book [OF assms(1)] .
  obtain r e' G' where P: "cancel oid client e = Some (r, e')" "eng_ok e' G'"
    "(r, gbook G') = cancel_spec oid client (gbook G)" using cancel_ok [OF G(1) assms(2), of client] by blast
  then have "book_of e' = gbook G'" using rep_book_of unfolding eng_ok_def by blast
  then show ?thesis using P G(2) by auto
qed

theorem cancel_refines_witness:
  "\<exists>e e'. eng_reach e \<and> book_of e = bid_book \<and> cancel 1 1 e = Some (True, e') \<and> book_of e' = (\<lambda>w p. [])"
proof -
  obtain e where e: "eng_reach e" "book_of e = bid_book" using demo_bid by blast
  have "40 \<in> set (map of_nat [0..<101] :: u8 list)" using in_set_of_nat_u8 [of 101 40 0] by simp
  then have "owned bid_book 1 1" by (simp add: owned_def bid_book_def)
  then have "cancel_spec 1 1 bid_book = (True, \<lambda>w p. [])" by (simp add: cancel_spec_def bid_book_def fun_eq_iff)
  moreover have "(1 :: u64) \<noteq> EMPTY" by (simp add: EMPTY_def)
  ultimately show ?thesis using cancel_refines [OF e(1), of 1 1] e by auto
qed

text \<open>
  (C8) Invariant: in every reachable engine the book is not crossed, \<open>best_bid\<close> is the highest price
  with a resting bid (0 if there is none), \<open>best_ask\<close> the lowest price with a resting ask (100 if
  there is none), and \<open>depth_at\<close> is the exact quantity resting at a price, without wrap-around.
\<close>

theorem engine_quotes_exact:
  assumes "eng_reach e"
  shows "best_bid e < best_ask e \<and>
    (\<forall>p. book_of e Bids p \<noteq> [] \<longrightarrow> p \<le> best_bid e) \<and> (best_bid e = 0 \<or> book_of e Bids (best_bid e) \<noteq> []) \<and>
    (\<forall>p. book_of e Asks p \<noteq> [] \<longrightarrow> best_ask e \<le> p) \<and> (best_ask e = 100 \<or> book_of e Asks (best_ask e) \<noteq> []) \<and>
    (\<forall>sd p. \<exists>d. depth_at e sd p = Some d \<and> unat d = (\<Sum>a\<leftarrow>book_of e (own_wall sd) p. unat (ao_qty a)))"
proof -
  obtain G where G: "eng_ok e G" "book_of e = gbook G" "rep e G {}" "book_ok (book_of e) (next_order_id e)"
    using eng_reach_book [OF assms] .
  have bk: "book_ok (gbook G) (next_order_id e)" using G(2,4) by simp
  have bb: "best_bid e \<le> 99" "best_bid e = 0 \<or> book_of e Bids (best_bid e) \<noteq> []"
      "\<And>p. best_bid e < p \<Longrightarrow> book_of e Bids p = []"
    and ba: "best_ask e = 100 \<or> book_of e Asks (best_ask e) \<noteq> []" "\<And>p. p < best_ask e \<Longrightarrow> book_of e Asks p = []"
    using G(1) by (auto simp: eng_ok_def best_bid_ok_def best_ask_ok_def best_bid_def best_ask_def G(2) gbook_def)
  have "best_bid e < best_ask e"
  proof (cases "best_bid e = 0 \<or> best_ask e = 100")
    case True
    have "G Asks 0 = []" using rep_price(2) [OF G(3), of Asks 0] by (simp add: word_le_nat_alt) blast
    then have "1 \<le> best_ask e" using best_ask_pos G(1) unfolding eng_ok_def best_ask_def by blast
    then show ?thesis using True bb(1) by (auto simp: word_le_nat_alt word_less_nat_alt)
  next
    case False
    then show ?thesis using bb(2) ba(1) book_ok_uncrossed [OF G(4)] by blast
  qed
  moreover have "\<exists>d. depth_at e sd p = Some d \<and> unat d = (\<Sum>a\<leftarrow>book_of e (own_wall sd) p. unat (ao_qty a))" for sd p
  proof (cases "1 \<le> p \<and> p \<le> 99")
    case True
    then have "unat p < num_levels" by (simp add: word_le_nat_alt num_levels_def)
    then have "depth_at e sd p = Some (total_qty (mk_level (G (own_wall sd) p)))"
      using True rep_levels [OF G(3)] by (cases sd) (auto simp: depth_at_def)
    then show ?thesis using level_total(2) [OF G(3) bk] by (simp add: G(2))
  next
    case False
    then have "book_of e (own_wall sd) p = []" using rep_price(2,3) [OF G(3)] by (auto simp: G(2) gbook_def)
    moreover have "depth_at e sd p = Some 0" using False by (auto simp: depth_at_def not_le)
    ultimately show ?thesis by simp
  qed
  ultimately show ?thesis using bb(2,3) ba by (metis not_le)
qed

theorem engine_quotes_exact_witness:
  "\<exists>e. eng_reach e \<and> book_of e = bid_book \<and> best_bid e = 40 \<and> best_ask e = 100 \<and> map_option unat (depth_at e YES 40) = Some 10"
proof -
  obtain e where e: "eng_reach e" "book_of e = bid_book" using demo_bid by blast
  note Q = engine_quotes_exact [OF e(1), unfolded e(2)]
  have b: "bid_book Bids p \<noteq> [] \<longleftrightarrow> p = 40" "bid_book Asks p = []" for p by (simp_all add: bid_book_def)
  have "40 \<le> best_bid e" using Q b by blast
  then have "best_bid e \<noteq> 0" by (auto simp: word_le_nat_alt)
  then have "best_bid e = 40" "best_ask e = 100" using Q b by blast+
  moreover obtain d where "depth_at e YES 40 = Some d" "unat d = (\<Sum>a\<leftarrow>bid_book (own_wall YES) 40. unat (ao_qty a))"
    using Q by blast
  then have "map_option unat (depth_at e YES 40) = Some 10" by (simp add: bid_book_def)
  ultimately show ?thesis using e by blast
qed

section \<open>Conservation and priority\<close>

lemma sum_at_price:
  assumes "finite P" "fst ` set xs \<subseteq> P"
  shows "(\<Sum>p\<in>P. \<Sum>a\<leftarrow>at_price xs p. f a) = (\<Sum>x\<leftarrow>xs. f (snd x) :: nat)"
  using assms
proof (induction xs)
  case (Cons x xs)
  have "(\<Sum>p\<in>P. \<Sum>a\<leftarrow>at_price (x # xs) p. f a) = (\<Sum>p\<in>P. (if p = fst x then f (snd x) else 0) + (\<Sum>a\<leftarrow>at_price xs p. f a))"
    by (rule sum.cong) (cases x; auto)+
  then show ?case using Cons by (simp add: sum.distrib sum.delta')
qed simp

lemma fst_leftover: "fst ` set (leftover q xs) \<subseteq> fst ` set xs"
  using leftover_member by force

text \<open>The quantity resting at a set of prices.\<close>

definition resting :: "(u8 \<Rightarrow> aorder list) \<Rightarrow> u8 set \<Rightarrow> nat" where
  "resting L P = (\<Sum>p\<in>P. \<Sum>a\<leftarrow>L p. unat (ao_qty a))"

lemma resting_queue: "distinct ps \<Longrightarrow> resting L (set ps) = (\<Sum>x\<leftarrow>queue L ps. unat (ao_qty (snd x)))"
proof -
  assume d: "distinct ps"
  have "resting L (set ps) = (\<Sum>p\<in>set ps. \<Sum>a\<leftarrow>at_price (queue L ps) p. unat (ao_qty a))"
    unfolding resting_def by (rule sum.cong) (simp_all add: at_price_queue [OF d])
  also have "\<dots> = (\<Sum>x\<leftarrow>queue L ps. unat (ao_qty (snd x)))"
    by (rule sum_at_price) (auto simp: queue_def)
  finally show ?thesis .
qed

lemma resting_traded:
  assumes "distinct ps"
  shows "resting (traded_wall L ps q) (set ps) + (\<Sum>f\<leftarrow>consume t ts q (queue L ps). unat (fill_qty f)) = resting L (set ps)"
proof -
  have "fst ` set (leftover q (queue L ps)) \<subseteq> set ps" using fst_leftover [of q "queue L ps"] by (auto simp: queue_def)
  from sum_at_price [OF _ this, of "\<lambda>a. unat (ao_qty a)"]
  have "resting (traded_wall L ps q) (set ps) = (\<Sum>x\<leftarrow>leftover q (queue L ps). unat (ao_qty (snd x)))"
    by (simp add: resting_def traded_wall_def)
  then show ?thesis using leftover_conserves [of t ts q "queue L ps"] resting_queue [OF assms, of L] by simp
qed

lemma consume_member:
  "f \<in> set (consume t ts q xs) \<Longrightarrow> taker_order_id f = t \<and> fill_ts f = ts \<and>
    (\<exists>a. (fill_price f, a) \<in> set xs \<and> maker_order_id f = ao_id a \<and> fill_qty f \<le> ao_qty a \<and> (0 < ao_qty a \<longrightarrow> 0 < fill_qty f))"
proof (induction t ts q xs rule: consume.induct)
  case (2 t ts q p a xs)
  show ?case
  proof (cases "f \<in> set (consume t ts (q - ao_qty a) xs) \<and> q \<noteq> 0 \<and> ao_qty a \<le> q")
    case True
    then show ?thesis using "2.IH" by auto
  next
    case False
    then have "f = mk_fill t ts p a (ao_qty a) \<or> f = mk_fill t ts p a q \<and> q \<noteq> 0 \<and> \<not> ao_qty a \<le> q"
      using "2.prems" by (auto split: if_splits)
    then show ?thesis by (auto simp: word_neq_0_conv)
  qed
qed simp

text \<open>
  (C19) Conservation: an accepted order is split exactly into its fills and its resting part; the
  quantity resting on the other side at crossing prices falls by exactly what was filled; every
  fill names this order as taker, has a positive quantity, and is at a price within the limit
  (at most the bid for a buyer, at least the ask for a seller).
\<close>

theorem place_limit_conserves:
  assumes "eng_reach e" "qty \<le> max_order_qty" "next_order_id e \<noteq> EMPTY"
    "place_limit ts client sd price qty e = Some (r, e')" "accepted r"
  shows "(\<Sum>f\<leftarrow>res_fills r. unat (fill_qty f)) + unat (qty_resting r) = unat qty \<and>
    resting (book_of e' (opp_wall sd)) (set (crossing sd price)) + (\<Sum>f\<leftarrow>res_fills r. unat (fill_qty f)) =
      resting (book_of e (opp_wall sd)) (set (crossing sd price)) \<and>
    (\<forall>f\<in>set (res_fills r). taker_order_id f = res_order_id r \<and> 0 < fill_qty f \<and>
       (case sd of YES \<Rightarrow> fill_price f \<le> price | NO \<Rightarrow> price \<le> fill_price f))"
proof -
  let ?L = "book_of e (opp_wall sd)" and ?ps = "crossing sd price"
  obtain G where G: "eng_ok e G" "book_of e = gbook G" "rep e G {}" "book_ok (book_of e) (next_order_id e)"
    using eng_reach_book [OF assms(1)] .
  note A = place_reach_accepted [OF assms]
  note pr = A(1,2)
  have "resting (book_of e' (opp_wall sd)) (set ?ps) + (\<Sum>f\<leftarrow>res_fills r. unat (fill_qty f)) = resting ?L (set ?ps)"
    using resting_traded [OF distinct_crossing [OF pr(2), of sd], of ?L qty "next_order_id e" ts] A by simp
  moreover have "taker_order_id f = res_order_id r \<and> 0 < fill_qty f \<and>
      (case sd of YES \<Rightarrow> fill_price f \<le> price | NO \<Rightarrow> price \<le> fill_price f)" if f: "f \<in> set (res_fills r)" for f
  proof -
    obtain a where a: "taker_order_id f = next_order_id e" "(fill_price f, a) \<in> set (queue ?L ?ps)"
      "0 < ao_qty a \<longrightarrow> 0 < fill_qty f"
      using consume_member [of f "next_order_id e" ts qty "queue ?L ?ps"] f A(4) by auto
    then have "fill_price f \<in> set ?ps" "a \<in> set (?L (fill_price f))" by (simp_all add: in_queue)
    then show ?thesis using a(1,3) book_okD(3) [OF G(4)] A(3) set_crossing [OF pr] by (cases sd) auto
  qed
  ultimately show ?thesis using consume_conserves [of "next_order_id e" ts qty "queue ?L ?ps"] A by simp
qed

theorem place_limit_conserves_witness:
  "\<exists>e r e'. eng_reach e \<and> book_of e = bid_book \<and> place_limit 9 1 NO 40 15 e = Some (r, e') \<and>
     length (res_fills r) = 1 \<and> (\<Sum>f\<leftarrow>res_fills r. unat (fill_qty f)) + unat (qty_resting r) = 15"
proof -
  obtain e where e: "eng_reach e" "next_order_id e = 2" "book_of e = bid_book" using demo_bid by blast
  have q: "(15 :: u32) \<le> max_order_qty" "next_order_id e \<noteq> EMPTY" by (simp_all add: max_order_qty_def EMPTY_def e(2))
  obtain r e' where P: "place_limit 9 1 NO 40 15 e = Some (r, e')"
    "(r, book_of e') = place_spec 2 9 1 NO 40 15 bid_book" using place_reach [OF e(1) q, of 9 1 NO 40] e(2,3) by metis
  have acc: "accepted r" using P(2) bid_book_accepts by (auto simp: place_spec_def Let_def)
  have "length (consume 2 9 15 (queue (bid_book Bids) (crossing NO 40))) = 1" by code_simp
  then have "length (res_fills r) = 1" using P(2) by (simp add: place_spec_accept [OF bid_book_accepts])
  moreover have "(\<Sum>f\<leftarrow>res_fills r. unat (fill_qty f)) + unat (qty_resting r) = 15"
    using place_limit_conserves [OF e(1) q P(1) acc] by simp
  ultimately show ?thesis using e P(1) by blast
qed

text \<open>Priority among the resting orders an incoming order crosses.\<close>

definition has_priority :: "side \<Rightarrow> u8 \<times> aorder \<Rightarrow> u8 \<times> aorder \<Rightarrow> bool" where
  "has_priority sd x y \<longleftrightarrow> (case sd of YES \<Rightarrow> fst x < fst y | NO \<Rightarrow> fst y < fst x) \<or>
     fst x = fst y \<and> ao_id (snd x) < ao_id (snd y)"

lemma sorted_queue:
  assumes "sorted_wrt R ps" "\<And>p. sorted_wrt (<) (map ao_id (L p))"
    "\<And>p q. R p q \<Longrightarrow> (case sd of YES \<Rightarrow> p < q | NO \<Rightarrow> q < p)"
  shows "sorted_wrt (has_priority sd) (queue L ps)"
  using assms(1)
proof (induction ps)
  case (Cons p ps)
  have "sorted_wrt (has_priority sd) (map (Pair p) (L p))"
    using assms(2) [of p] by (cases sd) (simp_all add: sorted_wrt_map has_priority_def)
  moreover have "has_priority sd (p, a) y" if "y \<in> set (queue L ps)" for a y
  proof -
    have "fst y \<in> set ps" using that in_queue [of "fst y" "snd y" L ps] by simp
    then have "R p (fst y)" using Cons.prems by simp
    from assms(3) [OF this] show ?thesis by (cases sd) (simp_all add: has_priority_def)
  qed
  ultimately show ?case using Cons by (auto simp: sorted_wrt_append)
qed simp

lemma sorted_of_nat_u8: "n \<le> 256 \<Longrightarrow> sorted_wrt (<) (map of_nat [m..<n] :: u8 list)"
  by (auto simp: sorted_wrt_iff_nth_less word_less_nat_alt unat_of_nat_u8 simp del: of_nat_add)

lemma sorted_crossing_queue:
  assumes "book_ok B nid" "price \<le> 99"
  shows "sorted_wrt (has_priority sd) (queue (B (opp_wall sd)) (crossing sd price))"
proof (cases sd)
  case YES
  have "unat price \<le> 99" using assms(2) by (simp add: word_le_nat_alt)
  then have "sorted_wrt (<) (crossing YES price)" using sorted_of_nat_u8 [of "Suc (unat price)" 1] by (simp del: upt_Suc)
  then show ?thesis unfolding YES by (rule sorted_queue) (simp_all add: book_ok_sorted [OF assms(1)])
next
  case NO
  have "sorted_wrt (>) (crossing NO price)" using sorted_of_nat_u8 [of 100 "unat price"] by (simp add: sorted_wrt_rev)
  then show ?thesis unfolding NO by (rule sorted_queue) (simp_all add: book_ok_sorted [OF assms(1)])
qed

lemma consume_prefix:
  "\<exists>n \<le> length xs. length (consume t ts q xs) = n \<and>
     (\<forall>i<n. fill_price (consume t ts q xs ! i) = fst (xs ! i) \<and> maker_order_id (consume t ts q xs ! i) = ao_id (snd (xs ! i))) \<and>
     (\<forall>i. Suc i < n \<longrightarrow> fill_qty (consume t ts q xs ! i) = ao_qty (snd (xs ! i))) \<and> (unfilled q xs \<noteq> 0 \<longrightarrow> n = length xs)"
proof (induction t ts q xs rule: consume.induct)
  case (2 t ts q p a xs)
  show ?case
  proof (cases "q \<noteq> 0 \<and> ao_qty a \<le> q")
    case True
    then obtain n where n: "n \<le> length xs" "length (consume t ts (q - ao_qty a) xs) = n"
      "\<forall>i<n. fill_price (consume t ts (q - ao_qty a) xs ! i) = fst (xs ! i) \<and>
         maker_order_id (consume t ts (q - ao_qty a) xs ! i) = ao_id (snd (xs ! i))"
      "\<forall>i. Suc i < n \<longrightarrow> fill_qty (consume t ts (q - ao_qty a) xs ! i) = ao_qty (snd (xs ! i))"
      "unfilled (q - ao_qty a) xs \<noteq> 0 \<longrightarrow> n = length xs" using 2 by blast
    then show ?thesis using True by (intro exI [of _ "Suc n"]) (auto simp: less_Suc_eq_0_disj nth_Cons')
  next
    case False
    then show ?thesis by (intro exI [of _ "if q = 0 then 0 else 1"]) auto
  qed
qed simp

text \<open>
  (C18) Price-time priority: the resting orders that an accepted order crosses are ordered by better
  price and then by age; the fills hit a prefix of that order, one fill per maker, every maker
  before the last is filled completely, and the order rests only if every crossing order was hit.
\<close>

theorem place_limit_priority:
  assumes "eng_reach e" "qty \<le> max_order_qty" "next_order_id e \<noteq> EMPTY"
    "place_limit ts client sd price qty e = Some (r, e')" "accepted r"
  defines "xs \<equiv> queue (book_of e (opp_wall sd)) (crossing sd price)" and "n \<equiv> length (res_fills r)"
  shows "sorted_wrt (has_priority sd) xs \<and> n \<le> length xs \<and>
    (\<forall>i<n. fill_price (res_fills r ! i) = fst (xs ! i) \<and> maker_order_id (res_fills r ! i) = ao_id (snd (xs ! i))) \<and>
    (\<forall>i. Suc i < n \<longrightarrow> fill_qty (res_fills r ! i) = ao_qty (snd (xs ! i))) \<and>
    (qty_resting r \<noteq> 0 \<longrightarrow> n = length xs)"
proof -
  note A = place_reach_accepted [OF assms(1-5)]
  obtain G where "book_ok (book_of e) (next_order_id e)" using eng_reach_book [OF assms(1)] by blast
  from sorted_crossing_queue [OF this A(2), of sd] show ?thesis
    using consume_prefix [of xs "next_order_id e" ts qty] A(4,5) by (auto simp: xs_def n_def)
qed

theorem place_limit_priority_witness:
  "\<exists>e r e'. eng_reach e \<and> book_of e = bid_book \<and> place_limit 9 1 NO 40 15 e = Some (r, e') \<and>
     length (res_fills r) = 1 \<and> maker_order_id (res_fills r ! 0) = 1"
proof -
  obtain e where e: "eng_reach e" "next_order_id e = 2" "book_of e = bid_book" using demo_bid by blast
  have q: "(15 :: u32) \<le> max_order_qty" "next_order_id e \<noteq> EMPTY" by (simp_all add: max_order_qty_def EMPTY_def e(2))
  obtain r e' where P: "place_limit 9 1 NO 40 15 e = Some (r, e')"
    "(r, book_of e') = place_spec 2 9 1 NO 40 15 bid_book" using place_reach [OF e(1) q, of 9 1 NO 40] e(2,3) by metis
  have acc: "accepted r" using P(2) bid_book_accepts by (auto simp: place_spec_def Let_def)
  have x: "queue (bid_book Bids) (crossing NO 40) = [(40, \<lparr>ao_id = 1, ao_client = 1, ao_qty = 10, ao_ts = 7\<rparr>)]" by code_simp
  have "length (consume 2 9 15 (queue (bid_book Bids) (crossing NO 40))) = 1" by code_simp
  then have "length (res_fills r) = 1" using P(2) by (simp add: place_spec_accept [OF bid_book_accepts])
  then show ?thesis using place_limit_priority [OF e(1) q P(1) acc] e P(1) x by auto
qed

text \<open>
  (C38) The index reserves the key \<open>2^64 - 1\<close>, and \<open>cancel\<close> does not check for it: cancelling that id in
  a new engine finds an empty slot, takes the null pointer stored there for an order, and follows it.
\<close>

theorem cancel_reserved_id_undefined:
  "cancel EMPTY client demo_engine = None"
proof -
  let ?sl = "replicate (unat index_capacity) \<lparr>slot_key = EMPTY, slot_value = 0 :: ptr\<rparr>"
  let ?p = "fhm_hash EMPTY AND fhm_mask index_capacity"
  have o': "eng_orders demo_engine = \<lparr>fm_slots = ?sl, fm_size = 0\<rparr>"
    by (simp add: demo_engine_def MatchingEngine_new_def Pool_new_def FlatHashMap_new_def Let_def)
  have p: "unat ?p < unat index_capacity"
    unfolding fhm_mask_def unat_and_mask [OF cap_ok_index] using cap_ok_pos [OF cap_ok_index] by simp
  have "find_loop index_capacity ?sl EMPTY ?p 0 = Some ?p" using p by (subst find_loop.simps) simp
  then show ?thesis using p by (simp add: cancel_def fhm_find_def o' deref_def)
qed

end
