(* ===== verification/Feed_Parser.thy ===== *)
theory Feed_Parser
  imports Prelude "HOL-Library.Monad_Syntax"
begin

text \<open>
  The parser of order book deltas, \<open>src/feed/parser.h\<close> and \<open>src/feed/parser.cpp\<close>. The JSON
  library is a parameter: a record of the lookups the code makes, each of which may fail. Signed
  integers are \<open>int\<close>, with the range of their C++ type as part of the well-formedness of a delta.
\<close>

section \<open>Data\<close>

datatype feed_side = FYes | FNo

record orderbook_delta =
  d_ticker :: "char list"
  d_ts :: int
  d_sid :: u64
  d_seq :: u64
  d_delta :: int
  d_price :: u8
  d_side :: feed_side

text \<open>
  What the code asks of \<open>simdjson\<close>: opening a document, and looking up a field of a document or of
  an object as an unsigned or signed 64-bit number, a string or an object.
\<close>

record ('d, 'o) simdjson =
  sj_iterate :: "char list \<Rightarrow> 'd option"
  doc_u64 :: "'d \<Rightarrow> char list \<Rightarrow> u64 option"
  doc_object :: "'d \<Rightarrow> char list \<Rightarrow> 'o option"
  obj_string :: "'o \<Rightarrow> char list \<Rightarrow> char list option"
  obj_u64 :: "'o \<Rightarrow> char list \<Rightarrow> u64 option"
  obj_i64 :: "'o \<Rightarrow> char list \<Rightarrow> int option"

definition INT32_MIN :: int where "INT32_MIN = - (2 ^ 31)"
definition INT32_MAX :: int where "INT32_MAX = 2 ^ 31 - 1"

text \<open>\<open>static_cast<int32_t>\<close> of a 64-bit value, and \<open>static_cast<uint8_t>\<close>.\<close>

definition to_int32 :: "int \<Rightarrow> int" where
  "to_int32 x = sint (word_of_int x :: 32 word)"

definition to_uint8 :: "u64 \<Rightarrow> u8" where
  "to_uint8 x = ucast x"

text \<open>\<open>memcpy\<close> of the ticker into the fixed array and its terminating NUL.\<close>

definition copy_ticker :: "char list \<Rightarrow> char list \<Rightarrow> char list" where
  "copy_ticker sv old = (sv @ drop (length sv) old)[length sv := CHR 0x00]"

section \<open>The parser\<close>

text \<open>
  The result is the returned flag and the output structure, which keeps the fields written before
  a failure.
\<close>

definition parse_orderbook_delta ::
  "('d, 'o) simdjson \<Rightarrow> char list \<Rightarrow> orderbook_delta \<Rightarrow> bool \<times> orderbook_delta" where
  "parse_orderbook_delta sj input out =
    (case sj_iterate sj input of None \<Rightarrow> (False, out) | Some doc \<Rightarrow>
     case doc_u64 sj doc ''sid'' of None \<Rightarrow> (False, out) | Some sid \<Rightarrow>
     let out = out\<lparr>d_sid := sid\<rparr> in
     case doc_u64 sj doc ''seq'' of None \<Rightarrow> (False, out) | Some seq \<Rightarrow>
     let out = out\<lparr>d_seq := seq\<rparr> in
     case doc_object sj doc ''msg'' of None \<Rightarrow> (False, out) | Some msg \<Rightarrow>
     case obj_string sj msg ''market_ticker'' of None \<Rightarrow> (False, out) | Some ticker_sv \<Rightarrow>
     if length ticker_sv > 31 then (False, out)
     else let out = out\<lparr>d_ticker := copy_ticker ticker_sv (d_ticker out)\<rparr> in
     case obj_u64 sj msg ''price'' of None \<Rightarrow> (False, out) | Some price_raw \<Rightarrow>
     if price_raw < 1 \<or> price_raw > 99 then (False, out)
     else let out = out\<lparr>d_price := to_uint8 price_raw\<rparr> in
     case obj_i64 sj msg ''delta'' of None \<Rightarrow> (False, out) | Some delta_raw \<Rightarrow>
     if delta_raw < INT32_MIN \<or> delta_raw > INT32_MAX then (False, out)
     else let out = out\<lparr>d_delta := to_int32 delta_raw\<rparr> in
     case obj_i64 sj msg ''ts'' of None \<Rightarrow> (False, out) | Some ts \<Rightarrow>
     let out = out\<lparr>d_ts := ts\<rparr> in
     case obj_string sj msg ''side'' of None \<Rightarrow> (False, out) | Some side_sv \<Rightarrow>
     if side_sv = ''yes'' then (True, out\<lparr>d_side := FYes\<rparr>)
     else if side_sv = ''no'' then (True, out\<lparr>d_side := FNo\<rparr>)
     else (False, out))"

section \<open>What a parsed delta is\<close>

text \<open>The C string in a fixed array, as \<open>strlen\<close> and \<open>strnlen\<close> see it.\<close>

definition c_string :: "char list \<Rightarrow> char list" where
  "c_string cs = takeWhile (\<lambda>c. c \<noteq> CHR 0x00) cs"

definition delta_wf :: "orderbook_delta \<Rightarrow> bool" where
  "delta_wf d \<longleftrightarrow> length (d_ticker d) = 32 \<and> CHR 0x00 \<in> set (d_ticker d) \<and>
     1 \<le> d_price d \<and> d_price d \<le> 99 \<and> INT32_MIN \<le> d_delta d \<and> d_delta d \<le> INT32_MAX"

text \<open>The message a document holds, when every lookup succeeds and every value is in range.\<close>

definition message_of :: "('d, 'o) simdjson \<Rightarrow> char list \<Rightarrow> (u64 \<times> u64 \<times> char list \<times> u64 \<times> int \<times> int \<times> feed_side) option" where
  "message_of sj input = do {
     doc \<leftarrow> sj_iterate sj input;
     sid \<leftarrow> doc_u64 sj doc ''sid'';
     seq \<leftarrow> doc_u64 sj doc ''seq'';
     msg \<leftarrow> doc_object sj doc ''msg'';
     ticker \<leftarrow> obj_string sj msg ''market_ticker'';
     price \<leftarrow> obj_u64 sj msg ''price'';
     delta \<leftarrow> obj_i64 sj msg ''delta'';
     ts \<leftarrow> obj_i64 sj msg ''ts'';
     side_sv \<leftarrow> obj_string sj msg ''side'';
     sd \<leftarrow> (if side_sv = ''yes'' then Some FYes else if side_sv = ''no'' then Some FNo else None);
     if length ticker \<le> 31 \<and> 1 \<le> price \<and> price \<le> 99 \<and> INT32_MIN \<le> delta \<and> delta \<le> INT32_MAX
     then Some (sid, seq, ticker, price, delta, ts, sd) else None
   }"

lemma to_int32_id: "INT32_MIN \<le> x \<Longrightarrow> x \<le> INT32_MAX \<Longrightarrow> to_int32 x = x"
  by (simp add: to_int32_def INT32_MIN_def INT32_MAX_def signed_of_int signed_take_bit_int_eq_self)

lemma to_uint8_id: "x \<le> 99 \<Longrightarrow> unat (to_uint8 x) = unat x"
proof -
  assume "x \<le> 99"
  then have "unat x \<le> 99" by (simp add: word_le_nat_alt)
  then show ?thesis by (simp add: to_uint8_def unsigned_ucast_eq take_bit_nat_eq_self)
qed

lemma copy_ticker_length: "length sv \<le> 31 \<Longrightarrow> length old = 32 \<Longrightarrow> length (copy_ticker sv old) = 32"
  by (simp add: copy_ticker_def)

lemma copy_ticker_string:
  assumes "length sv \<le> 31" "length old = 32" "CHR 0x00 \<notin> set sv"
  shows "c_string (copy_ticker sv old) = sv"
proof -
  have "copy_ticker sv old = sv @ CHR 0x00 # drop (Suc (length sv)) old"
    using assms by (simp add: copy_ticker_def list_update_append Cons_nth_drop_Suc [symmetric] del: drop_Suc)
  moreover have "\<forall>c\<in>set sv. c \<noteq> CHR 0x00" using assms(3) by metis
  ultimately show ?thesis by (simp add: c_string_def takeWhile_append2)
qed

lemma copy_ticker_nul: "length sv \<le> 31 \<Longrightarrow> length old = 32 \<Longrightarrow> CHR 0x00 \<in> set (copy_ticker sv old)"
  by (simp add: copy_ticker_def set_update_memI)

lemmas parser_defs = parse_orderbook_delta_def message_of_def Let_def

lemma parse_Some:
  assumes "message_of sj input = Some (sid, seq, ticker, price, delta, ts, sd)"
  shows "parse_orderbook_delta sj input out = (True,
    \<lparr>d_ticker = copy_ticker ticker (d_ticker out), d_ts = ts, d_sid = sid, d_seq = seq, d_delta = delta,
     d_price = to_uint8 price, d_side = sd\<rparr>)"
  using assms
  by (auto simp: parser_defs to_int32_id not_less bind_eq_Some_conv split: if_splits)

lemma parse_None: "message_of sj input = None \<Longrightarrow> \<not> fst (parse_orderbook_delta sj input out)"
  by (auto simp: parser_defs not_less not_le bind_eq_None_conv split: option.splits if_splits)

text \<open>
  (C24) The parser accepts exactly the messages in which every field is present and in range, and then
  the output is that message: the ticker is the string of the array (terminated inside its 32
  bytes), the price is between 1 and 99, and the two narrowing casts lose nothing.
\<close>

theorem parse_orderbook_delta_correct:
  assumes "length (d_ticker out) = 32"
  shows "case message_of sj input of
      None \<Rightarrow> \<not> fst (parse_orderbook_delta sj input out)
    | Some (sid, seq, ticker, price, delta, ts, sd) \<Rightarrow>
        (\<exists>d. parse_orderbook_delta sj input out = (True, d) \<and> delta_wf d \<and> d_sid d = sid \<and> d_seq d = seq \<and>
           unat (d_price d) = unat price \<and> d_delta d = delta \<and> d_ts d = ts \<and> d_side d = sd \<and>
           (CHR 0x00 \<notin> set ticker \<longrightarrow> c_string (d_ticker d) = ticker))"
proof (cases "message_of sj input")
  case None
  then show ?thesis using parse_None by simp
next
  case (Some m)
  obtain sid seq ticker price delta ts sd where m: "m = (sid, seq, ticker, price, delta, ts, sd)" by (cases m)
  have r: "length ticker \<le> 31" "1 \<le> price" "price \<le> 99" "INT32_MIN \<le> delta" "delta \<le> INT32_MAX"
    using Some unfolding m by (auto simp: message_of_def bind_eq_Some_conv split: if_splits)
  have "unat (to_uint8 price) = unat price" using to_uint8_id [OF r(3)] .
  then have "1 \<le> to_uint8 price \<and> to_uint8 price \<le> 99" using r(2,3) by (simp add: word_le_nat_alt)
  then show ?thesis
    using Some m parse_Some [OF Some [unfolded m], of out] assms r \<open>unat (to_uint8 price) = unat price\<close>
    by (simp add: delta_wf_def copy_ticker_length copy_ticker_nul copy_ticker_string)
qed

text \<open>A library instance that returns one fixed message, to apply the property to.\<close>

definition demo_json :: "(unit, unit) simdjson" where
  "demo_json = \<lparr>sj_iterate = \<lambda>_. Some (), doc_u64 = \<lambda>_ k. Some 7, doc_object = \<lambda>_ _. Some (),
     obj_string = \<lambda>_ k. Some (if k = ''side'' then ''no'' else ''MKT-001''),
     obj_u64 = \<lambda>_ _. Some 42, obj_i64 = \<lambda>_ k. Some (if k = ''delta'' then - 5 else 1000)\<rparr>"

definition blank_delta :: orderbook_delta where
  "blank_delta = \<lparr>d_ticker = replicate 32 (CHR 0x00), d_ts = 0, d_sid = 0, d_seq = 0, d_delta = 0, d_price = 0, d_side = FYes\<rparr>"

theorem parse_orderbook_delta_correct_witness:
  "\<exists>d. parse_orderbook_delta demo_json [] blank_delta = (True, d) \<and> d_delta d = - 5 \<and> unat (d_price d) = 42 \<and>
     d_side d = FNo \<and> c_string (d_ticker d) = ''MKT-001''"
proof -
  have "message_of demo_json [] = Some (7, 7, ''MKT-001'', 42, - 5, 1000, FNo)"
    by (simp add: message_of_def demo_json_def INT32_MIN_def INT32_MAX_def)
  moreover have "length (d_ticker blank_delta) = 32" by (simp add: blank_delta_def)
  ultimately show ?thesis using parse_orderbook_delta_correct [of blank_delta demo_json "[]"] by auto
qed

end
