(* ===== verification/Feed_Book.thy ===== *)
theory Feed_Book
  imports Feed_Parser
begin

text \<open>
  The flat-array order book of \<open>src/feed/book.h\<close> and \<open>src/feed/book.cpp\<close>: one signed 32-bit
  quantity per price and side, and the best bid of each side kept up to date by every delta. The
  result \<open>None\<close> is an index outside the array or an overflow of the signed addition.
\<close>

section \<open>The class\<close>

record feed_book =
  yes_levels :: "int list"
  no_levels :: "int list"
  fb_best_yes :: u8
  fb_best_no :: u8

definition Book_new :: feed_book where
  "Book_new = \<lparr>yes_levels = replicate 100 0, no_levels = replicate 100 0, fb_best_yes = 0, fb_best_no = 0\<rparr>"

definition side_levels :: "feed_book \<Rightarrow> feed_side \<Rightarrow> int list" where
  "side_levels b s = (case s of FYes \<Rightarrow> yes_levels b | FNo \<Rightarrow> no_levels b)"

definition side_best :: "feed_book \<Rightarrow> feed_side \<Rightarrow> u8" where
  "side_best b s = (case s of FYes \<Rightarrow> fb_best_yes b | FNo \<Rightarrow> fb_best_no b)"

definition set_side :: "feed_side \<Rightarrow> int list \<Rightarrow> u8 \<Rightarrow> feed_book \<Rightarrow> feed_book" where
  "set_side s ls best b = (case s of
     FYes \<Rightarrow> b\<lparr>yes_levels := ls, fb_best_yes := best\<rparr> | FNo \<Rightarrow> b\<lparr>no_levels := ls, fb_best_no := best\<rparr>)"

text \<open>The loop that looks for the next best price below.\<close>

function rescan :: "int list \<Rightarrow> u8 \<Rightarrow> u8 option" where
  "rescan ls best =
    (if best = 0 then Some best
     else if unat best \<ge> length ls then None
     else if ls ! unat best = 0 then rescan ls (best - 1)
     else Some best)"
  by pat_completeness auto
termination
  by (relation "measure (\<lambda>(ls, best). unat best)") (use unat_step_down [of _ 0] in auto)

declare rescan.simps [simp del]

definition book_apply :: "orderbook_delta \<Rightarrow> feed_book \<Rightarrow> feed_book option" where
  "book_apply d b =
    (let ls = side_levels b (d_side d);
         best = side_best b (d_side d);
         i = unat (d_price d)
     in if i \<ge> length ls then None
        else
          let v = ls ! i + d_delta d
          in if v < INT32_MIN \<or> v > INT32_MAX then None
             else
               let ls = ls[i := v]
               in if v > 0 \<and> d_price d > best then Some (set_side (d_side d) ls (d_price d) b)
                  else if d_price d = best \<and> v = 0 then
                    map_option (\<lambda>best. set_side (d_side d) ls best b) (rescan ls best)
                  else Some (set_side (d_side d) ls best b))"

definition best_yes_bid :: "feed_book \<Rightarrow> u8" where "best_yes_bid b = fb_best_yes b"

definition best_no_bid :: "feed_book \<Rightarrow> u8" where "best_no_bid b = fb_best_no b"

definition qty_at :: "feed_book \<Rightarrow> feed_side \<Rightarrow> u8 \<Rightarrow> int option" where
  "qty_at b s price =
    (if unat price < length (side_levels b s) then Some (side_levels b s ! unat price) else None)"

lemma set_side_sel [simp]:
  "side_levels (set_side s ls best b) s' = (if s' = s then ls else side_levels b s')"
  "side_best (set_side s ls best b) s' = (if s' = s then best else side_best b s')"
  by (cases s; cases s'; simp add: side_levels_def side_best_def set_side_def)+

section \<open>Invariant\<close>

text \<open>The best bid of a side is its highest price with a quantity, or 0.\<close>

definition best_exact :: "int list \<Rightarrow> u8 \<Rightarrow> bool" where
  "best_exact ls best \<longleftrightarrow> unat best < length ls \<and> (best = 0 \<or> ls ! unat best > 0) \<and>
     (\<forall>i. unat best < i \<longrightarrow> i < length ls \<longrightarrow> ls ! i = 0)"

definition side_inv :: "int list \<Rightarrow> u8 \<Rightarrow> bool" where
  "side_inv ls best \<longleftrightarrow> length ls = 100 \<and> ls ! 0 = 0 \<and> (\<forall>i<100. 0 \<le> ls ! i \<and> ls ! i \<le> INT32_MAX) \<and> best_exact ls best"

definition book_inv :: "feed_book \<Rightarrow> bool" where
  "book_inv b \<longleftrightarrow> (\<forall>s. side_inv (side_levels b s) (side_best b s))"

lemma book_new_inv: "book_inv Book_new"
proof -
  have "side_inv (replicate 100 0) 0" by (simp add: side_inv_def best_exact_def INT32_MAX_def)
  then show ?thesis by (auto simp: book_inv_def Book_new_def side_levels_def side_best_def split: feed_side.splits)
qed

lemma rescan_exact:
  assumes "unat best < length ls" "\<And>i. unat best < i \<Longrightarrow> i < length ls \<Longrightarrow> ls ! i = 0" "\<And>i. i < length ls \<Longrightarrow> 0 \<le> ls ! i"
  shows "\<exists>b. rescan ls best = Some b \<and> best_exact ls b"
  using assms
proof (induction ls best rule: rescan.induct)
  case (1 ls best)
  show ?case
  proof (cases "best \<noteq> 0 \<and> ls ! unat best = 0")
    case True
    then have s: "unat (best - 1) < unat best" "Suc (unat (best - 1)) = unat best"
      using unat_step_down [of best 0] unat_sub [of 1 best] by (auto simp: word_le_nat_alt unat_gt_0)
    have "\<exists>b. rescan ls (best - 1) = Some b \<and> best_exact ls b"
    proof (rule "1.IH")
      fix i assume "unat (best - 1) < i" "i < length ls"
      then show "ls ! i = 0" using True "1.prems"(2) s by (cases "i = unat best") auto
    qed (use True s "1.prems" in auto)
    then show ?thesis using True "1.prems"(1) by (subst rescan.simps) auto
  next
    case False
    then have "rescan ls best = Some best" using "1.prems"(1) by (subst rescan.simps) auto
    moreover have "0 < ls ! unat best \<or> best = 0" using False "1.prems"(1) "1.prems"(3) [of "unat best"] by force
    ultimately show ?thesis using "1.prems"(1,2) by (auto simp: best_exact_def)
  qed
qed

lemma side_apply:
  assumes "side_inv ls best" "1 \<le> p" "p \<le> 99" "0 \<le> ls ! unat p + x" "ls ! unat p + x \<le> INT32_MAX"
  defines "ls' \<equiv> ls[unat p := ls ! unat p + x]"
  shows "\<exists>best'. (if ls' ! unat p > 0 \<and> p > best then Some p
      else if p = best \<and> ls' ! unat p = 0 then rescan ls' best else Some best) = Some best' \<and> side_inv ls' best'"
proof -
  have p: "unat p < 100" "unat p \<noteq> 0" using assms(2,3) by (simp_all add: word_le_nat_alt)
  have L: "length ls = 100" "length ls' = 100" "ls' ! unat p = ls ! unat p + x"
    "\<And>i. i \<noteq> unat p \<Longrightarrow> ls' ! i = ls ! i" using assms(1) p by (auto simp: side_inv_def ls'_def)
  have basic: "ls' ! 0 = 0" "\<And>i. i < 100 \<Longrightarrow> 0 \<le> ls' ! i \<and> ls' ! i \<le> INT32_MAX"
    using assms(1,4,5) p L by (auto simp: side_inv_def ls'_def nth_list_update)
  have be: "unat best < 100" "best = 0 \<or> 0 < ls ! unat best" "\<And>i. unat best < i \<Longrightarrow> i < 100 \<Longrightarrow> ls ! i = 0"
    using assms(1) by (auto simp: side_inv_def best_exact_def)
  have fin: "side_inv ls' b" if "best_exact ls' b" for b using that basic L(2) by (auto simp: side_inv_def)
  consider (up) "ls' ! unat p > 0" "p > best" | (drain) "p = best" "ls' ! unat p = 0"
    | (other) "\<not> (ls' ! unat p > 0 \<and> p > best)" "\<not> (p = best \<and> ls' ! unat p = 0)" by blast
  then show ?thesis
  proof cases
    case up
    then have "best_exact ls' p" using be(3) L p by (auto simp: best_exact_def word_less_nat_alt)
    then show ?thesis using up fin by auto
  next
    case drain
    have "\<exists>b. rescan ls' best = Some b \<and> best_exact ls' b"
      by (rule rescan_exact) (use be L basic drain in auto)
    then show ?thesis using drain fin by auto
  next
    case other
    have "best_exact ls' best"
      unfolding best_exact_def
    proof (intro conjI allI impI)
      show "unat best < length ls'" using be(1) L(2) by simp
      show "best = 0 \<or> 0 < ls' ! unat best"
        using be(2) other(2) L(3) L(4) [of "unat best"] assms(4) by (cases "p = best") (auto simp: word_unat_eq_iff)
      fix i assume i: "unat best < i" "i < length ls'"
      show "ls' ! i = 0"
      proof (cases "i = unat p")
        case True
        then have "p > best" using i by (simp add: word_less_nat_alt)
        then show ?thesis using other(1) True L(3) assms(4) by auto
      next
        case False
        then show ?thesis using be(3) i L by auto
      qed
    qed
    then show ?thesis using other fin by auto
  qed
qed

lemma book_apply_inv:
  assumes "book_inv b" "delta_wf d" "qty_at b (d_side d) (d_price d) = Some q" "0 \<le> q + d_delta d" "q + d_delta d \<le> INT32_MAX"
  shows "\<exists>b'. book_apply d b = Some b' \<and> book_inv b' \<and>
    (\<forall>s p. qty_at b' s p = (if s = d_side d \<and> p = d_price d then Some (q + d_delta d) else qty_at b s p))"
proof -
  let ?s = "d_side d" and ?p = "d_price d" and ?x = "d_delta d"
  let ?ls = "side_levels b ?s"
  have inv: "side_inv (side_levels b s) (side_best b s)" for s using assms(1) by (simp add: book_inv_def)
  have len: "length (side_levels b s) = 100" for s using inv by (simp add: side_inv_def)
  have q: "unat ?p < 100" "?ls ! unat ?p = q" using assms(3) len by (auto simp: qty_at_def split: if_splits)
  have wf: "1 \<le> ?p" "?p \<le> 99" using assms(2) by (auto simp: delta_wf_def)
  obtain best' where B: "(if ?ls[unat ?p := q + ?x] ! unat ?p > 0 \<and> ?p > side_best b ?s then Some ?p
      else if ?p = side_best b ?s \<and> ?ls[unat ?p := q + ?x] ! unat ?p = 0 then rescan (?ls[unat ?p := q + ?x]) (side_best b ?s)
      else Some (side_best b ?s)) = Some best'" "side_inv (?ls[unat ?p := q + ?x]) best'"
    using side_apply [OF inv [of ?s] wf, of ?x] q(2) assms(4,5) by auto
  define b' where "b' = set_side ?s (?ls[unat ?p := q + ?x]) best' b"
  have "\<not> (q + ?x < INT32_MIN \<or> q + ?x > INT32_MAX)" using assms(4,5) by (auto simp: INT32_MIN_def)
  then have "book_apply d b = Some b'"
    using B(1) q len by (auto simp: book_apply_def Let_def b'_def split: if_splits)
  moreover have "book_inv b'" using B(2) inv by (simp add: book_inv_def b'_def)
  moreover have "qty_at b' s p = (if s = ?s \<and> p = ?p then Some (q + ?x) else qty_at b s p)" for s p
    using q len by (auto simp: qty_at_def b'_def nth_list_update word_unat_eq_iff)
  ultimately show ?thesis by blast
qed

section \<open>Sequences of deltas\<close>

fun book_run :: "orderbook_delta list \<Rightarrow> feed_book \<Rightarrow> feed_book option" where
  "book_run [] b = Some b"
| "book_run (d # ds) b = (case book_apply d b of None \<Rightarrow> None | Some b' \<Rightarrow> book_run ds b')"

text \<open>The net quantity a sequence of deltas puts at a price.\<close>

definition net :: "orderbook_delta list \<Rightarrow> feed_side \<Rightarrow> u8 \<Rightarrow> int" where
  "net ds s p = (\<Sum>d\<leftarrow>ds. if d_side d = s \<and> d_price d = p then d_delta d else 0)"

text \<open>Deltas an exchange sends: no level goes below zero or beyond 32 bits on the way.\<close>

definition feasible :: "orderbook_delta list \<Rightarrow> bool" where
  "feasible ds \<longleftrightarrow> (\<forall>d\<in>set ds. delta_wf d) \<and>
     (\<forall>n s p. 0 \<le> net (take n ds) s p \<and> net (take n ds) s p \<le> INT32_MAX)"

lemma net_append: "net (xs @ ys) s p = net xs s p + net ys s p"
  by (simp add: net_def)

lemma book_run_net:
  assumes "book_inv b" "\<forall>d\<in>set ds. delta_wf d" "\<And>s p. p \<le> 99 \<Longrightarrow> qty_at b s p = Some (q s p)"
    "\<And>n s p. 0 \<le> q s p + net (take n ds) s p \<and> q s p + net (take n ds) s p \<le> INT32_MAX"
  shows "\<exists>b'. book_run ds b = Some b' \<and> book_inv b' \<and> (\<forall>s p. p \<le> 99 \<longrightarrow> qty_at b' s p = Some (q s p + net ds s p))"
  using assms
proof (induction ds arbitrary: b q)
  case Nil
  then show ?case by (simp add: net_def)
next
  case (Cons d ds)
  have wf: "delta_wf d" and p: "d_price d \<le> 99" using Cons.prems(2) by (auto simp: delta_wf_def)
  have n1: "net (take (Suc n) (d # ds)) s p = (if d_side d = s \<and> d_price d = p then d_delta d else 0) + net (take n ds) s p" for n s p
    by (simp add: net_def)
  have one: "0 \<le> q (d_side d) (d_price d) + d_delta d" "q (d_side d) (d_price d) + d_delta d \<le> INT32_MAX"
    using Cons.prems(4) [of "d_side d" "d_price d" 1] by (simp_all add: net_def)
  obtain b1 where b1: "book_apply d b = Some b1" "book_inv b1"
    "\<forall>s p. qty_at b1 s p = (if s = d_side d \<and> p = d_price d then Some (q (d_side d) (d_price d) + d_delta d) else qty_at b s p)"
    using book_apply_inv [OF Cons.prems(1) wf Cons.prems(3) [OF p] one] by blast
  define q1 where "q1 = (\<lambda>s p. q s p + (if d_side d = s \<and> d_price d = p then d_delta d else 0))"
  have "\<exists>b'. book_run ds b1 = Some b' \<and> book_inv b' \<and> (\<forall>s p. p \<le> 99 \<longrightarrow> qty_at b' s p = Some (q1 s p + net ds s p))"
  proof (rule Cons.IH [OF b1(2)])
    show "qty_at b1 s p = Some (q1 s p)" if "p \<le> 99" for s p using b1(3) Cons.prems(3) [OF that] by (auto simp: q1_def)
    show "0 \<le> q1 s p + net (take n ds) s p \<and> q1 s p + net (take n ds) s p \<le> INT32_MAX" for n s p
      using Cons.prems(4) [of s p "Suc n"] unfolding n1 by (simp add: q1_def add.assoc)
  qed (use Cons.prems(2) in simp)
  then show ?case using b1(1) by (auto simp: q1_def net_def add.assoc)
qed

text \<open>
  (C14) The book refines the function from prices to net quantities: after any feasible sequence of
  deltas it is defined, every level is the sum of its deltas, and the best bid of each side is
  the highest price with a positive quantity (0 when there is none).
\<close>

theorem book_refines_net:
  assumes "feasible ds"
  shows "\<exists>b. book_run ds Book_new = Some b \<and>
    (\<forall>s p. p \<le> 99 \<longrightarrow> qty_at b s p = Some (net ds s p)) \<and>
    (\<forall>s. let best = (case s of FYes \<Rightarrow> best_yes_bid b | FNo \<Rightarrow> best_no_bid b)
         in best \<le> 99 \<and> (best = 0 \<or> net ds s best > 0) \<and> (\<forall>p. best < p \<longrightarrow> p \<le> 99 \<longrightarrow> net ds s p = 0))"
proof -
  have z: "qty_at Book_new s p = Some 0" if "p \<le> 99" for s p
    using that by (cases s) (simp_all add: qty_at_def Book_new_def side_levels_def word_le_nat_alt)
  obtain b where b: "book_run ds Book_new = Some b" "book_inv b" "\<And>s p. p \<le> 99 \<Longrightarrow> qty_at b s p = Some (net ds s p)"
    using book_run_net [OF book_new_inv, of ds "\<lambda>_ _. 0"] assms z by (auto simp: feasible_def)
  have "let best = (case s of FYes \<Rightarrow> best_yes_bid b | FNo \<Rightarrow> best_no_bid b)
      in best \<le> 99 \<and> (best = 0 \<or> net ds s best > 0) \<and> (\<forall>p. best < p \<longrightarrow> p \<le> 99 \<longrightarrow> net ds s p = 0)" for s
  proof -
    define best where "best = (case s of FYes \<Rightarrow> best_yes_bid b | FNo \<Rightarrow> best_no_bid b)"
    have "best = side_best b s" by (cases s) (simp_all add: best_def side_best_def best_yes_bid_def best_no_bid_def)
    then have be: "length (side_levels b s) = 100" "best_exact (side_levels b s) best"
      using b(2) by (auto simp: book_inv_def side_inv_def)
    have n: "net ds s p = side_levels b s ! unat p" if "p \<le> 99" for p
      using b(3) [OF that, of s] be(1) that by (simp add: qty_at_def word_le_nat_alt split: if_splits)
    have "best \<le> 99" using be by (simp add: best_exact_def word_le_nat_alt)
    then have "best \<le> 99 \<and> (best = 0 \<or> net ds s best > 0) \<and> (\<forall>p. best < p \<longrightarrow> p \<le> 99 \<longrightarrow> net ds s p = 0)"
      using be n by (auto simp: best_exact_def word_less_nat_alt word_le_nat_alt)
    then show ?thesis unfolding best_def [symmetric] by (simp add: Let_def)
  qed
  then show ?thesis using b(1,3) by blast
qed

definition mk_delta :: "feed_side \<Rightarrow> u8 \<Rightarrow> int \<Rightarrow> orderbook_delta" where
  "mk_delta s p x = blank_delta\<lparr>d_side := s, d_price := p, d_delta := x\<rparr>"

lemma mk_delta_sel [simp]: "d_side (mk_delta s p x) = s" "d_price (mk_delta s p x) = p" "d_delta (mk_delta s p x) = x"
  by (simp_all add: mk_delta_def)

lemma mk_delta_wf: "1 \<le> p \<Longrightarrow> p \<le> 99 \<Longrightarrow> INT32_MIN \<le> x \<Longrightarrow> x \<le> INT32_MAX \<Longrightarrow> delta_wf (mk_delta s p x)"
  by (simp add: delta_wf_def mk_delta_def blank_delta_def)

lemma demo_feasible: "feasible [mk_delta FYes 50 10, mk_delta FYes 60 5, mk_delta FYes 60 (- 5)]"
proof -
  let ?ds = "[mk_delta FYes 50 10, mk_delta FYes 60 5, mk_delta FYes 60 (- 5)]"
  have "0 \<le> net (take n ?ds) s p \<and> net (take n ?ds) s p \<le> INT32_MAX" for n s p
  proof -
    consider "n = 0" | "n = 1" | "n = 2" | "n \<ge> 3" by linarith
    then show ?thesis by cases (auto simp: net_def INT32_MAX_def take_Cons' numeral_2_eq_2)
  qed
  moreover have "\<forall>d\<in>set ?ds. delta_wf d" by (auto intro!: mk_delta_wf simp: INT32_MIN_def INT32_MAX_def)
  ultimately show ?thesis unfolding feasible_def by blast
qed

theorem book_refines_net_witness:
  "\<exists>b. book_run [mk_delta FYes 50 10, mk_delta FYes 60 5, mk_delta FYes 60 (- 5)] Book_new = Some b \<and>
     qty_at b FYes 50 = Some 10 \<and> qty_at b FYes 60 = Some 0"
  using book_refines_net [OF demo_feasible] by (auto simp: net_def)

text \<open>A best bid with a negative quantity survives every delta at a lower price: only a level of exactly
  zero at the best price starts the search for another.\<close>

lemma best_kept:
  "book_run ds b = Some b' \<Longrightarrow> \<forall>e\<in>set ds. d_side e = s \<longrightarrow> d_price e < side_best b s \<Longrightarrow>
    side_best b' s = side_best b s \<and> qty_at b' s (side_best b s) = qty_at b s (side_best b s)"
proof (induction ds arbitrary: b)
  case (Cons d ds)
  then obtain b1 where b1: "book_apply d b = Some b1" "book_run ds b1 = Some b'" by (auto split: bind_splits option.splits)
  have lo: "d_side d = s \<Longrightarrow> d_price d < side_best b s" using Cons.prems(2) by simp
  then have "d_side d = s \<Longrightarrow> unat (d_price d) \<noteq> unat (side_best b s)" by (auto simp: word_less_nat_alt)
  then have k: "side_best b1 s = side_best b s" "qty_at b1 s (side_best b s) = qty_at b s (side_best b s)"
    using b1(1) lo by (auto simp: book_apply_def Let_def qty_at_def split: if_splits)
  show ?case using Cons.IH [OF b1(2)] Cons.prems(2) k by simp
qed simp

text \<open>
  (C40) The book trusts the exchange not to send a level below zero. If a delta drives the best level of
  a side below zero, whatever the book and the delta, the price stays the best bid with its negative
  quantity and no other level changes; and it stays the best bid through all later deltas of that
  side at lower prices, whatever these levels have to offer.
\<close>

theorem book_negative_level_is_best:
  assumes "s = d_side d" "side_best b s = d_price d" "qty_at b s (d_price d) = Some q"
    "q + d_delta d < 0" "INT32_MIN \<le> q + d_delta d"
  shows "\<exists>b1. book_apply d b = Some b1 \<and> side_best b1 s = d_price d \<and> qty_at b1 s (d_price d) = Some (q + d_delta d) \<and>
    (\<forall>p. p \<noteq> d_price d \<longrightarrow> qty_at b1 s p = qty_at b s p) \<and>
    (\<forall>ds b2. book_run ds b1 = Some b2 \<longrightarrow> (\<forall>e\<in>set ds. d_side e = s \<longrightarrow> d_price e < d_price d) \<longrightarrow>
       side_best b2 s = d_price d \<and> qty_at b2 s (d_price d) = Some (q + d_delta d))"
proof -
  let ?b1 = "set_side s ((side_levels b s)[unat (d_price d) := q + d_delta d]) (d_price d) b"
  have l: "unat (d_price d) < length (side_levels b s)" "side_levels b s ! unat (d_price d) = q"
    using assms(3) by (auto simp: qty_at_def split: if_splits)
  have a: "book_apply d b = Some ?b1"
    using l assms(1,2,4,5) by (simp add: book_apply_def Let_def INT32_MAX_def)
  have k: "side_best ?b1 s = d_price d" "qty_at ?b1 s (d_price d) = Some (q + d_delta d)" using l by (simp_all add: qty_at_def)
  have "qty_at ?b1 s p = qty_at b s p" if "p \<noteq> d_price d" for p
    using that by (simp add: qty_at_def word_unat_eq_iff)
  then show ?thesis using a k best_kept [of _ ?b1 _ s] by auto
qed

theorem book_negative_level_is_best_witness:
  "\<exists>b b1 b2. book_run [mk_delta FYes 50 10, mk_delta FYes 60 5] Book_new = Some b \<and> book_apply (mk_delta FYes 60 (- 7)) b = Some b1 \<and>
     book_run [mk_delta FYes 50 3] b1 = Some b2 \<and> side_best b2 FYes = 60 \<and> qty_at b2 FYes 60 = Some (- 2) \<and> qty_at b2 FYes 50 = Some 13"
proof -
  let ?d = "mk_delta FYes 60 (- 7)"
  let ?b = "Book_new\<lparr>yes_levels := (replicate 100 0)[50 := 10, 60 := 5], fb_best_yes := 60\<rparr>"
  let ?b1 = "?b\<lparr>yes_levels := (replicate 100 0)[50 := 10, 60 := - 2]\<rparr>"
  let ?b2 = "?b\<lparr>yes_levels := (replicate 100 0)[50 := 13, 60 := - 2]\<rparr>"
  have run: "book_run [mk_delta FYes 50 10, mk_delta FYes 60 5] Book_new = Some ?b" "book_apply ?d ?b = Some ?b1"
      "book_run [mk_delta FYes 50 3] ?b1 = Some ?b2"
    by (simp_all add: Book_new_def book_apply_def side_levels_def side_best_def set_side_def Let_def INT32_MIN_def INT32_MAX_def list_update_swap)
  have h: "FYes = d_side ?d" "side_best ?b FYes = d_price ?d" "qty_at ?b FYes (d_price ?d) = Some 5" "5 + d_delta ?d < 0" "INT32_MIN \<le> 5 + d_delta ?d"
    by (simp_all add: Book_new_def side_best_def side_levels_def qty_at_def INT32_MIN_def)
  obtain b1 where b1: "book_apply ?d ?b = Some b1" "\<forall>ds b2. book_run ds b1 = Some b2 \<longrightarrow> (\<forall>e\<in>set ds. d_side e = FYes \<longrightarrow> d_price e < d_price ?d) \<longrightarrow>
       side_best b2 FYes = d_price ?d \<and> qty_at b2 FYes (d_price ?d) = Some (5 + d_delta ?d)"
    using book_negative_level_is_best [OF h] by blast
  have "b1 = ?b1" using b1(1) run(2) by simp
  then have "side_best ?b2 FYes = d_price ?d \<and> qty_at ?b2 FYes (d_price ?d) = Some (5 + d_delta ?d)"
    using b1(2) [rule_format, of "[mk_delta FYes 50 3]" ?b2] run(3) by (simp only: simp_thms) (simp add: word_less_nat_alt)
  then have "side_best ?b2 FYes = 60 \<and> qty_at ?b2 FYes 60 = Some (- 2)" by simp
  moreover have "qty_at ?b2 FYes 50 = Some 13" by (simp add: qty_at_def side_levels_def)
  ultimately show ?thesis using run by blast
qed

end
