(* ===== verification/Quote_Signal.thy ===== *)
theory Quote_Signal
  imports Feed_Book
begin

text \<open>
  The quoting rule of \<open>src/strategy/signal.h\<close> and \<open>src/strategy/signal.cpp\<close>: bid one cent above
  the best bid of both sides when the spread is wide enough.
\<close>

record target_quote =
  tq_active :: bool
  yes_price :: u8
  no_price :: u8
  tq_qty :: u32

definition MIN_SPREAD :: u8 where "MIN_SPREAD = 3"

definition DEFAULT_QTY :: u32 where "DEFAULT_QTY = 10"

text \<open>The value-initialised quote \<open>{}\<close>.\<close>

definition no_quote :: target_quote where
  "no_quote = \<lparr>tq_active = False, yes_price = 0, no_price = 0, tq_qty = 0\<rparr>"

definition evaluate :: "feed_book \<Rightarrow> target_quote" where
  "evaluate book =
    (let y = best_yes_bid book; n = best_no_bid book
     in if y = 0 \<or> n = 0 then no_quote
        else
          let spread = 100 - uint y - uint n
          in if spread < uint MIN_SPREAD then no_quote
             else \<lparr>tq_active = True, yes_price = y + 1, no_price = n + 1, tq_qty = DEFAULT_QTY\<rparr>)"

text \<open>What a side asks of its book when it is quoted at a price: the price is free and every bid is
  below it.\<close>

definition outbids :: "feed_book \<Rightarrow> feed_side \<Rightarrow> u8 \<Rightarrow> bool" where
  "outbids b s p \<longleftrightarrow> 1 < unat p \<and> unat p < 99 \<and> (\<exists>q. qty_at b s (p - 1) = Some q \<and> 0 < q) \<and>
     (\<forall>i<100. unat p \<le> i \<longrightarrow> qty_at b s (of_nat i) = Some 0)"

lemma book_inv_qty:
  assumes "book_inv b" "i < 100"
  shows "qty_at b s (of_nat i) = Some (side_levels b s ! i)"
proof -
  have "length (side_levels b s) = 100" using assms(1) by (auto simp: book_inv_def side_inv_def)
  moreover have "unat (of_nat i :: u8) = i" using assms(2) by (simp add: unat_of_nat_u8)
  ultimately show ?thesis using assms(2) unfolding qty_at_def by simp
qed

lemma outbids_best:
  assumes inv: "book_inv b" and best: "side_best b s \<noteq> 0" "unat (side_best b s) < 98"
  shows "outbids b s (side_best b s + 1)" "unat (side_best b s + 1) = unat (side_best b s) + 1"
proof -
  let ?p = "side_best b s"
  have I: "side_inv (side_levels b s) ?p" using inv by (simp add: book_inv_def)
  show u: "unat (?p + 1) = unat ?p + 1" using best by (simp add: unat_word_ariths)
  have "qty_at b s (?p + 1 - 1) = Some (side_levels b s ! unat ?p)"
    using book_inv_qty [OF inv, of "unat ?p" s] best(2) by simp
  moreover have "0 < side_levels b s ! unat ?p" using I best(1) by (simp add: side_inv_def best_exact_def)
  moreover have "qty_at b s (of_nat i) = Some 0" if "i < 100" "unat (?p + 1) \<le> i" for i
    using I that u book_inv_qty [OF inv that(1), of s] by (simp add: side_inv_def best_exact_def)
  moreover have "0 < unat ?p" using best(1) by (simp add: unat_gt_0)
  ultimately show "outbids b s (?p + 1)" using u best(2) unfolding outbids_def by auto
qed

lemma best_bids [simp]: "best_yes_bid b = side_best b FYes" "best_no_bid b = side_best b FNo"
  by (simp_all add: best_yes_bid_def best_no_bid_def side_best_def)

lemma wide_spread:
  fixes y n :: u8
  shows "\<not> 100 - uint y - uint n < uint MIN_SPREAD \<longleftrightarrow> unat y + unat n \<le> 97"
proof -
  have "uint y = int (unat y)" "uint n = int (unat n)" by simp_all
  moreover have "uint MIN_SPREAD = 3" by (simp add: MIN_SPREAD_def)
  ultimately show ?thesis by linarith
qed

lemma evaluate_active:
  "tq_active (evaluate b) \<longleftrightarrow>
     side_best b FYes \<noteq> 0 \<and> side_best b FNo \<noteq> 0 \<and> unat (side_best b FYes) + unat (side_best b FNo) \<le> 97"
  using wide_spread by (auto simp: evaluate_def Let_def no_quote_def)

lemma evaluate_inactive: "\<not> tq_active (evaluate b) \<Longrightarrow> evaluate b = no_quote"
  by (auto simp: evaluate_def Let_def split: if_splits)

lemma evaluate_prices:
  assumes "tq_active (evaluate b)"
  shows "evaluate b = \<lparr>tq_active = True, yes_price = side_best b FYes + 1, no_price = side_best b FNo + 1, tq_qty = 10\<rparr>"
  using assms by (auto simp: evaluate_def Let_def no_quote_def DEFAULT_QTY_def split: if_splits)

text \<open>(C25) On a consistent book \<open>evaluate\<close> quotes exactly when both sides have a bid and the spread
  is at least three cents. The quote then outbids each side by one cent, at a price between 2 and 98
  that no resting quantity has reached, for ten contracts, and buying both sides costs less than the
  dollar that a yes and a no contract pay together. Otherwise it is the empty quote.\<close>

theorem evaluate_quotes_inside_spread:
  assumes "book_inv b"
  shows "(tq_active (evaluate b) \<longleftrightarrow> best_yes_bid b \<noteq> 0 \<and> best_no_bid b \<noteq> 0 \<and>
            unat (best_yes_bid b) + unat (best_no_bid b) + 3 \<le> 100) \<and>
         (if tq_active (evaluate b)
          then outbids b FYes (yes_price (evaluate b)) \<and> outbids b FNo (no_price (evaluate b)) \<and>
               unat (yes_price (evaluate b)) + unat (no_price (evaluate b)) < 100 \<and> tq_qty (evaluate b) = 10
          else evaluate b = no_quote)"
proof (cases "tq_active (evaluate b)")
  case True
  note A = True [unfolded evaluate_active]
  then have "0 < unat (side_best b FYes)" "0 < unat (side_best b FNo)" by (simp_all add: unat_gt_0)
  then have "unat (side_best b FYes) < 98" "unat (side_best b FNo) < 98" using A by linarith+
  then show ?thesis
    using True A outbids_best [OF assms, of FYes] outbids_best [OF assms, of FNo] evaluate_prices [OF True] by auto
next
  case False
  then show ?thesis using evaluate_inactive [OF False] evaluate_active [of b] by auto
qed

theorem evaluate_quotes_inside_spread_witness:
  "\<exists>b. book_inv b \<and> tq_active (evaluate b) \<and> outbids b FYes (yes_price (evaluate b)) \<and> yes_price (evaluate b) = 41 \<and>
     no_price (evaluate b) = 51 \<and> unat (yes_price (evaluate b)) + unat (no_price (evaluate b)) < 100"
proof -
  let ?b = "Book_new\<lparr>yes_levels := (replicate 100 0)[40 := 7], no_levels := (replicate 100 0)[50 := 9],
               fb_best_yes := 40, fb_best_no := 50\<rparr>"
  have "side_inv ((replicate 100 0)[40 := 7]) 40" "side_inv ((replicate 100 0)[50 := 9]) 50"
    by (auto simp: side_inv_def best_exact_def INT32_MAX_def nth_list_update)
  then have inv: "book_inv ?b"
    by (auto simp: book_inv_def Book_new_def side_levels_def side_best_def split: feed_side.splits)
  have e: "evaluate ?b = \<lparr>tq_active = True, yes_price = 41, no_price = 51, tq_qty = 10\<rparr>" by code_simp
  show ?thesis using inv e evaluate_quotes_inside_spread [OF inv] by (intro exI [of _ ?b]) simp
qed

end
