(* ===== verification/Order_Manager.thy ===== *)
theory Order_Manager
  imports Quote_Signal "HOL-Library.Monad_Syntax"
begin

text \<open>
  The order manager of \<open>src/strategy/order_manager.h\<close> and \<open>src/strategy/order_manager.cpp\<close>: it
  compares the target quote with the order it believes open on each side and lists the actions that
  close the gap; the two callbacks record what was sent. \<open>None\<close> is a write past the four slots of
  a bundle.
\<close>

section \<open>The class\<close>

datatype action_kind = PLACE | CANCEL

record action =
  a_kind :: action_kind
  a_side :: feed_side
  a_price :: u8
  a_qty :: u32
  a_client_id :: u64

record action_bundle =
  actions :: "action list"
  cnt :: u8

record order_state =
  os_open :: bool
  os_price :: u8
  os_qty :: u32
  os_client_id :: u64

record order_manager =
  yes_open :: order_state
  no_open :: order_state
  next_client_id :: u64

definition no_order :: order_state where
  "no_order = \<lparr>os_open = False, os_price = 0, os_qty = 0, os_client_id = 0\<rparr>"

definition OrderManager_new :: order_manager where
  "OrderManager_new = \<lparr>yes_open = no_order, no_open = no_order, next_client_id = 1\<rparr>"

definition empty_bundle :: action_bundle where
  "empty_bundle = \<lparr>actions = replicate 4 \<lparr>a_kind = PLACE, a_side = FYes, a_price = 0, a_qty = 0, a_client_id = 0\<rparr>, cnt = 0\<rparr>"

text \<open>\<open>out.actions[out.cnt++] = a\<close>.\<close>

definition push_action :: "action \<Rightarrow> action_bundle \<Rightarrow> action_bundle option" where
  "push_action a out =
    (if unat (cnt out) < length (actions out)
     then Some \<lparr>actions = (actions out)[unat (cnt out) := a], cnt = cnt out + 1\<rparr> else None)"

definition reconcile_helper ::
    "order_state \<Rightarrow> feed_side \<Rightarrow> bool \<Rightarrow> u8 \<Rightarrow> u32 \<Rightarrow> u64 \<times> action_bundle \<Rightarrow> (u64 \<times> action_bundle) option" where
  "reconcile_helper cur s want want_price want_qty = (\<lambda>(next_id, out).
    if \<not> os_open cur \<and> want then do {
      out \<leftarrow> push_action \<lparr>a_kind = PLACE, a_side = s, a_price = want_price, a_qty = want_qty, a_client_id = next_id\<rparr> out;
      Some (next_id + 1, out)
    }
    else if os_open cur \<and> \<not> want then do {
      out \<leftarrow> push_action \<lparr>a_kind = CANCEL, a_side = s, a_price = 0, a_qty = 0, a_client_id = os_client_id cur\<rparr> out;
      Some (next_id, out)
    }
    else if os_open cur \<and> want then
      (if want_price \<noteq> os_price cur then do {
         out \<leftarrow> push_action \<lparr>a_kind = CANCEL, a_side = s, a_price = 0, a_qty = 0, a_client_id = os_client_id cur\<rparr> out;
         out \<leftarrow> push_action \<lparr>a_kind = PLACE, a_side = s, a_price = want_price, a_qty = want_qty, a_client_id = next_id\<rparr> out;
         Some (next_id + 1, out)
       }
       else Some (next_id, out))
    else Some (next_id, out))"

definition reconcile :: "target_quote \<Rightarrow> order_manager \<Rightarrow> (action_bundle \<times> order_manager) option" where
  "reconcile target om = do {
     r \<leftarrow> reconcile_helper (yes_open om) FYes (tq_active target) (yes_price target) (tq_qty target)
            (next_client_id om, empty_bundle);
     (next_id, bundle) \<leftarrow> reconcile_helper (no_open om) FNo (tq_active target) (no_price target) (tq_qty target) r;
     Some (bundle, om\<lparr>next_client_id := next_id\<rparr>)
   }"

definition on_place_sent :: "action \<Rightarrow> order_manager \<Rightarrow> order_manager" where
  "on_place_sent a om =
    (let cur = \<lparr>os_open = True, os_price = a_price a, os_qty = a_qty a, os_client_id = a_client_id a\<rparr>
     in case a_side a of FYes \<Rightarrow> om\<lparr>yes_open := cur\<rparr> | FNo \<Rightarrow> om\<lparr>no_open := cur\<rparr>)"

definition on_cancel_sent :: "action \<Rightarrow> order_manager \<Rightarrow> order_manager" where
  "on_cancel_sent a om =
    (case a_side a of FYes \<Rightarrow> om\<lparr>yes_open := no_order\<rparr> | FNo \<Rightarrow> om\<lparr>no_open := no_order\<rparr>)"

text \<open>The actions a bundle holds: what a caller's loop over \<open>k < bundle.cnt\<close> reads.\<close>

definition bundle_actions :: "action_bundle \<Rightarrow> action list" where
  "bundle_actions b = take (unat (cnt b)) (actions b)"

section \<open>What a reconciliation lists\<close>

definition om_side :: "order_manager \<Rightarrow> feed_side \<Rightarrow> order_state" where
  "om_side om s = (case s of FYes \<Rightarrow> yes_open om | FNo \<Rightarrow> no_open om)"

definition want_price_of :: "target_quote \<Rightarrow> feed_side \<Rightarrow> u8" where
  "want_price_of t s = (case s of FYes \<Rightarrow> yes_price t | FNo \<Rightarrow> no_price t)"

definition cancels :: "order_state \<Rightarrow> target_quote \<Rightarrow> feed_side \<Rightarrow> bool" where
  "cancels cur t s \<longleftrightarrow> os_open cur \<and> (tq_active t \<longrightarrow> want_price_of t s \<noteq> os_price cur)"

definition places :: "order_state \<Rightarrow> target_quote \<Rightarrow> feed_side \<Rightarrow> bool" where
  "places cur t s \<longleftrightarrow> tq_active t \<and> (os_open cur \<longrightarrow> want_price_of t s \<noteq> os_price cur)"

definition side_actions :: "order_state \<Rightarrow> target_quote \<Rightarrow> feed_side \<Rightarrow> u64 \<Rightarrow> action list" where
  "side_actions cur t s i =
    (if cancels cur t s then [\<lparr>a_kind = CANCEL, a_side = s, a_price = 0, a_qty = 0, a_client_id = os_client_id cur\<rparr>] else []) @
    (if places cur t s then [\<lparr>a_kind = PLACE, a_side = s, a_price = want_price_of t s, a_qty = tq_qty t, a_client_id = i\<rparr>] else [])"

definition next_id :: "order_state \<Rightarrow> target_quote \<Rightarrow> feed_side \<Rightarrow> u64 \<Rightarrow> u64" where
  "next_id cur t s i = (if places cur t s then i + 1 else i)"

definition bundle_ok :: "action_bundle \<Rightarrow> bool" where
  "bundle_ok b \<longleftrightarrow> length (actions b) = 4 \<and> unat (cnt b) \<le> 4"

lemma push_action_ok:
  assumes "bundle_ok b" "length (bundle_actions b) < 4"
  shows "\<exists>b'. push_action a b = Some b' \<and> bundle_ok b' \<and> bundle_actions b' = bundle_actions b @ [a]"
proof -
  have n: "unat (cnt b) < 4" "length (actions b) = 4" using assms by (auto simp: bundle_ok_def bundle_actions_def)
  then have u: "unat (cnt b + 1) = Suc (unat (cnt b))" by (simp add: unat_word_ariths)
  show ?thesis using n u by (auto simp: push_action_def bundle_ok_def bundle_actions_def take_Suc_conv_app_nth)
qed

lemma reconcile_helper_ok:
  assumes "bundle_ok b" "length (bundle_actions b) \<le> 2" "w = want_price_of t s"
  shows "\<exists>b'. reconcile_helper cur s (tq_active t) w (tq_qty t) (i, b) = Some (next_id cur t s i, b') \<and>
     bundle_ok b' \<and> bundle_actions b' = bundle_actions b @ side_actions cur t s i"
proof -
  let ?c = "\<lparr>a_kind = CANCEL, a_side = s, a_price = 0, a_qty = 0, a_client_id = os_client_id cur\<rparr>"
  let ?p = "\<lparr>a_kind = PLACE, a_side = s, a_price = w, a_qty = tq_qty t, a_client_id = i\<rparr>"
  obtain bp where bp: "push_action ?p b = Some bp" "bundle_ok bp" "bundle_actions bp = bundle_actions b @ [?p]"
    using push_action_ok [OF assms(1), of ?p] assms(2) by auto
  obtain bc where bc: "push_action ?c b = Some bc" "bundle_ok bc" "bundle_actions bc = bundle_actions b @ [?c]"
    using push_action_ok [OF assms(1), of ?c] assms(2) by auto
  obtain bcp where bcp: "push_action ?p bc = Some bcp" "bundle_ok bcp" "bundle_actions bcp = bundle_actions bc @ [?p]"
    using push_action_ok [OF bc(2), of ?p] bc(3) assms(2) by auto
  show ?thesis
    using assms bp bc bcp
    by (cases "os_open cur"; cases "tq_active t"; cases "w = os_price cur")
      (simp_all add: reconcile_helper_def side_actions_def next_id_def cancels_def places_def)
qed

lemma side_actions_length: "length (side_actions cur t s i) \<le> 2"
  by (simp add: side_actions_def)

definition reconcile_actions :: "order_manager \<Rightarrow> target_quote \<Rightarrow> action list" where
  "reconcile_actions om t =
    side_actions (yes_open om) t FYes (next_client_id om) @
    side_actions (no_open om) t FNo (next_id (yes_open om) t FYes (next_client_id om))"

definition reconciled :: "order_manager \<Rightarrow> target_quote \<Rightarrow> order_manager" where
  "reconciled om t = om\<lparr>next_client_id := next_id (no_open om) t FNo (next_id (yes_open om) t FYes (next_client_id om))\<rparr>"

lemma reconcile_ok:
  "\<exists>b. reconcile t om = Some (b, reconciled om t) \<and> bundle_ok b \<and> bundle_actions b = reconcile_actions om t"
proof -
  have e: "bundle_ok empty_bundle" "bundle_actions empty_bundle = []"
    by (simp_all add: bundle_ok_def empty_bundle_def bundle_actions_def)
  obtain b1 where b1: "reconcile_helper (yes_open om) FYes (tq_active t) (yes_price t) (tq_qty t) (next_client_id om, empty_bundle)
        = Some (next_id (yes_open om) t FYes (next_client_id om), b1)" "bundle_ok b1"
      "bundle_actions b1 = side_actions (yes_open om) t FYes (next_client_id om)"
    using reconcile_helper_ok [OF e(1), of "yes_price t" t FYes "yes_open om" "next_client_id om"] e(2)
    by (auto simp: want_price_of_def)
  have "length (bundle_actions b1) \<le> 2" using b1(3) side_actions_length by metis
  then obtain b2 where "reconcile_helper (no_open om) FNo (tq_active t) (no_price t) (tq_qty t)
        (next_id (yes_open om) t FYes (next_client_id om), b1)
      = Some (next_id (no_open om) t FNo (next_id (yes_open om) t FYes (next_client_id om)), b2)" "bundle_ok b2"
      "bundle_actions b2 = bundle_actions b1 @ side_actions (no_open om) t FNo (next_id (yes_open om) t FYes (next_client_id om))"
    using reconcile_helper_ok [OF b1(2), of "no_price t" t FNo "no_open om"
        "next_id (yes_open om) t FYes (next_client_id om)"] by (auto simp: want_price_of_def)
  then show ?thesis using b1 by (simp add: reconcile_def reconcile_actions_def reconciled_def)
qed

section \<open>Sending the actions\<close>

text \<open>The exchange as the actions see it: an order is live from its placement to its
  cancellation, under the client id it was placed with.\<close>

type_synonym exchange = "u64 \<Rightarrow> (feed_side \<times> u8 \<times> u32) option"

definition send :: "action \<Rightarrow> order_manager \<times> exchange \<Rightarrow> order_manager \<times> exchange" where
  "send a = (\<lambda>(om, live). case a_kind a of
     PLACE \<Rightarrow> (on_place_sent a om, live(a_client_id a \<mapsto> (a_side a, a_price a, a_qty a)))
   | CANCEL \<Rightarrow> (on_cancel_sent a om, live(a_client_id a := None)))"

definition send_all :: "action list \<Rightarrow> order_manager \<times> exchange \<Rightarrow> order_manager \<times> exchange" where
  "send_all as = fold send as"

text \<open>Rounds of reconciliation in which the sender may stop after any prefix of the bundle.\<close>

inductive om_reach :: "nat \<Rightarrow> order_manager \<Rightarrow> exchange \<Rightarrow> bool" where
  start: "om_reach 0 OrderManager_new Map.empty"
| round: "om_reach n om live \<Longrightarrow> reconcile t om = Some (b, om') \<Longrightarrow>
    send_all (take k (bundle_actions b)) (om', live) = (om'', live') \<Longrightarrow> om_reach (Suc n) om'' live'"

definition open_order :: "feed_side \<Rightarrow> order_state \<Rightarrow> exchange" where
  "open_order s o1 = (if os_open o1 then [os_client_id o1 \<mapsto> (s, os_price o1, os_qty o1)] else Map.empty)"

definition open_orders :: "order_manager \<Rightarrow> exchange" where
  "open_orders om = open_order FYes (yes_open om) ++ open_order FNo (no_open om)"

definition tracks :: "nat \<Rightarrow> order_manager \<Rightarrow> exchange \<Rightarrow> bool" where
  "tracks m om live \<longleftrightarrow> live = open_orders om \<and> (\<forall>s. os_open (om_side om s) \<longrightarrow> unat (os_client_id (om_side om s)) < m) \<and>
     (os_open (yes_open om) \<longrightarrow> os_open (no_open om) \<longrightarrow> os_client_id (yes_open om) \<noteq> os_client_id (no_open om))"

lemma om_side_simps [simp]: "om_side om FYes = yes_open om" "om_side om FNo = no_open om"
  by (simp_all add: om_side_def)

lemma want_price_simps [simp]: "want_price_of t FYes = yes_price t" "want_price_of t FNo = no_price t"
  by (simp_all add: want_price_of_def)

lemma all_feed_side: "(\<forall>s. P s) \<longleftrightarrow> P FYes \<and> P FNo"
  by (metis feed_side.exhaust)

lemma send_all_simps [simp]: "send_all [] x = x" "send_all (a # as) x = send_all as (send a x)"
  by (simp_all add: send_all_def)

lemma send_all_append: "send_all (as @ bs) x = send_all bs (send_all as x)"
  by (simp add: send_all_def)

lemma tracks_mono: "tracks m om live \<Longrightarrow> m \<le> n \<Longrightarrow> tracks n om live"
  by (fastforce simp: tracks_def)

lemma tracks_next_client_id [simp]: "tracks m (om\<lparr>next_client_id := i\<rparr>) live \<longleftrightarrow> tracks m om live"
  by (simp add: tracks_def open_orders_def all_feed_side)

lemma tracks_cancel:
  assumes "tracks m om live" "os_open (om_side om s)" "a_kind a = CANCEL" "a_side a = s" "a_client_id a = os_client_id (om_side om s)"
  shows "tracks m (fst (send a (om, live))) (snd (send a (om, live)))"
  using assms
  by (cases s) (auto simp: tracks_def send_def on_cancel_sent_def no_order_def open_orders_def open_order_def all_feed_side map_add_def fun_eq_iff)

lemma tracks_place:
  assumes "tracks m om live" "\<not> os_open (om_side om s)" "a_kind a = PLACE" "a_side a = s" "m \<le> unat (a_client_id a)"
  shows "tracks (Suc (unat (a_client_id a))) (fst (send a (om, live))) (snd (send a (om, live)))"
  using assms
  by (cases s) (auto simp: tracks_def send_def on_place_sent_def open_orders_def open_order_def all_feed_side map_add_def fun_eq_iff)

lemma send_side:
  "om_side (fst (send a y)) s =
    (if s = a_side a then case a_kind a of
        PLACE \<Rightarrow> \<lparr>os_open = True, os_price = a_price a, os_qty = a_qty a, os_client_id = a_client_id a\<rparr>
      | CANCEL \<Rightarrow> no_order
     else om_side (fst y) s)"
  "next_client_id (fst (send a y)) = next_client_id (fst y)"
  by (cases y; cases s; cases "a_side a"; cases "a_kind a"; simp add: send_def on_place_sent_def on_cancel_sent_def)+

lemma tracks_prefix:
  assumes T: "tracks (unat i) om live" and wrap: "unat i + 1 < 2 ^ 64" and cur: "cur = om_side om s"
    and x: "x = send_all (take k (side_actions cur t s i)) (om, live)"
  shows "tracks (unat (next_id cur t s i)) (fst x) (snd x)" "s' \<noteq> s \<Longrightarrow> om_side (fst x) s' = om_side om s'"
    "next_client_id (fst x) = next_client_id om"
proof -
  let ?c = "\<lparr>a_kind = CANCEL, a_side = s, a_price = 0, a_qty = 0, a_client_id = os_client_id cur\<rparr>"
  let ?p = "\<lparr>a_kind = PLACE, a_side = s, a_price = want_price_of t s, a_qty = tq_qty t, a_client_id = i\<rparr>"
  have suc: "unat (i + 1) = Suc (unat i)" using wrap by (simp add: unat_word_ariths)
  have n: "unat i \<le> unat (next_id cur t s i)" by (simp add: next_id_def suc)
  obtain om1 live1 where c: "send ?c (om, live) = (om1, live1)" by fastforce
  obtain om2 live2 where p: "send ?p (om, live) = (om2, live2)" by fastforce
  obtain om3 live3 where cp: "send ?p (om1, live1) = (om3, live3)" by fastforce
  have C: "tracks (unat i) om1 live1" "\<not> os_open (om_side om1 s)" if "cancels cur t s"
    using tracks_cancel [OF T, of s ?c] send_side(1) [of ?c "(om, live)" s] that c cur by (simp_all add: cancels_def no_order_def)
  have P: "tracks (unat (i + 1)) om2 live2" if "places cur t s" "\<not> cancels cur t s"
    using tracks_place [OF T, of s ?p] that p cur suc by (simp add: cancels_def places_def)
  have CP: "tracks (unat (i + 1)) om3 live3" if "cancels cur t s"
    using tracks_place [OF C(1), of s ?p] C(2) that cp suc by simp
  consider "k = 0" | "k = 1" | "2 \<le> k" by linarith
  then have "x = (om, live) \<or> cancels cur t s \<and> (x = (om1, live1) \<or> places cur t s \<and> x = (om3, live3)) \<or>
      places cur t s \<and> \<not> cancels cur t s \<and> x = (om2, live2)"
    using c p cp by cases (auto simp: x side_actions_def take_Cons')
  note X = this
  show "tracks (unat (next_id cur t s i)) (fst x) (snd x)"
    using X tracks_mono [OF T n] tracks_mono [OF C(1) n] P CP by (auto simp: next_id_def)
  show "s' \<noteq> s \<Longrightarrow> om_side (fst x) s' = om_side om s'"
    using X send_side(1) [of ?c "(om, live)" s'] send_side(1) [of ?p "(om, live)" s'] send_side(1) [of ?p "(om1, live1)" s'] c p cp by auto
  show "next_client_id (fst x) = next_client_id om"
    using X send_side(2) [of ?c "(om, live)"] send_side(2) [of ?p "(om, live)"] send_side(2) [of ?p "(om1, live1)"] c p cp by auto
qed

lemma om_reach_tracks:
  "om_reach n om live \<Longrightarrow> 2 * n + 1 < 2 ^ 64 \<Longrightarrow>
     unat (next_client_id om) \<le> 2 * n + 1 \<and> tracks (unat (next_client_id om)) om live"
proof (induction rule: om_reach.induct)
  case start
  then show ?case by (simp add: OrderManager_new_def tracks_def open_orders_def open_order_def no_order_def all_feed_side)
next
  case (round n om live t b om' k om'' live')
  let ?i = "next_client_id om"
  let ?j = "next_id (yes_open om) t FYes ?i"
  let ?l = "next_id (no_open om) t FNo ?j"
  let ?y = "side_actions (yes_open om) t FYes ?i"
  let ?n = "side_actions (no_open om) t FNo ?j"
  have IH: "unat ?i \<le> 2 * n + 1" "tracks (unat ?i) om live" using round by auto
  have om': "om' = om\<lparr>next_client_id := ?l\<rparr>" and b: "bundle_actions b = ?y @ ?n"
    using reconcile_ok [of t om] round.hyps(2) by (auto simp: reconciled_def reconcile_actions_def)
  have w: "unat ?i + 1 < 2 ^ 64" "unat ?i + 1 + 1 < 2 ^ 64" using IH(1) round.prems by simp_all
  then have j: "unat ?j \<le> unat ?i + 1" by (simp add: next_id_def unat_word_ariths)
  then have wj: "unat ?j + 1 < 2 ^ 64" using w by simp
  then have l: "unat ?l \<le> unat ?j + 1" by (simp add: next_id_def unat_word_ariths)
  define x where "x = send_all (take k ?y) (om', live)"
  define z where "z = send_all (take (k - length ?y) ?n) (fst x, snd x)"
  have z: "z = (om'', live')" using round.hyps(3) by (simp add: b send_all_append x_def z_def)
  have I: "tracks (unat ?i) om' live" "yes_open om = om_side om' FYes" using IH(2) by (simp_all add: om')
  have "om_side (fst x) FNo = om_side om' FNo" by (rule tracks_prefix(2) [OF I(1) w(1) I(2) x_def]) simp
  then have X: "tracks (unat ?j) (fst x) (snd x)" "no_open om = om_side (fst x) FNo" "next_client_id (fst x) = ?l"
    using tracks_prefix(1) [OF I(1) w(1) I(2) x_def] tracks_prefix(3) [OF I(1) w(1) I(2) x_def] by (simp_all add: om')
  have "tracks (unat ?l) (fst z) (snd z)" "next_client_id (fst z) = ?l"
    using tracks_prefix(1) [OF X(1) wj X(2) z_def] tracks_prefix(3) [OF X(1) wj X(2) z_def] X(3) by simp_all
  then show ?case using z j l IH(1) by simp
qed

text \<open>(C9) However many rounds of reconciliation there have been, for whatever targets, and even when the
  sender stopped in the middle of a bundle, the manager knows exactly which orders are live: they are
  the orders it has recorded as open, with their prices and quantities, at most one on each side. An
  order is live here when it was sent and not cancelled; the manager is told of no fills.
  The counter of client ids does not wrap within the given number of rounds, so no live id is
  handed out again.\<close>

theorem om_tracks_exchange:
  assumes "om_reach n om live" "2 * n + 1 < 2 ^ 64"
  shows "live = open_orders om \<and>
    (\<forall>i j p q r v. live i = Some (s, p, q) \<longrightarrow> live j = Some (s, r, v) \<longrightarrow> i = j) \<and>
    (\<forall>i\<in>dom live. unat i < unat (next_client_id om))"
proof -
  have T: "tracks (unat (next_client_id om)) om live" using om_reach_tracks [OF assms] by simp
  then have live: "live = open_orders om" by (simp add: tracks_def)
  have "i = j" if "live i = Some (s, p, q)" "live j = Some (s, r, v)" for i j p q r v
    using that unfolding live by (cases s) (auto simp: open_orders_def open_order_def map_add_def split: if_splits option.splits)
  moreover have "unat i < unat (next_client_id om)" if "i \<in> dom live" for i
    using that T unfolding live
    by (auto simp: tracks_def open_orders_def open_order_def all_feed_side map_add_def split: if_splits option.splits)
  ultimately show ?thesis using live by blast
qed

definition demo_quote :: target_quote where
  "demo_quote = \<lparr>tq_active = True, yes_price = 41, no_price = 51, tq_qty = 10\<rparr>"

lemma demo_round:
  "om_reach 1 (OrderManager_new\<lparr>yes_open := \<lparr>os_open = True, os_price = 41, os_qty = 10, os_client_id = 1\<rparr>, next_client_id := 3\<rparr>)
     [1 \<mapsto> (FYes, 41, 10)]"
proof -
  obtain b where "reconcile demo_quote OrderManager_new = Some (b, reconciled OrderManager_new demo_quote)"
      "bundle_actions b = reconcile_actions OrderManager_new demo_quote"
    using reconcile_ok by blast
  then have "om_reach (Suc 0) om live"
    if "send_all (take 1 (reconcile_actions OrderManager_new demo_quote)) (reconciled OrderManager_new demo_quote, Map.empty) = (om, live)" for om live
    using om_reach.round [OF om_reach.start] that by metis
  then show ?thesis
    by (simp add: reconcile_actions_def reconciled_def side_actions_def next_id_def places_def cancels_def OrderManager_new_def
        no_order_def demo_quote_def send_def on_place_sent_def)
qed

theorem om_tracks_exchange_witness:
  "\<exists>om live. om_reach 1 om live \<and> live = open_orders om \<and> live 1 = Some (FYes, 41, 10)"
proof -
  have "(2::nat) * 1 + 1 < 2 ^ 64" by simp
  note T = conjunct1 [OF om_tracks_exchange [OF demo_round this, of FYes]]
  show ?thesis by (rule exI, rule exI, rule conjI [OF demo_round], rule conjI [OF T]) simp
qed

section \<open>Convergence\<close>

text \<open>What the helper compares: whether a side is open when it should be, and its price.\<close>

definition at_wanted_price :: "target_quote \<Rightarrow> feed_side \<Rightarrow> order_state \<Rightarrow> bool" where
  "at_wanted_price t s cur \<longleftrightarrow> (if tq_active t then os_open cur \<and> os_price cur = want_price_of t s else \<not> os_open cur)"

definition side_after :: "order_state \<Rightarrow> target_quote \<Rightarrow> feed_side \<Rightarrow> u64 \<Rightarrow> order_state" where
  "side_after cur t s i =
    (if places cur t s then \<lparr>os_open = True, os_price = want_price_of t s, os_qty = tq_qty t, os_client_id = i\<rparr>
     else if cancels cur t s then no_order else cur)"

lemma send_side_actions:
  assumes x: "x = send_all (side_actions cur t s i) (om, live)" and "om_side om s = cur"
  shows "om_side (fst x) s = side_after cur t s i" "s' \<noteq> s \<Longrightarrow> om_side (fst x) s' = om_side om s'"
    "next_client_id (fst x) = next_client_id om"
  unfolding x side_actions_def side_after_def using assms(2)
  by (cases "places cur t s"; cases "cancels cur t s"; simp add: send_side)+

lemma side_after_wanted:
  "at_wanted_price t s (side_after cur t s i)"
  "at_wanted_price t s cur \<Longrightarrow> side_after cur t s i = cur"
  "at_wanted_price t s cur \<Longrightarrow> side_actions cur t s i = [] \<and> next_id cur t s i = i"
  by (cases "tq_active t"; cases "os_open cur"; simp add: at_wanted_price_def side_after_def side_actions_def next_id_def
      places_def cancels_def no_order_def)+

lemma reconcile_sent:
  assumes x: "x = send_all (reconcile_actions om t) (reconciled om t, live)"
  shows "\<exists>i. om_side (fst x) s = side_after (om_side om s) t s i"
    "next_client_id (fst x) = next_client_id (reconciled om t)"
proof -
  let ?i = "next_client_id om" and ?j = "next_id (yes_open om) t FYes (next_client_id om)"
  obtain om1 live1 where y: "send_all (side_actions (yes_open om) t FYes ?i) (reconciled om t, live) = (om1, live1)" by fastforce
  note Y = y [symmetric]
  have "yes_open om1 = side_after (yes_open om) t FYes ?i" "no_open om1 = no_open om"
      "next_client_id om1 = next_client_id (reconciled om t)"
    using send_side_actions(1) [OF Y] send_side_actions(2) [OF Y, of FNo] send_side_actions(3) [OF Y] by (simp_all add: reconciled_def)
  moreover have x: "x = send_all (side_actions (no_open om) t FNo ?j) (om1, live1)"
    using x y by (simp add: reconcile_actions_def send_all_append)
  ultimately have "yes_open (fst x) = side_after (yes_open om) t FYes ?i" "no_open (fst x) = side_after (no_open om) t FNo ?j"
      "next_client_id (fst x) = next_client_id (reconciled om t)"
    using send_side_actions(1) [OF x] send_side_actions(2) [OF x, of FYes] send_side_actions(3) [OF x] by simp_all
  then show "\<exists>i. om_side (fst x) s = side_after (om_side om s) t s i"
    "next_client_id (fst x) = next_client_id (reconciled om t)" by (cases s; auto)+
qed

lemma reconcile_idle:
  assumes "\<And>s. at_wanted_price t s (om_side om s)"
  shows "\<exists>b. reconcile t om = Some (b, om) \<and> cnt b = 0"
proof -
  obtain b where b: "reconcile t om = Some (b, reconciled om t)" "bundle_ok b" "bundle_actions b = reconcile_actions om t"
    using reconcile_ok by blast
  have "reconcile_actions om t = []" "reconciled om t = om"
    using side_after_wanted(3) [OF assms [of FYes]] side_after_wanted(3) [OF assms [of FNo]]
    by (simp_all add: reconcile_actions_def reconciled_def)
  moreover have "unat (cnt b) = length (bundle_actions b)" using b(2) by (simp add: bundle_ok_def bundle_actions_def)
  ultimately show ?thesis using b by (simp add: unat_eq_zero)
qed

text \<open>The order a side should hold after a round that started with \<open>old\<close>: none for an inactive target, the
  old one if it is at the target's price (whatever its quantity), else one with the target's price and
  quantity.\<close>

definition settled :: "target_quote \<Rightarrow> feed_side \<Rightarrow> order_state \<Rightarrow> order_state \<Rightarrow> bool" where
  "settled t s old new \<longleftrightarrow>
    (if \<not> tq_active t then \<not> os_open new
     else if os_open old \<and> os_price old = want_price_of t s then new = old
     else os_open new \<and> os_price new = want_price_of t s \<and> os_qty new = tq_qty t)"

lemma side_after_settled: "settled t s cur (side_after cur t s i)"
  by (auto simp: settled_def side_after_def places_def cancels_def no_order_def)

text \<open>(C22) One round of reconciliation is enough. Whatever the manager's state and the target,
  \<open>reconcile\<close> fills at most the four slots of the bundle. Once its actions are sent, a side is closed if
  the target is inactive; an order that was open at the target's price is left exactly as it was, also
  when the target now asks for another quantity; in every other case the side has an open order with
  the target's price and the target's quantity.
  A second call with the same target then finds nothing to do and
  changes nothing.\<close>

theorem reconcile_converges:
  "\<exists>b om1 om2 live2 b2. reconcile t om = Some (b, om1) \<and> unat (cnt b) \<le> 4 \<and>
     send_all (bundle_actions b) (om1, live) = (om2, live2) \<and>
     (\<forall>s. settled t s (om_side om s) (om_side om2 s)) \<and>
     reconcile t om2 = Some (b2, om2) \<and> cnt b2 = 0"
proof -
  obtain b where b: "reconcile t om = Some (b, reconciled om t)" "bundle_ok b" "bundle_actions b = reconcile_actions om t"
    using reconcile_ok by blast
  obtain om2 live2 where x: "send_all (reconcile_actions om t) (reconciled om t, live) = (om2, live2)" by fastforce
  have a: "\<exists>i. om_side om2 s = side_after (om_side om s) t s i" for s
    using reconcile_sent(1) [OF x [symmetric], of s] by simp
  then have on: "at_wanted_price t s (om_side om2 s)" for s using side_after_wanted(1) by metis
  obtain b2 where "reconcile t om2 = Some (b2, om2)" "cnt b2 = 0" using reconcile_idle [OF on] by blast
  moreover have "settled t s (om_side om s) (om_side om2 s)" for s using a [of s] side_after_settled by metis
  moreover have "unat (cnt b) \<le> 4" using b(2) by (simp add: bundle_ok_def)
  ultimately show ?thesis using b x by auto
qed

end
