(* ===== verification/Cpp_String.thy ===== *)
theory Cpp_String
  imports Prelude "HOL-Library.Sublist" "HOL-Library.Monad_Syntax"
begin

text \<open>
  The part of \<open>std::string\<close> the HTTP code uses: \<open>find\<close>, \<open>substr\<close>, \<open>std::stoi\<close> and
  \<open>std::to_string\<close>. Positions are 64-bit words, so that the arithmetic on \<open>npos\<close> is the
  program's; \<open>None\<close> is a thrown exception.
\<close>

section \<open>Operations\<close>

definition npos :: u64 where "npos = - 1"

fun find_at :: "string \<Rightarrow> string \<Rightarrow> nat option" where
  "find_at pat s =
    (if prefix pat s then Some 0
     else case s of [] \<Rightarrow> None | _ # s' \<Rightarrow> map_option Suc (find_at pat s'))"

declare find_at.simps [simp del]

definition str_find :: "string \<Rightarrow> string \<Rightarrow> u64 \<Rightarrow> u64" where
  "str_find s pat pos =
    (if unat pos \<le> length s
     then case find_at pat (drop (unat pos) s) of None \<Rightarrow> npos | Some i \<Rightarrow> pos + of_nat i
     else npos)"

definition substr :: "string \<Rightarrow> u64 \<Rightarrow> u64 \<Rightarrow> string option" where
  "substr s pos n = (if unat pos \<le> length s then Some (take (unat n) (drop (unat pos) s)) else None)"

text \<open>\<open>std::stoi\<close>: leading white space, an optional sign, then digits; anything may follow.\<close>

definition is_space :: "char \<Rightarrow> bool" where
  "is_space c \<longleftrightarrow> c = CHR '' '' \<or> (9 \<le> (of_char c :: nat) \<and> (of_char c :: nat) \<le> 13)"

definition is_digit :: "char \<Rightarrow> bool" where
  "is_digit c \<longleftrightarrow> 48 \<le> (of_char c :: nat) \<and> (of_char c :: nat) \<le> 57"

definition value_of :: "string \<Rightarrow> nat" where
  "value_of = foldl (\<lambda>v c. 10 * v + (of_char c - 48)) 0"

definition stoi :: "string \<Rightarrow> int option" where
  "stoi s =
    (let s = dropWhile is_space s;
         neg = (s \<noteq> [] \<and> hd s = CHR ''-'');
         s = (if s \<noteq> [] \<and> (hd s = CHR ''-'' \<or> hd s = CHR ''+'') then tl s else s);
         ds = takeWhile is_digit s;
         v = (if neg then - int (value_of ds) else int (value_of ds))
     in if ds = [] then None
        else if v < - (2 ^ 31) \<or> v \<ge> 2 ^ 31 then None
        else Some v)"

text \<open>\<open>std::to_string\<close> of a non-negative number.\<close>

definition digit :: "nat \<Rightarrow> char" where "digit n = char_of (48 + n)"

fun dec :: "nat \<Rightarrow> string" where
  "dec n = (if n < 10 then [digit n] else dec (n div 10) @ [digit (n mod 10)])"

declare dec.simps [simp del]

definition to_string :: "int \<Rightarrow> string" where
  "to_string i = (if i < 0 then CHR ''-'' # dec (nat (- i)) else dec (nat i))"

section \<open>Decimal numbers\<close>

lemma of_digit: "n < 10 \<Longrightarrow> of_char (digit n) = 48 + n"
  by (simp add: digit_def of_char_of)

lemma dec_digits: "dec n \<noteq> [] \<and> (\<forall>c\<in>set (dec n). is_digit c) \<and> value_of (dec n) = n"
proof (induction n rule: dec.induct)
  case (1 n)
  show ?case
  proof (cases "n < 10")
    case True
    then show ?thesis by (simp add: dec.simps [of n] is_digit_def of_digit value_of_def)
  next
    case False
    then show ?thesis using 1 [OF False] by (simp add: dec.simps [of n] is_digit_def of_digit value_of_def)
  qed
qed

lemma is_digit_neq: "is_digit c \<Longrightarrow> c \<noteq> CHR ''-''" "is_digit c \<Longrightarrow> c \<noteq> CHR ''+''" "is_digit c \<Longrightarrow> \<not> is_space c"
  "is_digit c \<Longrightarrow> c \<noteq> CHR 0x0D" "is_digit c \<Longrightarrow> c \<noteq> CHR '' ''"
  by (auto simp: is_digit_def is_space_def)

lemma stoi_dec:
  assumes "n < 2 ^ 31"
  shows "stoi (dec n) = Some (int n)"
proof -
  have d: "dec n \<noteq> []" "\<And>c. c \<in> set (dec n) \<Longrightarrow> is_digit c" "value_of (dec n) = n" using dec_digits by auto
  then obtain c cs where c: "dec n = c # cs" "is_digit c" by (cases "dec n") auto
  have "dropWhile is_space (dec n) = dec n" using c is_digit_neq by simp
  moreover have tw: "takeWhile is_digit (dec n) = dec n" using d(2) takeWhile_eq_all_conv by blast
  moreover have "hd (dec n) \<noteq> CHR ''-''" "hd (dec n) \<noteq> CHR ''+''" using c is_digit_neq by auto
  ultimately show ?thesis using d assms by (simp add: stoi_def Let_def tw)
qed

lemma dec_no_cr: "CHR 0x0D \<notin> set (dec n)"
  using dec_digits [of n] is_digit_neq(4) by blast

section \<open>Reading a text back\<close>

definition strip :: "string \<Rightarrow> string \<Rightarrow> string option" where
  "strip p s = (if take (length p) s = p then Some (drop (length p) s) else None)"

definition read_dec :: "string \<Rightarrow> (nat \<times> string) option" where
  "read_dec s = (if takeWhile is_digit s = [] then None else Some (value_of (takeWhile is_digit s), dropWhile is_digit s))"

lemma read_dec_dec: "\<not> is_digit c \<Longrightarrow> read_dec (dec n @ c # r) = Some (n, c # r)"
proof -
  assume "\<not> is_digit c"
  moreover have "\<And>x. x \<in> set (dec n) \<Longrightarrow> is_digit x" "dec n \<noteq> []" "value_of (dec n) = n" using dec_digits by auto
  ultimately show ?thesis by (simp add: read_dec_def takeWhile_append2 dropWhile_append2)
qed

lemma read_dec_then: "s \<noteq> [] \<Longrightarrow> \<not> is_digit (hd s) \<Longrightarrow> read_dec (dec n @ s) = Some (n, s)"
  by (cases s) (simp_all add: read_dec_dec)

lemma not_digits: "\<not> is_digit (CHR '','')" "\<not> is_digit (CHR ''}'')"
  by (simp_all add: is_digit_def)

lemma strip_append: "strip p (p @ r) = Some r"
  by (simp add: strip_def)

section \<open>Searching\<close>

lemma find_at_None: "find_at pat s = None \<longleftrightarrow> (\<forall>i. i \<le> length s \<longrightarrow> \<not> prefix pat (drop i s))"
proof (induction s)
  case Nil
  show ?case by (simp add: find_at.simps [of pat "[]"])
next
  case (Cons c s)
  have "(\<forall>i. i \<le> length (c # s) \<longrightarrow> \<not> prefix pat (drop i (c # s))) \<longleftrightarrow>
      \<not> prefix pat (c # s) \<and> (\<forall>i. i \<le> length s \<longrightarrow> \<not> prefix pat (drop i s))"
  proof (intro iffI conjI allI impI)
    fix i assume A: "\<not> prefix pat (c # s) \<and> (\<forall>i. i \<le> length s \<longrightarrow> \<not> prefix pat (drop i s))" "i \<le> length (c # s)"
    then show "\<not> prefix pat (drop i (c # s))" by (cases i) auto
  next
    assume A: "\<forall>i. i \<le> length (c # s) \<longrightarrow> \<not> prefix pat (drop i (c # s))"
    then show "\<not> prefix pat (c # s)" by (metis drop0 le0)
    fix i assume "i \<le> length s"
    then show "\<not> prefix pat (drop i s)" using A [rule_format, of "Suc i"] by simp
  qed
  then show ?case using Cons by (simp add: find_at.simps [of pat "c # s"])
qed

lemma find_at_Some: "find_at pat s = Some i \<longleftrightarrow> i \<le> length s \<and> prefix pat (drop i s) \<and> (\<forall>j<i. \<not> prefix pat (drop j s))"
proof (induction s arbitrary: i)
  case Nil
  show ?case by (auto simp: find_at.simps [of pat "[]"])
next
  case (Cons c s)
  show ?case
  proof (cases "prefix pat (c # s)")
    case True
    then show ?thesis by (auto simp: find_at.simps [of pat "c # s"] intro: gr0I)
  next
    case False
    then show ?thesis using Cons
      by (cases i) (auto simp: find_at.simps [of pat "c # s"] less_Suc_eq_0_disj)
  qed
qed

lemma find_at_append:
  assumes "pat = p # ps" "p \<notin> set u"
  shows "find_at pat (u @ pat @ v) = Some (length u)"
  using assms by (induction u) (simp_all add: find_at.simps)

lemma find_at_absent:
  assumes "pat = p # ps" "p \<notin> set u"
  shows "find_at pat u = None"
  using assms by (induction u) (simp_all add: find_at.simps)

text \<open>Strings are shorter than $2^{63}$, as \<open>max_size\<close> guarantees.\<close>

definition small :: "string \<Rightarrow> bool" where "small s \<longleftrightarrow> length s < 2 ^ 63"

lemma unat_pos: "small s \<Longrightarrow> k \<le> length s + 4 \<Longrightarrow> unat (of_nat k :: u64) = k"
  by (simp add: small_def unat_of_nat)

lemma of_nat_pos_eq: "small s \<Longrightarrow> j \<le> length s + 4 \<Longrightarrow> k \<le> length s + 4 \<Longrightarrow> (of_nat j :: u64) = of_nat k \<longleftrightarrow> j = k"
  by (metis unat_pos)

lemma npos_neq: "small s \<Longrightarrow> k \<le> length s + 4 \<Longrightarrow> of_nat k \<noteq> npos"
proof
  assume "small s" "k \<le> length s + 4" "of_nat k = npos"
  then have "unat npos = k" using unat_pos by metis
  moreover have "unat npos = 2 ^ 64 - 1" by (simp add: npos_def unsigned_minus_1_eq_mask mask_eq_exp_minus_1)
  ultimately show False using \<open>small s\<close> \<open>k \<le> length s + 4\<close> by (simp add: small_def)
qed

lemma str_find_of_nat:
  assumes "small s" "k \<le> length s"
  shows "str_find s pat (of_nat k) = (case find_at pat (drop k s) of None \<Rightarrow> npos | Some i \<Rightarrow> of_nat (k + i))"
  using assms unat_pos [of s k] by (simp add: str_find_def split: option.split)

lemma substr_of_nat:
  assumes "small s" "k \<le> length s"
  shows "substr s (of_nat k) n = Some (take (unat n) (drop k s))"
  using assms unat_pos [of s k] by (simp add: substr_def)

lemma substr_range:
  assumes "small s" "j \<le> k" "k \<le> length s"
  shows "substr s (of_nat j) (of_nat k - of_nat j) = Some (take (k - j) (drop j s))"
proof -
  have "(of_nat k - of_nat j :: u64) = of_nat (k - j)" using assms(2) by simp
  moreover have "unat (of_nat (k - j) :: u64) = k - j" using assms by (intro unat_pos [of s]) simp_all
  ultimately show ?thesis using assms by (simp add: substr_of_nat)
qed

end
