(* ===== verification/Serialize.thy ===== *)
theory Serialize
  imports Order_Manager Cpp_String
begin

text \<open>
  \<open>serialize_action\<close> of \<open>src/net/serialize.cpp\<close>: the JSON text of an action, written through a
  moving pointer into a caller's buffer. A cursor is the buffer with the write position; \<open>None\<close> is a
  write outside the buffer, a write outside the 20 bytes of the digit buffer, or a read past a
  ticker that has no terminator.
\<close>

unbundle bit_operations_syntax

section \<open>The routine\<close>

type_synonym cursor = "char list \<times> nat"

text \<open>\<open>*p++ = c\<close>.\<close>

definition put :: "char \<Rightarrow> cursor \<Rightarrow> cursor option" where
  "put c = (\<lambda>(out, p). if p < length out then Some (out[p := c], Suc p) else None)"

text \<open>\<open>emit_lit\<close> and the macro \<open>EMIT\<close>: copy the bytes and advance.\<close>

primrec emit_lit :: "char list \<Rightarrow> cursor \<Rightarrow> cursor option" where
  "emit_lit [] cur = Some cur"
| "emit_lit (c # cs) cur = do { cur \<leftarrow> put c cur; emit_lit cs cur }"

text \<open>The first loop of \<open>emit_u64\<close>: the digits, least significant first, into \<open>buf[20]\<close>.\<close>

function digits_loop :: "u64 \<Rightarrow> char list \<Rightarrow> nat \<Rightarrow> (char list \<times> nat) option" where
  "digits_loop v buf len =
    (if v > 0 then
       if len < length buf
       then digits_loop (v div 10) (buf[len := char_of (unat (48 + v mod 10))]) (Suc len)
       else None
     else Some (buf, len))"
  by pat_completeness auto
termination
  by (relation "measure (\<lambda>(v, buf, len). unat v)") (auto simp: unat_div word_gt_0 unat_gt_0)

text \<open>The second loop: the digits in reverse.\<close>

fun copy_loop :: "char list \<Rightarrow> nat \<Rightarrow> cursor \<Rightarrow> cursor option" where
  "copy_loop buf len cur =
    (if len > 0 then do { cur \<leftarrow> put (buf ! (len - 1)) cur; copy_loop buf (len - 1) cur } else Some cur)"

declare digits_loop.simps [simp del] copy_loop.simps [simp del]

definition emit_u64 :: "u64 \<Rightarrow> cursor \<Rightarrow> cursor option" where
  "emit_u64 v cur =
    (if v = 0 then put (CHR ''0'') cur
     else do {
       (buf, len) \<leftarrow> digits_loop v (replicate 20 (CHR 0x00)) 0;
       copy_loop buf len cur
     })"

definition emit_u8 :: "u8 \<Rightarrow> cursor \<Rightarrow> cursor option" where
  "emit_u8 v cur = do {
     cur \<leftarrow> (if v \<ge> 10 then put (char_of (48 + unat (v div 10))) cur else Some cur);
     put (char_of (48 + unat (v mod 10))) cur
   }"

text \<open>\<open>strlen\<close>: defined only for a terminated string.\<close>

definition strlen :: "char list \<Rightarrow> nat option" where
  "strlen s = (if CHR 0x00 \<in> set s then Some (length (c_string s)) else None)"

definition serialize_action :: "action \<Rightarrow> char list \<Rightarrow> char list \<Rightarrow> u64 \<Rightarrow> (nat \<times> char list) option" where
\<open>serialize_action a ticker out cap =
    (if cap < 256 then Some (0, out)
     else do {
       n \<leftarrow> strlen ticker;
       (out, p) \<leftarrow> (case a_kind a of
         PLACE \<Rightarrow> do {
           cur \<leftarrow> emit_lit ''{"action":"place","ticker":"'' (out, 0);
           cur \<leftarrow> emit_lit (take n ticker) cur;
           cur \<leftarrow> emit_lit ''","side":"'' cur;
           cur \<leftarrow> (if a_side a = FYes then emit_lit ''yes'' cur else emit_lit ''no'' cur);
           cur \<leftarrow> emit_lit ''","price":'' cur;
           cur \<leftarrow> emit_u8 (a_price a) cur;
           cur \<leftarrow> emit_lit '',"qty":'' cur;
           cur \<leftarrow> emit_u64 (ucast (a_qty a)) cur;
           cur \<leftarrow> emit_lit '',"client_id":'' cur;
           cur \<leftarrow> emit_u64 (a_client_id a) cur;
           emit_lit ''}'' cur
         }
       | CANCEL \<Rightarrow> do {
           cur \<leftarrow> emit_lit ''{"action":"cancel","ticker":"'' (out, 0);
           cur \<leftarrow> emit_lit (take n ticker) cur;
           cur \<leftarrow> emit_lit ''","client_id":'' cur;
           cur \<leftarrow> emit_u64 (a_client_id a) cur;
           emit_lit ''}'' cur
         });
       Some (p, out)
     })\<close>

section \<open>The text of an action\<close>

definition side_text :: "feed_side \<Rightarrow> string" where
  "side_text s = (case s of FYes \<Rightarrow> ''yes'' | FNo \<Rightarrow> ''no'')"

definition action_text :: "action \<Rightarrow> string \<Rightarrow> string" where
\<open>action_text a t = (case a_kind a of
     PLACE \<Rightarrow> ''{"action":"place","ticker":"'' @ t @ ''","side":"'' @ side_text (a_side a) @ ''","price":'' @ dec (unat (a_price a)) @
              '',"qty":'' @ dec (unat (a_qty a)) @ '',"client_id":'' @ dec (unat (a_client_id a)) @ ''}''
   | CANCEL \<Rightarrow> ''{"action":"cancel","ticker":"'' @ t @ ''","client_id":'' @ dec (unat (a_client_id a)) @ ''}'')\<close>

text \<open>Writing a text at the cursor.\<close>

definition wrote :: "string \<Rightarrow> cursor \<Rightarrow> cursor" where
  "wrote s = (\<lambda>(out, p). (take p out @ s @ drop (p + length s) out, p + length s))"

definition room :: "nat \<Rightarrow> cursor \<Rightarrow> bool" where
  "room k = (\<lambda>(out, p). p + k \<le> length out)"

lemma room_wrote [simp]: "room k (wrote s cur) \<longleftrightarrow> room (length s + k) cur" if "room (length s) cur"
  using that by (cases cur) (auto simp: room_def wrote_def)

lemma room_mono: "room k cur \<Longrightarrow> j \<le> k \<Longrightarrow> room j cur"
  by (cases cur) (simp add: room_def)

lemma wrote_wrote: "room (length s) cur \<Longrightarrow> wrote t (wrote s cur) = wrote (s @ t) cur"
  by (cases cur) (auto simp: room_def wrote_def add.commute add.left_commute)

lemma wrote_Nil [simp]: "wrote [] cur = cur"
  by (cases cur) (simp add: wrote_def)

lemma put_ok: "room 1 cur \<Longrightarrow> put c cur = Some (wrote [c] cur)"
  by (cases cur) (auto simp: room_def put_def wrote_def upd_conv_take_nth_drop)

lemma emit_lit_ok: "room (length s) cur \<Longrightarrow> emit_lit s cur = Some (wrote s cur)"
proof (induction s arbitrary: cur)
  case (Cons c s)
  have "room 1 cur" using Cons.prems room_mono by fastforce
  then show ?case using Cons by (simp add: put_ok wrote_wrote)
qed simp

subsection \<open>Decimal numbers\<close>

lemma digit_0 [simp]: "digit 0 = CHR ''0''"
  by code_simp

lemma unat_numeral_10 [simp]: "unat (10 :: u64) = 10"
  by simp

lemma length_dec: "n < 10 ^ k \<Longrightarrow> 0 < k \<Longrightarrow> length (dec n) \<le> k"
proof (induction k arbitrary: n)
  case (Suc k)
  show ?case
  proof (cases "n < 10")
    case True then show ?thesis by (simp add: dec.simps [of n])
  next
    case False
    have "n div 10 < 10 ^ k" using Suc.prems(1) by (simp add: less_mult_imp_div_less mult.commute)
    moreover have "0 < k" using False Suc.prems(1) by (cases k) auto
    ultimately show ?thesis using False Suc.IH by (simp add: dec.simps [of n])
  qed
qed simp

lemma length_dec_u8: "length (dec (unat (v :: u8))) \<le> 3"
  by (rule length_dec) (use unsigned_less [of v, where ?'a = nat] in simp_all)

lemma length_dec_u32: "length (dec (unat (v :: u32))) \<le> 10"
  by (rule length_dec) (use unsigned_less [of v, where ?'a = nat] in simp_all)

lemma length_dec_u64: "length (dec (unat (v :: u64))) \<le> 20"
  by (rule length_dec) (use unsigned_less [of v, where ?'a = nat] in simp_all)

lemma digit_u64: "char_of (unat (48 + v mod 10 :: u64)) = digit (unat v mod 10)"
proof -
  have "unat (v mod 10) = unat v mod 10" by (simp add: unat_mod)
  then have "unat (48 + v mod 10) = 48 + unat v mod 10" by (subst unat_add_lem [THEN iffD1]) simp_all
  then show ?thesis by (simp add: digit_def)
qed

lemma dec_step: "0 < n div 10 \<Longrightarrow> dec n = dec (n div 10) @ [digit (n mod 10)]"
  by (cases "n < 10") (simp_all add: dec.simps [of n])

lemma digits_loop_ok:
  "0 < v \<Longrightarrow> len + length (dec (unat v)) \<le> length buf \<Longrightarrow>
   digits_loop v buf len =
     Some (take len buf @ rev (dec (unat v)) @ drop (len + length (dec (unat v))) buf, len + length (dec (unat v)))"
proof (induction v buf len rule: digits_loop.induct)
  case (1 v buf len)
  have len: "len < length buf" using "1.prems"(2) dec.simps [of "unat v"] by (simp split: if_splits)
  show ?case
  proof (cases "v div 10 = 0")
    case True
    then have "unat v div 10 = 0" by (metis unat_0 unat_div unat_numeral_10)
    then have "unat v < 10" by simp
    then have d: "dec (unat v) = [digit (unat v)]" by (simp add: dec.simps)
    then show ?thesis using len "1.prems"(1) True \<open>unat v < 10\<close>
      by (subst digits_loop.simps) (simp add: digits_loop.simps digit_u64 upd_conv_take_nth_drop)
  next
    case False
    then have "0 < v div 10" by (simp add: word_gt_0)
    moreover have u: "unat (v div 10) = unat v div 10" by (simp add: unat_div)
    ultimately have p: "0 < unat v div 10" by (simp add: word_gt_0 unat_gt_0 flip: u)
    then have l: "length (dec (unat v)) = Suc (length (dec (unat v div 10)))" by (simp add: dec_step)
    let ?b = "buf[len := char_of (unat (48 + v mod 10))]"
    have "digits_loop v buf len = digits_loop (v div 10) ?b (Suc len)"
      using "1.prems"(1) len by (subst digits_loop.simps) simp
    also have "\<dots> = Some (take (Suc len) ?b @ rev (dec (unat v div 10)) @ drop (Suc len + length (dec (unat v div 10))) ?b,
        Suc len + length (dec (unat v div 10)))"
      using "1.IH" [OF "1.prems"(1) len \<open>0 < v div 10\<close>] "1.prems"(2) l by (simp add: u)
    finally show ?thesis
      using l len dec_step [OF p] by (simp add: digit_u64 take_Suc_conv_app_nth)
  qed
qed

lemma copy_loop_ok:
  "len \<le> length buf \<Longrightarrow> room len cur \<Longrightarrow> copy_loop buf len cur = Some (wrote (rev (take len buf)) cur)"
proof (induction len arbitrary: cur)
  case (Suc len)
  have "room 1 cur" using Suc.prems(2) room_mono by fastforce
  then show ?case using Suc
    by (subst copy_loop.simps) (simp add: put_ok wrote_wrote take_Suc_conv_app_nth)
qed (simp add: copy_loop.simps)

lemma emit_u64_ok:
  assumes "room (length (dec (unat v))) cur"
  shows "emit_u64 v cur = Some (wrote (dec (unat v)) cur)"
proof (cases "v = 0")
  case True
  then show ?thesis using assms put_ok [of cur] by (simp add: emit_u64_def dec.simps)
next
  case False
  then have "0 < v" by (simp add: word_gt_0)
  then have "digits_loop v (replicate 20 (CHR 0x00)) 0 =
      Some (rev (dec (unat v)) @ replicate (20 - length (dec (unat v))) (CHR 0x00), length (dec (unat v)))"
    using digits_loop_ok [of v 0 "replicate 20 (CHR 0x00)"] length_dec_u64 [of v] by simp
  then show ?thesis using False assms by (simp add: emit_u64_def copy_loop_ok)
qed

lemma emit_u8_ok:
  assumes "room (length (dec (unat v))) cur" "v < 100"
  shows "emit_u8 v cur = Some (wrote (dec (unat v)) cur)"
proof -
  have v: "unat v < 100" "v \<ge> 10 \<longleftrightarrow> 10 \<le> unat v" "unat (v div 10) = unat v div 10" "unat (v mod 10) = unat v mod 10"
    using assms(2) by (simp_all add: word_less_nat_alt word_le_nat_alt unat_div unat_mod)
  have d: "dec (unat v) = (if 10 \<le> unat v then [digit (unat v div 10), digit (unat v mod 10)] else [digit (unat v)])"
    using v(1) dec.simps [of "unat v"] dec.simps [of "unat v div 10"] by (simp add: less_mult_imp_div_less)
  have "room 1 cur" using assms(1) d room_mono [of "length (dec (unat v))" cur 1] by (simp split: if_splits)
  then show ?thesis using assms(1) d v by (simp add: emit_u8_def put_ok wrote_wrote digit_def split: if_splits)
qed

subsection \<open>The whole text\<close>

lemma emit_lit_next: "room (length t + length s) cur \<Longrightarrow> emit_lit s (wrote t cur) = Some (wrote (t @ s) cur)"
  by (simp add: emit_lit_ok wrote_wrote room_mono [of _ cur "length t"])

lemma emit_u64_next:
  "room (length t + length (dec (unat v))) cur \<Longrightarrow> emit_u64 v (wrote t cur) = Some (wrote (t @ dec (unat v)) cur)"
  by (simp add: emit_u64_ok wrote_wrote room_mono [of _ cur "length t"])

lemma emit_u8_next:
  "room (length t + length (dec (unat v))) cur \<Longrightarrow> v < 100 \<Longrightarrow> emit_u8 v (wrote t cur) = Some (wrote (t @ dec (unat v)) cur)"
  by (simp add: emit_u8_ok wrote_wrote room_mono [of _ cur "length t"])

lemmas emit_next = emit_lit_next emit_u64_next emit_u8_next

lemma room_start [simp]: "room k (out, 0) \<longleftrightarrow> k \<le> length out"
  by (simp add: room_def)

definition terminated :: "char list \<Rightarrow> bool" where
  "terminated ticker \<longleftrightarrow> CHR 0x00 \<in> set ticker \<and> length (c_string ticker) \<le> 31"

lemma strlen_terminated:
  "terminated ticker \<Longrightarrow> strlen ticker = Some (length (c_string ticker))" "take (length (c_string ticker)) ticker = c_string ticker"
  by (simp add: strlen_def terminated_def, simp add: c_string_def flip: takeWhile_eq_take)

lemma length_action_text:
  assumes "length t \<le> 31"
  shows "length (action_text a t) \<le> 136"
proof -
  have "length (side_text (a_side a)) \<le> 3" by (cases "a_side a") (simp_all add: side_text_def)
  then show ?thesis
    using assms length_dec_u8 [of "a_price a"] length_dec_u32 [of "a_qty a"] length_dec_u64 [of "a_client_id a"]
    by (cases "a_kind a") (simp_all add: action_text_def)
qed

lemma emit_lit_first: "length s \<le> length out \<Longrightarrow> emit_lit s (out, 0) = Some (wrote s (out, 0))"
  by (simp add: emit_lit_ok)

lemma emit_cancel_ok:
  assumes "length l1 + length t + length l2 + length (dec (unat v)) + length l3 \<le> length out"
  shows "do { cur \<leftarrow> emit_lit l1 (out, 0); cur \<leftarrow> emit_lit t cur; cur \<leftarrow> emit_lit l2 cur; cur \<leftarrow> emit_u64 v cur; emit_lit l3 cur }
    = Some (wrote (l1 @ t @ l2 @ dec (unat v) @ l3) (out, 0))"
  using assms by (simp add: emit_lit_first emit_next)

lemma emit_place_ok:
  assumes "length l1 + length t + length l2 + length s + length l3 + length (dec (unat p)) + length l4 + length (dec (unat q)) +
      length l5 + length (dec (unat v)) + length l6 \<le> length out" "p < 100"
  shows "do { cur \<leftarrow> emit_lit l1 (out, 0); cur \<leftarrow> emit_lit t cur; cur \<leftarrow> emit_lit l2 cur; cur \<leftarrow> emit_lit s cur; cur \<leftarrow> emit_lit l3 cur;
      cur \<leftarrow> emit_u8 p cur; cur \<leftarrow> emit_lit l4 cur; cur \<leftarrow> emit_u64 q cur; cur \<leftarrow> emit_lit l5 cur; cur \<leftarrow> emit_u64 v cur; emit_lit l6 cur }
    = Some (wrote (l1 @ t @ l2 @ s @ l3 @ dec (unat p) @ l4 @ dec (unat q) @ l5 @ dec (unat v) @ l6) (out, 0))"
  using assms by (simp add: emit_lit_first emit_next)

lemma unat_ucast_u32_u64: "unat (ucast (w :: u32) :: u64) = unat w"
proof -
  have "unat w < 2 ^ 64" using unsigned_less [of w, where ?'a = nat] by simp
  then show ?thesis by (simp add: unsigned_ucast_eq take_bit_nat_eq_self)
qed

lemma serialize_writes:
  assumes t: "terminated ticker" and out: "256 \<le> length out" and cap: "256 \<le> cap" and price: "a_kind a = PLACE \<Longrightarrow> a_price a < 100"
  shows "serialize_action a ticker out cap =
    Some (length (action_text a (c_string ticker)), fst (wrote (action_text a (c_string ticker)) (out, 0)))"
proof -
  let ?t = "c_string ticker"
  have n: "\<not> cap < 256" using cap by simp
  have s: "(if a_side a = FYes then emit_lit ''yes'' cur else emit_lit ''no'' cur) = emit_lit (side_text (a_side a)) cur" for cur
    by (cases "a_side a") (simp_all add: side_text_def)
  have l: "length (action_text a ?t) \<le> length out"
    using length_action_text [of ?t a] t out by (simp add: terminated_def)
  have w: "(case wrote u (out, 0) of (out, p) \<Rightarrow> Some (p, out)) = Some (length u, fst (wrote u (out, 0)))" for u
    by (simp add: wrote_def)
  show ?thesis
  proof (cases "a_kind a")
    case PLACE
    show ?thesis
      unfolding serialize_action_def PLACE strlen_terminated(1) [OF t] s action_kind.case bind.bind_lunit strlen_terminated(2)
      using l by (subst emit_place_ok) (use n price w in \<open>simp_all add: PLACE action_text_def unat_ucast_u32_u64\<close>)
  next
    case CANCEL
    show ?thesis
      unfolding serialize_action_def CANCEL strlen_terminated(1) [OF t] action_kind.case bind.bind_lunit strlen_terminated(2)
      using l by (subst emit_cancel_ok) (use n w in \<open>simp_all add: CANCEL action_text_def\<close>)
  qed
qed

section \<open>Reading the text back\<close>

datatype wire = Wire_place string feed_side nat nat nat | Wire_cancel string nat

definition wire_of :: "action \<Rightarrow> string \<Rightarrow> wire" where
  "wire_of a t = (case a_kind a of
     PLACE \<Rightarrow> Wire_place t (a_side a) (unat (a_price a)) (unat (a_qty a)) (unat (a_client_id a))
   | CANCEL \<Rightarrow> Wire_cancel t (unat (a_client_id a)))"

definition read_quoted :: "string \<Rightarrow> string \<times> string" where
\<open>read_quoted s = (takeWhile (\<lambda>c. c \<noteq> CHR 0x22) s, dropWhile (\<lambda>c. c \<noteq> CHR 0x22) s)\<close>

definition decode_action :: "string \<Rightarrow> wire option" where
\<open>decode_action s =
   (case strip ''{"action":"place","ticker":"'' s of
      Some r \<Rightarrow> do {
        let (t, r) = read_quoted r;
        r \<leftarrow> strip ''","side":"'' r;
        let (sd, r) = read_quoted r;
        sd \<leftarrow> (if sd = ''yes'' then Some FYes else if sd = ''no'' then Some FNo else None);
        r \<leftarrow> strip ''","price":'' r;
        (p, r) \<leftarrow> read_dec r;
        r \<leftarrow> strip '',"qty":'' r;
        (q, r) \<leftarrow> read_dec r;
        r \<leftarrow> strip '',"client_id":'' r;
        (i, r) \<leftarrow> read_dec r;
        if r = ''}'' then Some (Wire_place t sd p q i) else None
      }
    | None \<Rightarrow> do {
        r \<leftarrow> strip ''{"action":"cancel","ticker":"'' s;
        let (t, r) = read_quoted r;
        r \<leftarrow> strip ''","client_id":'' r;
        (i, r) \<leftarrow> read_dec r;
        if r = ''}'' then Some (Wire_cancel t i) else None
      })\<close>

lemma read_quoted_append: \<open>CHR 0x22 \<notin> set t \<Longrightarrow> read_quoted (t @ CHR 0x22 # r) = (t, CHR 0x22 # r)\<close>
  by (induction t) (auto simp: read_quoted_def)

lemma decode_action_text:
  assumes \<open>CHR 0x22 \<notin> set t\<close>
  shows "decode_action (action_text a t) = Some (wire_of a t)"
proof -
  have nd: \<open>\<not> is_digit (CHR '','')\<close> \<open>\<not> is_digit (CHR ''}'')\<close> by (simp_all add: is_digit_def)
  have sd: \<open>CHR 0x22 \<notin> set (side_text (a_side a))\<close> by (cases "a_side a") (simp_all add: side_text_def)
  show ?thesis
  proof (cases "a_kind a")
    case PLACE
    let ?r5 = \<open>dec (unat (a_client_id a)) @ ''}''\<close>
    let ?r4 = \<open>dec (unat (a_qty a)) @ CHR '','' # ''"client_id":'' @ ?r5\<close>
    let ?r3 = \<open>dec (unat (a_price a)) @ CHR '','' # ''"qty":'' @ ?r4\<close>
    let ?r2 = \<open>side_text (a_side a) @ CHR 0x22 # '',"price":'' @ ?r3\<close>
    let ?r1 = \<open>t @ CHR 0x22 # '',"side":"'' @ ?r2\<close>
    have "action_text a t = ''{\"action\":\"place\",\"ticker\":\"'' @ ?r1" by (simp add: PLACE action_text_def)
    then have 1: "strip ''{\"action\":\"place\",\"ticker\":\"'' (action_text a t) = Some ?r1" by (simp only: strip_append)
    have 2: "strip ''\",\"side\":\"'' (CHR 0x22 # '',\"side\":\"'' @ ?r2) = Some ?r2" by (simp add: strip_def)
    have 3: "strip ''\",\"price\":'' (CHR 0x22 # '',\"price\":'' @ ?r3) = Some ?r3" by (simp add: strip_def)
    have 4: "strip '',\"qty\":'' (CHR '','' # ''\"qty\":'' @ ?r4) = Some ?r4" by (simp add: strip_def)
    have 5: "strip '',\"client_id\":'' (CHR '','' # ''\"client_id\":'' @ ?r5) = Some ?r5" by (simp add: strip_def)
    have 6: "(if side_text s = ''yes'' then Some FYes else if side_text s = ''no'' then Some FNo else None) = Some s" for s
      by (cases s) (simp_all add: side_text_def)
    show ?thesis
      unfolding decode_action_def 1 option.case read_quoted_append [OF assms] Let_def prod.case 2 bind.bind_lunit
        read_quoted_append [OF sd] 6 3 read_dec_dec [OF nd(1)] 4 5 read_dec_dec [OF nd(2)]
      by (simp add: PLACE wire_of_def)
  next
    case CANCEL
    let ?r2 = \<open>dec (unat (a_client_id a)) @ ''}''\<close>
    let ?r1 = \<open>t @ CHR 0x22 # '',"client_id":'' @ ?r2\<close>
    have a: "action_text a t = ''{\"action\":\"cancel\",\"ticker\":\"'' @ ?r1" by (simp add: CANCEL action_text_def)
    then have 1: "strip ''{\"action\":\"cancel\",\"ticker\":\"'' (action_text a t) = Some ?r1" by (simp only: strip_append)
    have 0: "strip ''{\"action\":\"place\",\"ticker\":\"'' (action_text a t) = None" by (simp add: a strip_def)
    have 2: "strip ''\",\"client_id\":'' (CHR 0x22 # '',\"client_id\":'' @ ?r2) = Some ?r2" by (simp add: strip_def)
    show ?thesis
      unfolding decode_action_def 0 1 option.case read_quoted_append [OF assms] Let_def prod.case 2 bind.bind_lunit
        read_dec_dec [OF nd(2)]
      by (simp add: CANCEL wire_of_def)
  qed
qed

text \<open>(C15) For a terminated ticker of at most 31 characters without a quote, and a two-digit price,
  \<open>serialize_action\<close> stays inside a buffer of 256 bytes: it writes at most 136 characters, leaves the
  rest of the buffer alone and never overruns its 20-byte digit buffer. What it writes can be read
  back: the kind, ticker, side, price, quantity and client id of the action.\<close>

theorem serialize_roundtrip:
  assumes "terminated ticker" \<open>CHR 0x22 \<notin> set (c_string ticker)\<close> "256 \<le> cap" "unat cap \<le> length out"
    "a_kind a = PLACE \<Longrightarrow> a_price a < 100"
  shows "\<exists>n out'. serialize_action a ticker out cap = Some (n, out') \<and> n \<le> 136 \<and> length out' = length out \<and>
    drop n out' = drop n out \<and> decode_action (take n out') = Some (wire_of a (c_string ticker))"
proof -
  let ?t = "action_text a (c_string ticker)"
  have l: "length ?t \<le> 136" using length_action_text assms(1) by (simp add: terminated_def)
  have c: "256 \<le> length out" using assms(3,4) by (simp add: word_le_nat_alt)
  have "serialize_action a ticker out cap = Some (length ?t, ?t @ drop (length ?t) out)"
    using serialize_writes [OF assms(1) c assms(3,5)] by (simp add: wrote_def)
  then show ?thesis using l c decode_action_text [OF assms(2)] by (simp add: min_def)
qed

theorem serialize_roundtrip_witness:
  "\<exists>n out'. serialize_action \<lparr>a_kind = PLACE, a_side = FNo, a_price = 51, a_qty = 10, a_client_id = 2\<rparr>
      (''DEMO-1'' @ [CHR 0x00]) (replicate 256 (CHR 0x00)) 256 = Some (n, out') \<and> n \<le> 136 \<and>
    decode_action (take n out') = Some (Wire_place ''DEMO-1'' FNo 51 10 2)"
proof -
  let ?a = "\<lparr>a_kind = PLACE, a_side = FNo, a_price = 51, a_qty = 10, a_client_id = 2\<rparr> :: action"
  have t: "terminated (''DEMO-1'' @ [CHR 0x00])" "c_string (''DEMO-1'' @ [CHR 0x00]) = ''DEMO-1''"
    by (simp_all add: terminated_def c_string_def)
  have w: "wire_of ?a ''DEMO-1'' = Wire_place ''DEMO-1'' FNo 51 10 2" by (simp add: wire_of_def)
  have p: "a_price ?a < 100" by simp
  show ?thesis
    using serialize_roundtrip [OF t(1), of 256 "replicate 256 (CHR 0x00)" ?a] p unfolding t(2) w by force
qed

end
