(* ===== verification/Arena_Alloc.thy ===== *)
theory Arena_Alloc
  imports Prelude
begin

text \<open>
  The bump allocator of \<open>src/core/arena_alloc.h\<close>. Addresses and sizes are 64-bit words, so the
  additions of the code wrap; \<open>mmap\<close> is a parameter, and \<open>None\<close> is \<open>abort\<close>, from the failed
  mapping or from the assertion on the alignment.
\<close>

section \<open>The class\<close>

record arena =
  ar_base :: u64
  ar_capacity :: u64
  ar_offset :: u64

definition Arena_new :: "u64 \<Rightarrow> (u64 \<Rightarrow> u64 option) \<Rightarrow> arena option" where
  "Arena_new bytes mmap = (case mmap bytes of
     None \<Rightarrow> None
   | Some base \<Rightarrow> Some \<lparr>ar_base = base, ar_capacity = bytes, ar_offset = 0\<rparr>)"

definition arena_allocate :: "u64 \<Rightarrow> u64 \<Rightarrow> arena \<Rightarrow> (u64 \<times> arena) option" where
  "arena_allocate bytes align a =
    (if align AND (align - 1) \<noteq> 0 then None
     else
       let aligned = (ar_offset a + align - 1) AND NOT (align - 1)
       in if aligned + bytes > ar_capacity a then Some (0, a)
          else Some (ar_base a + aligned, a\<lparr>ar_offset := aligned + bytes\<rparr>))"

definition arena_reset :: "arena \<Rightarrow> arena" where
  "arena_reset a = a\<lparr>ar_offset := 0\<rparr>"

definition arena_used :: "arena \<Rightarrow> u64" where "arena_used a = ar_offset a"

definition arena_capacity :: "arena \<Rightarrow> u64" where "arena_capacity a = ar_capacity a"

section \<open>Rounding up\<close>

lemma and_not_plus_and: "(x AND NOT m) + (x AND m) = (x :: u64)"
proof -
  have "(x AND NOT m) + (x AND m) = (x AND NOT m) OR (x AND m)"
    by (rule disjunctive_add) (auto simp: bit_and_iff bit_not_iff)
  also have "\<dots> = x" by (rule bit_eqI) (auto simp: bit_and_iff bit_not_iff bit_or_iff)
  finally show ?thesis .
qed

lemma unat_and_not_mask:
  assumes "cap_ok c"
  shows "unat (x AND NOT (c - 1)) = unat x div unat c * unat c"
proof -
  have e: "x AND NOT (c - 1) = x - (x AND (c - 1))" using and_not_plus_and [of x "c - 1"] by (simp add: eq_diff_eq)
  have m: "unat (x AND (c - 1)) = unat x mod unat c" by (rule unat_and_mask [OF assms])
  then have "x AND (c - 1) \<le> x" by (simp add: word_le_nat_alt)
  then have "unat (x - (x AND (c - 1))) = unat x - unat x mod unat c" by (simp add: unat_sub m)
  then show ?thesis using e by (simp add: minus_mod_eq_div_mult)
qed

definition round_up :: "nat \<Rightarrow> nat \<Rightarrow> nat" where
  "round_up al n = (n + al - 1) div al * al"

lemma round_up: "0 < al \<Longrightarrow> al dvd round_up al n \<and> n \<le> round_up al n \<and> round_up al n < n + al"
proof -
  assume "0 < al"
  moreover have "round_up al n + (n + al - 1) mod al = n + al - 1" unfolding round_up_def by simp
  moreover have "(n + al - 1) mod al < al" using \<open>0 < al\<close> by simp
  ultimately have "n \<le> round_up al n" "round_up al n < n + al" by linarith+
  then show ?thesis by (simp add: round_up_def)
qed

lemma round_up_least: "0 < al \<Longrightarrow> al dvd m \<Longrightarrow> n \<le> m \<Longrightarrow> round_up al n \<le> m"
proof -
  assume "0 < al" "al dvd m" "n \<le> m"
  then obtain k where k: "m = k * al" by (auto simp: dvd_def mult.commute)
  have "(n + al - 1) div al \<le> (k * al + (al - 1)) div al"
    using \<open>n \<le> m\<close> \<open>0 < al\<close> k by (intro div_le_mono) linarith
  also have "\<dots> = k" using div_mult_self3 [of al k "al - 1"] \<open>0 < al\<close> by simp
  finally show ?thesis using k by (simp add: round_up_def)
qed

section \<open>Sequences of requests\<close>

text \<open>A request does not wrap when the end of its region is below the top of the address range.\<close>

definition no_wrap :: "arena \<Rightarrow> u64 \<Rightarrow> u64 \<Rightarrow> bool" where
  "no_wrap a bytes align \<longleftrightarrow> unat (ar_offset a) + unat align + unat bytes < 2 ^ 64"

lemma aligned_round_up:
  assumes "cap_ok align" "unat off + unat align < 2 ^ 64"
  shows "unat ((off + align - 1) AND NOT (align - 1)) = round_up (unat align) (unat off)"
proof -
  have p: "0 < unat align" using assms(1) by (rule cap_ok_pos)
  have "unat (off + align) = unat off + unat align" using assms(2) by (simp add: unat_word_ariths)
  moreover from this p have "off + align \<noteq> 0" by auto
  ultimately have "unat (off + align - 1) = unat off + unat align - 1" by (metis unat_minus_one)
  then show ?thesis by (simp add: unat_and_not_mask [OF assms(1)] round_up_def)
qed

lemma arena_allocate_cases:
  assumes "cap_ok align" "no_wrap a bytes align"
  defines "start \<equiv> round_up (unat align) (unat (ar_offset a))"
  shows "if start + unat bytes \<le> unat (ar_capacity a)
    then \<exists>a'. arena_allocate bytes align a = Some (ar_base a + of_nat start, a') \<and> ar_base a' = ar_base a \<and>
           ar_capacity a' = ar_capacity a \<and> unat (ar_offset a') = start + unat bytes
    else arena_allocate bytes align a = Some (0, a)"
proof -
  let ?al = "(ar_offset a + align - 1) AND NOT (align - 1)"
  have u: "unat ?al = start"
    using aligned_round_up [OF assms(1), of "ar_offset a"] assms(2) by (simp add: no_wrap_def start_def)
  have "start < unat (ar_offset a) + unat align"
    using round_up [OF cap_ok_pos [OF assms(1)], of "unat (ar_offset a)"] by (simp add: start_def)
  then have s: "unat (?al + bytes) = start + unat bytes"
    using assms(2) u by (simp add: unat_word_ariths no_wrap_def)
  have w: "?al = of_nat start" using u by (metis of_nat_unat ucast_id)
  have "align AND (align - 1) = 0" using assms(1) by (simp add: cap_ok_def)
  then show ?thesis
    using s by (auto simp: arena_allocate_def Let_def word_less_nat_alt w)
qed

text \<open>A client: requests and resets, with the regions handed out since the last \<open>reset\<close>, newest
  first, as address, size and alignment.\<close>

datatype arena_op = Request u64 u64 | Reset

type_synonym region = "u64 \<times> u64 \<times> u64"

fun arena_run :: "arena_op list \<Rightarrow> arena \<times> region list \<Rightarrow> (arena \<times> region list) option" where
  "arena_run [] (a, rs) = Some (a, rs)"
| "arena_run (Reset # ops) (a, rs) = arena_run ops (arena_reset a, [])"
| "arena_run (Request bytes align # ops) (a, rs) = (case arena_allocate bytes align a of
     None \<Rightarrow> None
   | Some (p, a') \<Rightarrow> arena_run ops (a', if p = 0 then rs else (p, bytes, align) # rs))"

text \<open>The regions lie one after the other between the base and the bump pointer, each at a
  multiple of its alignment from the base.\<close>

definition regions_ok :: "arena \<Rightarrow> region list \<Rightarrow> bool" where
  "regions_ok a rs \<longleftrightarrow>
    (\<forall>(p, n, al) \<in> set rs. ar_base a \<le> p \<and> unat p + unat n \<le> unat (ar_base a) + unat (ar_offset a) \<and>
       unat al dvd unat p - unat (ar_base a)) \<and>
    sorted_wrt (\<lambda>(p, n, al) (q, m, bl). unat q + unat m \<le> unat p) rs"

definition arena_ok :: "u64 \<Rightarrow> u64 \<Rightarrow> arena \<Rightarrow> region list \<Rightarrow> bool" where
  "arena_ok base bytes a rs \<longleftrightarrow> ar_base a = base \<and> ar_capacity a = bytes \<and> ar_offset a \<le> bytes \<and> regions_ok a rs"

definition op_ok :: "u64 \<Rightarrow> arena_op \<Rightarrow> bool" where
  "op_ok bytes op = (case op of
     Request n al \<Rightarrow> cap_ok al \<and> unat bytes + unat al + unat n < 2 ^ 64
   | Reset \<Rightarrow> True)"

lemma arena_request_ok:
  assumes ok: "arena_ok base bytes a rs" and op: "op_ok bytes (Request n al)"
    and map: "0 < base" "unat base + unat bytes < 2 ^ 64"
  shows "\<exists>p a'. arena_allocate n al a = Some (p, a') \<and> arena_ok base bytes a' (if p = 0 then rs else (p, n, al) # rs)"
proof -
  let ?s = "round_up (unat al) (unat (ar_offset a))"
  have A: "ar_base a = base" "ar_capacity a = bytes" "unat (ar_offset a) \<le> unat bytes" "regions_ok a rs"
    using ok by (simp_all add: arena_ok_def word_le_nat_alt)
  have al: "cap_ok al" and "no_wrap a n al" using op A(3) by (simp_all add: op_ok_def no_wrap_def)
  note C = arena_allocate_cases [OF this]
  have r: "unat al dvd ?s" "unat (ar_offset a) \<le> ?s" using round_up [OF cap_ok_pos [OF al]] by simp_all
  show ?thesis
  proof (cases "?s + unat n \<le> unat (ar_capacity a)")
    case False
    then have "arena_allocate n al a = Some (0, a)" using C by simp
    then show ?thesis using ok by simp
  next
    case True
    then obtain a' where a': "arena_allocate n al a = Some (base + of_nat ?s, a')" "ar_base a' = base"
        "ar_capacity a' = bytes" "unat (ar_offset a') = ?s + unat n"
      using C A by auto
    let ?p = "base + of_nat ?s :: u64"
    have "?s < 2 ^ 64" using True unat_u64_less [of "ar_capacity a"] by linarith
    then have p: "unat ?p = unat base + ?s" using map(2) True A(2) by (simp add: unat_word_ariths unat_of_nat)
    then have "?p \<noteq> 0" using map(1) by (metis add_is_0 less_irrefl unat_0 unat_eq_zero)
    moreover have "regions_ok a' ((?p, n, al) # rs)"
      using A(4) p a' r A(1) by (fastforce simp: regions_ok_def word_le_nat_alt)
    ultimately show ?thesis using a' True A(2) by (simp add: arena_ok_def word_le_nat_alt)
  qed
qed

lemma arena_run_ok:
  assumes "0 < base" "unat base + unat bytes < 2 ^ 64"
  shows "\<forall>op\<in>set ops. op_ok bytes op \<Longrightarrow> arena_ok base bytes a rs \<Longrightarrow>
    \<exists>a' rs'. arena_run ops (a, rs) = Some (a', rs') \<and> arena_ok base bytes a' rs'"
proof (induction ops arbitrary: a rs)
  case (Cons op ops)
  show ?case
  proof (cases op)
    case (Request n al)
    then have "op_ok bytes (Request n al)" using Cons.prems(1) by simp
    then obtain p a' where "arena_allocate n al a = Some (p, a')" "arena_ok base bytes a' (if p = 0 then rs else (p, n, al) # rs)"
      using arena_request_ok [OF Cons.prems(2) _ assms] by blast
    then show ?thesis using Cons Request by simp
  next
    case Reset
    have "arena_ok base bytes (arena_reset a) []"
      using Cons.prems(2) by (simp add: arena_ok_def arena_reset_def regions_ok_def)
    then show ?thesis using Cons Reset by simp
  qed
qed simp

text \<open>The offset of a region is aligned, so its address is as far as the base is.\<close>

lemma regions_aligned:
  assumes "regions_ok a rs" "page dvd unat (ar_base a)" "(p, n, al) \<in> set rs" "unat al dvd page"
  shows "unat al dvd unat p"
proof -
  have "ar_base a \<le> p" "unat al dvd unat p - unat (ar_base a)" using assms(1,3) by (auto simp: regions_ok_def)
  moreover have "unat al dvd unat (ar_base a)" using assms(2,4) by (rule dvd_trans [rotated])
  ultimately show ?thesis by (metis dvd_diffD word_le_nat_alt)
qed

text \<open>(C31) A client of an arena whose requests have power-of-two alignments and sizes that do not
  wrap is never aborted, and the regions it holds since the last \<open>reset\<close> lie inside the mapping, one
  after the other, hence pairwise disjoint, and below the bump pointer that \<open>used\<close> reports. Each is at a
  multiple of its alignment from the base; as \<open>mmap\<close> returns the start of a page, its address is a
  multiple of every alignment that divides the size of a page. For larger alignments only the
  distance from the base is aligned.\<close>

theorem arena_regions_disjoint:
  assumes "Arena_new bytes mmap = Some a" "0 < ar_base a" "unat (ar_base a) + unat bytes < 2 ^ 64"
    "page dvd unat (ar_base a)" "\<forall>op\<in>set ops. op_ok bytes op"
  shows "\<exists>a' rs. arena_run ops (a, []) = Some (a', rs) \<and> regions_ok a' rs \<and> ar_base a' = ar_base a \<and>
    (\<forall>(p, n, al)\<in>set rs. unat al dvd page \<longrightarrow> unat al dvd unat p) \<and>
    arena_used a' \<le> arena_capacity a' \<and> arena_capacity a' = bytes"
proof -
  have "arena_ok (ar_base a) bytes a []"
    using assms(1) by (auto simp: Arena_new_def arena_ok_def regions_ok_def split: option.splits)
  from arena_run_ok [OF assms(2,3,5) this] obtain a' rs where r: "arena_run ops (a, []) = Some (a', rs)" "arena_ok (ar_base a) bytes a' rs"
    by blast
  then have ok: "regions_ok a' rs" "ar_base a' = ar_base a" "arena_used a' \<le> arena_capacity a'" "arena_capacity a' = bytes"
    by (simp_all add: arena_ok_def arena_used_def arena_capacity_def)
  have "\<forall>(p, n, al)\<in>set rs. unat al dvd page \<longrightarrow> unat al dvd unat p"
    using regions_aligned [OF ok(1), of page] assms(4) ok(2) by auto
  then show ?thesis using r(1) ok by blast
qed

theorem arena_regions_disjoint_witness:
  "\<exists>a' rs. arena_run [Request 10 1, Request 8 16, Request 64 8] (\<lparr>ar_base = 4096, ar_capacity = 64, ar_offset = 0\<rparr>, []) = Some (a', rs) \<and>
     regions_ok a' rs \<and> rs = [(4112, 8, 16), (4096, 10, 1)] \<and> unat (16 :: u64) dvd unat (4112 :: u64)"
proof -
  let ?a = "\<lparr>ar_base = 4096, ar_capacity = 64, ar_offset = 0\<rparr>"
  let ?ops = "[Request 10 1, Request 8 16, Request 64 8]"
  have n: "Arena_new 64 (\<lambda>_. Some 4096) = Some ?a" by (simp add: Arena_new_def)
  have o: "\<forall>op\<in>set ?ops. op_ok 64 op" by (simp add: op_ok_def cap_ok_def)
  have p: "4096 dvd unat (ar_base ?a)" by simp
  have "arena_run ?ops (?a, []) = Some (?a\<lparr>ar_offset := 24\<rparr>, [(4112, 8, 16), (4096, 10, 1)])" by code_simp
  with arena_regions_disjoint [OF n _ _ p o] show ?thesis by simp
qed

text \<open>A request is refused only when it has to be: \<open>allocate\<close> returns null exactly when no offset
  at or above the bump pointer is a multiple of the alignment and leaves room for the region, and
  then the arena is unchanged.\<close>

theorem arena_refuses_only_full:
  assumes "cap_ok align" "no_wrap a bytes align" "0 < ar_base a" "unat (ar_base a) + unat (ar_capacity a) < 2 ^ 64"
  shows "\<exists>p a'. arena_allocate bytes align a = Some (p, a') \<and>
    (p = 0 \<longleftrightarrow> \<not> (\<exists>s. unat align dvd s \<and> unat (arena_used a) \<le> s \<and> s + unat bytes \<le> unat (ar_capacity a))) \<and>
    (p = 0 \<longrightarrow> a' = a)"
proof -
  let ?s = "round_up (unat align) (unat (ar_offset a))"
  note C = arena_allocate_cases [OF assms(1,2)]
  have pos: "0 < unat align" by (rule cap_ok_pos [OF assms(1)])
  show ?thesis
  proof (cases "?s + unat bytes \<le> unat (ar_capacity a)")
    case True
    have "?s < 2 ^ 64" using True unat_u64_less [of "ar_capacity a"] by linarith
    then have "unat (ar_base a + of_nat ?s) = unat (ar_base a) + ?s"
      using assms(4) True by (simp add: unat_word_ariths unat_of_nat)
    then have "ar_base a + of_nat ?s \<noteq> 0" using assms(3) by (metis add_is_0 less_irrefl unat_0 unat_eq_zero)
    then show ?thesis using C True round_up [OF pos, of "unat (ar_offset a)"] by (auto simp: arena_used_def)
  next
    case False
    have "\<not> (unat align dvd s \<and> unat (ar_offset a) \<le> s \<and> s + unat bytes \<le> unat (ar_capacity a))" for s
      using False round_up_least [OF pos, of s "unat (ar_offset a)"] by linarith
    then show ?thesis using C False by (simp add: arena_used_def)
  qed
qed

theorem arena_refuses_only_full_witness:
  "\<exists>a'. arena_allocate 64 8 \<lparr>ar_base = 4096, ar_capacity = 64, ar_offset = 24\<rparr> = Some (0, a') \<and> a' = \<lparr>ar_base = 4096, ar_capacity = 64, ar_offset = 24\<rparr>"
proof -
  let ?a = "\<lparr>ar_base = 4096, ar_capacity = 64, ar_offset = 24\<rparr>"
  have h: "cap_ok 8" "no_wrap ?a 64 8" "0 < ar_base ?a" "unat (ar_base ?a) + unat (ar_capacity ?a) < 2 ^ 64"
    by (simp_all add: cap_ok_def no_wrap_def)
  have "\<not> (\<exists>s. unat (8 :: u64) dvd s \<and> unat (arena_used ?a) \<le> s \<and> s + unat (64 :: u64) \<le> unat (ar_capacity ?a))"
    by (simp add: arena_used_def)
  with arena_refuses_only_full [OF h] show ?thesis by blast
qed



end
