(* ===== verification/Queue_Interface.thy ===== *)
theory Queue_Interface
  imports Prelude
begin

text \<open>
  The contract of a bounded first-in first-out queue as the feed pipeline relies on it: a push
  either appends its item or reports a full queue, a pop either takes the oldest item or reports an
  empty one.
\<close>

locale bounded_queue =
  fixes inv :: "'q \<Rightarrow> bool"
    and contents :: "'q \<Rightarrow> 'a list"
    and capacity :: nat
    and push :: "'a \<Rightarrow> 'q \<Rightarrow> bool \<times> 'q"
    and pop :: "'q \<Rightarrow> 'a option \<times> 'q"
  assumes bounded: "inv q \<Longrightarrow> length (contents q) \<le> capacity"
    and push_inv: "inv q \<Longrightarrow> inv (snd (push x q))"
    and push_full: "inv q \<Longrightarrow> length (contents q) = capacity \<Longrightarrow> \<not> fst (push x q) \<and> contents (snd (push x q)) = contents q"
    and push_room: "inv q \<Longrightarrow> length (contents q) < capacity \<Longrightarrow> fst (push x q) \<and> contents (snd (push x q)) = contents q @ [x]"
    and pop_inv: "inv q \<Longrightarrow> inv (snd (pop q))"
    and pop_empty: "inv q \<Longrightarrow> contents q = [] \<Longrightarrow> fst (pop q) = None \<and> contents (snd (pop q)) = []"
    and pop_item: "inv q \<Longrightarrow> contents q = x # xs \<Longrightarrow> fst (pop q) = Some x \<and> contents (snd (pop q)) = xs"
begin

text \<open>A schedule of pushes and pops, with the items accepted and the items delivered.\<close>

fun run :: "'a option list \<Rightarrow> 'q \<times> 'a list \<times> 'a list \<Rightarrow> 'q \<times> 'a list \<times> 'a list" where
  "run [] s = s"
| "run (Some x # ops) (q, ins, outs) = (let (ok, q') = push x q in run ops (q', if ok then ins @ [x] else ins, outs))"
| "run (None # ops) (q, ins, outs) = (case pop q of (None, q') \<Rightarrow> run ops (q', ins, outs) | (Some x, q') \<Rightarrow> run ops (q', ins, outs @ [x]))"

lemma run_fifo:
  "inv q \<Longrightarrow> ins = outs @ contents q \<Longrightarrow> run ops (q, ins, outs) = (q', ins', outs') \<Longrightarrow>
     inv q' \<and> ins' = outs' @ contents q'"
proof (induction ops arbitrary: q ins outs)
  case (Cons op ops)
  note IH = Cons.IH and prems = Cons.prems
  show ?case
  proof (cases op)
    case (Some x)
    have "fst (push x q) \<and> contents (snd (push x q)) = contents q @ [x] \<or> \<not> fst (push x q) \<and> contents (snd (push x q)) = contents q"
      using push_full [OF Cons.prems(1)] push_room [OF Cons.prems(1)] bounded [OF Cons.prems(1)] le_neq_implies_less by blast
    then show ?thesis
      using Cons.IH [OF push_inv [OF Cons.prems(1), of x]] Cons.prems Some by (auto simp: split_beta)
  next
    case None
    show ?thesis
    proof (cases "contents q")
      case Nil
      then show ?thesis
        using IH [OF pop_inv [OF prems(1)]] prems None pop_empty [OF prems(1) Nil] by (cases "pop q") auto
    next
      case (Cons y ys)
      then show ?thesis
        using IH [OF pop_inv [OF prems(1)], of ins "outs @ [y]"] prems None pop_item [OF prems(1) Cons] by (cases "pop q") auto
    qed
  qed
qed simp

end

end
