(* ===== verification/Spsc_Queue.thy ===== *)
theory Spsc_Queue
  imports Queue_Interface
begin

text \<open>
  The single-producer single-consumer ring buffer of \<open>src/core/spsc_queue.h\<close>: first its operations
  as functions, as one thread runs them alone, then the two threads as a step relation that
  interleaves their accesses to the shared fields. The template parameter \<open>Capacity\<close> is the
  argument \<open>cap\<close>; the indices are 64-bit words that wrap.
\<close>

section \<open>The class\<close>

record 'a spsc =
  sq_head :: u64
  sq_cached_tail :: u64
  sq_tail :: u64
  sq_cached_head :: u64
  sq_data :: "'a list"

text \<open>The elements of \<open>data_\<close> are default-initialised to whatever they are.\<close>

definition SPSCQueue_new :: "'a list \<Rightarrow> 'a spsc" where
  "SPSCQueue_new data = \<lparr>sq_head = 0, sq_cached_tail = 0, sq_tail = 0, sq_cached_head = 0, sq_data = data\<rparr>"

definition sq_slot :: "u64 \<Rightarrow> u64 \<Rightarrow> nat" where
  "sq_slot cap i = unat (i AND (cap - 1))"

definition try_push :: "u64 \<Rightarrow> 'a \<Rightarrow> 'a spsc \<Rightarrow> bool \<times> 'a spsc" where
  "try_push cap item q =
    (let h = sq_head q;
         q = (if h - sq_cached_tail q = cap then q\<lparr>sq_cached_tail := sq_tail q\<rparr> else q)
     in if h - sq_cached_tail q = cap then (False, q)
        else (True, q\<lparr>sq_data := (sq_data q)[sq_slot cap h := item], sq_head := h + 1\<rparr>))"

text \<open>The overload for an rvalue stores the same value; \<open>try_emplace\<close> stores the value that the
  constructor builds from the arguments, and only when there is room.\<close>

definition try_push_move :: "u64 \<Rightarrow> 'a \<Rightarrow> 'a spsc \<Rightarrow> bool \<times> 'a spsc" where
  "try_push_move cap item q =
    (let h = sq_head q;
         q = (if h - sq_cached_tail q = cap then q\<lparr>sq_cached_tail := sq_tail q\<rparr> else q)
     in if h - sq_cached_tail q = cap then (False, q)
        else (True, q\<lparr>sq_data := (sq_data q)[sq_slot cap h := item], sq_head := h + 1\<rparr>))"

definition try_emplace :: "u64 \<Rightarrow> ('args \<Rightarrow> 'a) \<Rightarrow> 'args \<Rightarrow> 'a spsc \<Rightarrow> bool \<times> 'a spsc" where
  "try_emplace cap constr args q =
    (let h = sq_head q;
         q = (if h - sq_cached_tail q = cap then q\<lparr>sq_cached_tail := sq_tail q\<rparr> else q)
     in if h - sq_cached_tail q = cap then (False, q)
        else (True, q\<lparr>sq_data := (sq_data q)[sq_slot cap h := constr args], sq_head := h + 1\<rparr>))"

definition try_pop :: "u64 \<Rightarrow> 'a spsc \<Rightarrow> 'a option \<times> 'a spsc" where
  "try_pop cap q =
    (let t = sq_tail q;
         q = (if sq_cached_head q - t = 0 then q\<lparr>sq_cached_head := sq_head q\<rparr> else q)
     in if sq_cached_head q - t = 0 then (None, q)
        else (Some (sq_data q ! sq_slot cap t), q\<lparr>sq_tail := t + 1\<rparr>))"

text \<open>\<open>front\<close> returns a pointer into \<open>data_\<close>, here the index of the element.\<close>

definition sq_front :: "u64 \<Rightarrow> 'a spsc \<Rightarrow> nat option \<times> 'a spsc" where
  "sq_front cap q =
    (let t = sq_tail q;
         q = (if sq_cached_head q - t = 0 then q\<lparr>sq_cached_head := sq_head q\<rparr> else q)
     in if sq_cached_head q - t = 0 then (None, q) else (Some (sq_slot cap t), q))"

definition sq_pop :: "'a spsc \<Rightarrow> bool \<times> 'a spsc" where
  "sq_pop q =
    (let t = sq_tail q;
         q = (if sq_cached_head q - t = 0 then q\<lparr>sq_cached_head := sq_head q\<rparr> else q)
     in if sq_cached_head q - t = 0 then (False, q) else (True, q\<lparr>sq_tail := t + 1\<rparr>))"

definition sq_size :: "'a spsc \<Rightarrow> u64" where
  "sq_size q = sq_head q - sq_tail q"

definition sq_empty :: "'a spsc \<Rightarrow> bool" where
  "sq_empty q \<longleftrightarrow> sq_size q = 0"

section \<open>Two threads\<close>

text \<open>
  Where a thread is between its accesses to the shared fields. The producer, in \<open>try_push\<close>, is about
  to reload \<open>tail_\<close>, to write the slot, or to publish the new head; the consumer, in one of its
  three operations, is about to reload \<open>head_\<close>, to read the slot, to publish the new tail with the
  item it has read, or to publish it without reading; or it holds the pointer \<open>front\<close> returned.
\<close>

datatype 'a producer = P_idle | P_reload u64 'a | P_write u64 'a | P_publish u64 'a

datatype pop_kind = Try_pop | Front | Pop

datatype 'a consumer = C_idle | C_reload u64 pop_kind | C_read u64 | C_front u64 | C_drop u64 | C_publish u64 'a

text \<open>A configuration also records the items published by the producer and those taken.\<close>

record 'a conf =
  queue :: "'a spsc"
  producer :: "'a producer"
  consumer :: "'a consumer"
  pushed :: "'a list"
  popped :: "'a list"

definition pop_enter :: "pop_kind \<Rightarrow> u64 \<Rightarrow> 'a consumer" where
  "pop_enter k t = (case k of Try_pop \<Rightarrow> C_read t | Front \<Rightarrow> C_front t | Pop \<Rightarrow> C_drop t)"

fun at_rest :: "'a consumer \<Rightarrow> bool" where
  "at_rest C_idle = True"
| "at_rest (C_front t) = True"
| "at_rest c = False"

inductive spsc_step :: "u64 \<Rightarrow> 'a conf \<Rightarrow> 'a conf \<Rightarrow> bool" for cap where
  push_call: "producer c = P_idle \<Longrightarrow> h = sq_head (queue c) \<Longrightarrow>
    spsc_step cap c (c\<lparr>producer := if h - sq_cached_tail (queue c) = cap then P_reload h x else P_write h x\<rparr>)"
| push_reload: "producer c = P_reload h x \<Longrightarrow> t = sq_tail (queue c) \<Longrightarrow>
    spsc_step cap c (c\<lparr>queue := (queue c)\<lparr>sq_cached_tail := t\<rparr>, producer := if h - t = cap then P_idle else P_write h x\<rparr>)"
| push_write: "producer c = P_write h x \<Longrightarrow>
    spsc_step cap c (c\<lparr>queue := (queue c)\<lparr>sq_data := (sq_data (queue c))[sq_slot cap h := x]\<rparr>, producer := P_publish h x\<rparr>)"
| push_publish: "producer c = P_publish h x \<Longrightarrow>
    spsc_step cap c (c\<lparr>queue := (queue c)\<lparr>sq_head := h + 1\<rparr>, producer := P_idle, pushed := pushed c @ [x]\<rparr>)"
| pop_call: "at_rest (consumer c) \<Longrightarrow> t = sq_tail (queue c) \<Longrightarrow>
    spsc_step cap c (c\<lparr>consumer := if sq_cached_head (queue c) - t = 0 then C_reload t k else pop_enter k t\<rparr>)"
| pop_reload: "consumer c = C_reload t k \<Longrightarrow> h = sq_head (queue c) \<Longrightarrow>
    spsc_step cap c (c\<lparr>queue := (queue c)\<lparr>sq_cached_head := h\<rparr>, consumer := if h - t = 0 then C_idle else pop_enter k t\<rparr>)"
| pop_read: "consumer c = C_read t \<Longrightarrow> spsc_step cap c (c\<lparr>consumer := C_publish t (sq_data (queue c) ! sq_slot cap t)\<rparr>)"
| pop_publish: "consumer c = C_publish t x \<Longrightarrow>
    spsc_step cap c (c\<lparr>queue := (queue c)\<lparr>sq_tail := t + 1\<rparr>, consumer := C_idle, popped := popped c @ [x]\<rparr>)"
| pop_drop: "consumer c = C_drop t \<Longrightarrow>
    spsc_step cap c (c\<lparr>queue := (queue c)\<lparr>sq_tail := t + 1\<rparr>, consumer := C_idle,
      popped := popped c @ [sq_data (queue c) ! sq_slot cap t]\<rparr>)"

definition spsc_init :: "'a list \<Rightarrow> 'a conf" where
  "spsc_init data = \<lparr>queue = SPSCQueue_new data, producer = P_idle, consumer = C_idle, pushed = [], popped = []\<rparr>"

definition spsc_reach :: "u64 \<Rightarrow> 'a list \<Rightarrow> 'a conf \<Rightarrow> bool" where
  "spsc_reach cap data c \<longleftrightarrow> (spsc_step cap)\<^sup>*\<^sup>* (spsc_init data) c"

section \<open>Invariant\<close>

text \<open>
  The indices are the counts of items modulo $2^{64}$, and the cached indices lag behind the real
  ones; \<open>ct\<close> and \<open>ch\<close> are the counts they stand for.
\<close>

definition producer_ok :: "'a spsc \<Rightarrow> 'a list \<Rightarrow> nat \<Rightarrow> nat \<Rightarrow> 'a producer \<Rightarrow> bool" where
  "producer_ok q ins ct n p = (case p of
     P_idle \<Rightarrow> True
   | P_reload h x \<Rightarrow> h = of_nat (length ins)
   | P_write h x \<Rightarrow> h = of_nat (length ins) \<and> length ins < ct + n
   | P_publish h x \<Rightarrow> h = of_nat (length ins) \<and> length ins < ct + n \<and> sq_data q ! (length ins mod n) = x)"

definition consumer_ok :: "'a list \<Rightarrow> 'a list \<Rightarrow> nat \<Rightarrow> 'a consumer \<Rightarrow> bool" where
  "consumer_ok ins outs ch c = (case c of
     C_idle \<Rightarrow> True
   | C_reload t k \<Rightarrow> t = of_nat (length outs)
   | C_read t \<Rightarrow> t = of_nat (length outs) \<and> length outs < ch
   | C_front t \<Rightarrow> t = of_nat (length outs) \<and> length outs < ch
   | C_drop t \<Rightarrow> t = of_nat (length outs) \<and> length outs < ch
   | C_publish t x \<Rightarrow> t = of_nat (length outs) \<and> length outs < ch \<and> x = ins ! length outs)"

definition ring_ok :: "'a spsc \<Rightarrow> 'a list \<Rightarrow> 'a list \<Rightarrow> nat \<Rightarrow> nat \<Rightarrow> nat \<Rightarrow> bool" where
  "ring_ok q ins outs ct ch n \<longleftrightarrow> length (sq_data q) = n \<and>
     sq_head q = of_nat (length ins) \<and> sq_tail q = of_nat (length outs) \<and>
     sq_cached_tail q = of_nat ct \<and> sq_cached_head q = of_nat ch \<and>
     ct \<le> length outs \<and> length outs \<le> ch \<and> ch \<le> length ins \<and> length ins \<le> ct + n \<and>
     take (length outs) ins = outs \<and>
     (\<forall>i. length outs \<le> i \<longrightarrow> i < length ins \<longrightarrow> sq_data q ! (i mod n) = ins ! i)"

definition spsc_inv :: "u64 \<Rightarrow> 'a conf \<Rightarrow> nat \<Rightarrow> nat \<Rightarrow> bool" where
  "spsc_inv cap c ct ch \<longleftrightarrow> ring_ok (queue c) (pushed c) (popped c) ct ch (unat cap) \<and>
     producer_ok (queue c) (pushed c) ct (unat cap) (producer c) \<and> consumer_ok (pushed c) (popped c) ch (consumer c)"

lemma sq_slot_of_nat:
  assumes "cap_ok cap"
  shows "sq_slot cap (of_nat i) = i mod unat cap"
proof -
  obtain k where k: "k < 64" "unat cap = 2 ^ k" by (rule cap_ok_pow2 [OF assms])
  have "unat cap dvd 2 ^ 64" unfolding k(2) by (rule le_imp_power_dvd) (use k in simp)
  then have "i mod 2 ^ 64 mod unat cap = i mod unat cap" by (rule mod_mod_cancel)
  then show ?thesis unfolding sq_slot_def unat_and_mask [OF assms] by (simp add: unat_of_nat)
qed

lemma unat_cap_le: "cap_ok cap \<Longrightarrow> unat cap < 2 ^ 64"
  by (rule unat_u64_less)

lemma of_nat_diff_small:
  assumes "b \<le> a" "a \<le> b + unat (cap :: u64)"
  shows "(of_nat a - of_nat b :: u64) = of_nat (a - b)" "unat (of_nat (a - b) :: u64) = a - b"
proof -
  have "a - b < 2 ^ 64" using assms unat_u64_less [of cap] by linarith
  then show "unat (of_nat (a - b) :: u64) = a - b" by (simp add: unat_of_nat)
  show "(of_nat a - of_nat b :: u64) = of_nat (a - b)" using assms(1) by simp
qed

lemma full_test:
  assumes "b \<le> a" "a \<le> b + unat cap"
  shows "(of_nat a - of_nat b :: u64) = cap \<longleftrightarrow> a = b + unat cap"
proof -
  have "(of_nat a - of_nat b :: u64) = cap \<longleftrightarrow> unat (of_nat (a - b) :: u64) = unat cap"
    unfolding of_nat_diff_small(1) [OF assms] by (simp add: word_unat_eq_iff)
  also have "\<dots> \<longleftrightarrow> a = b + unat cap" unfolding of_nat_diff_small(2) [OF assms] using assms by auto
  finally show ?thesis .
qed

lemma empty_test:
  assumes "b \<le> a" "a \<le> b + unat (cap :: u64)"
  shows "(of_nat a - of_nat b :: u64) = 0 \<longleftrightarrow> a = b"
proof -
  have "(of_nat a - of_nat b :: u64) = 0 \<longleftrightarrow> unat (of_nat (a - b) :: u64) = 0"
    unfolding of_nat_diff_small(1) [OF assms] by (simp add: unat_eq_zero)
  also have "\<dots> \<longleftrightarrow> a = b" unfolding of_nat_diff_small(2) [OF assms] using assms by auto
  finally show ?thesis .
qed

lemma slots_differ:
  assumes "i < j" "j < i + n"
  shows "j mod n \<noteq> i mod (n :: nat)"
proof
  assume "j mod n = i mod n"
  then have "n dvd j - i" using assms(1) by (simp add: mod_eq_dvd_iff_nat)
  then show False using assms nat_dvd_not_less [of "j - i" n] by auto
qed

lemma spsc_inv_push_call:
  assumes "spsc_inv cap c ct ch" "producer c = P_idle" "h = sq_head (queue c)"
  shows "spsc_inv cap (c\<lparr>producer := if h - sq_cached_tail (queue c) = cap then P_reload h x else P_write h x\<rparr>) ct ch"
  using assms full_test [of ct "length (pushed c)" cap]
  by (auto simp: spsc_inv_def ring_ok_def producer_ok_def)

lemma spsc_inv_push_reload:
  assumes "spsc_inv cap c ct ch" "producer c = P_reload h x" "t = sq_tail (queue c)"
  shows "spsc_inv cap (c\<lparr>queue := (queue c)\<lparr>sq_cached_tail := t\<rparr>, producer := if h - t = cap then P_idle else P_write h x\<rparr>)
    (length (popped c)) ch"
proof -
  have b: "length (popped c) \<le> length (pushed c)" "length (pushed c) \<le> length (popped c) + unat cap"
    using assms(1) by (simp_all add: spsc_inv_def ring_ok_def)
  then show ?thesis using assms full_test [OF b] by (simp add: spsc_inv_def ring_ok_def producer_ok_def)
qed

lemma spsc_inv_push_write:
  assumes cap: "cap_ok cap" and inv: "spsc_inv cap c ct ch" and p: "producer c = P_write h x"
  shows "spsc_inv cap (c\<lparr>queue := (queue c)\<lparr>sq_data := (sq_data (queue c))[sq_slot cap h := x]\<rparr>, producer := P_publish h x\<rparr>) ct ch"
proof -
  let ?n = "unat cap" and ?H = "length (pushed c)" and ?T = "length (popped c)"
  have H: "h = of_nat ?H" "?H < ct + ?n" and R: "ring_ok (queue c) (pushed c) (popped c) ct ch ?n"
    using inv p by (simp_all add: spsc_inv_def producer_ok_def)
  have s: "sq_slot cap h = ?H mod ?n" using H(1) sq_slot_of_nat [OF cap] by simp
  have in_range: "?H mod ?n < length (sq_data (queue c))" using R cap_ok_pos [OF cap] by (simp add: ring_ok_def)
  have "?H mod ?n \<noteq> i mod ?n" if "?T \<le> i" "i < ?H" for i
    using slots_differ [of i ?H ?n] that H(2) R by (simp add: ring_ok_def)
  then show ?thesis unfolding s using inv p R H in_range by (simp add: spsc_inv_def ring_ok_def producer_ok_def)
qed

lemma spsc_inv_push_publish:
  assumes "spsc_inv cap c ct ch" "producer c = P_publish h x"
  shows "spsc_inv cap (c\<lparr>queue := (queue c)\<lparr>sq_head := h + 1\<rparr>, producer := P_idle, pushed := pushed c @ [x]\<rparr>) ct ch"
proof -
  let ?n = "unat cap" and ?H = "length (pushed c)" and ?T = "length (popped c)"
  have R: "ring_ok (queue c) (pushed c) (popped c) ct ch ?n" and C: "consumer_ok (pushed c) (popped c) ch (consumer c)"
    and P: "h = of_nat ?H" "?H < ct + ?n" "sq_data (queue c) ! (?H mod ?n) = x"
    using assms by (simp_all add: spsc_inv_def producer_ok_def)
  have "sq_data (queue c) ! (i mod ?n) = (pushed c @ [x]) ! i" if "?T \<le> i" "i < Suc ?H" for i
    using that R P(3) by (cases "i = ?H") (simp_all add: ring_ok_def nth_append)
  moreover have "consumer_ok (pushed c @ [x]) (popped c) ch (consumer c)"
    using C R by (auto simp: consumer_ok_def ring_ok_def nth_append split: consumer.splits)
  ultimately show ?thesis using R P by (simp add: spsc_inv_def ring_ok_def producer_ok_def add.commute)
qed

lemma consumer_ok_enter:
  "t = of_nat (length outs) \<Longrightarrow> length outs < ch \<Longrightarrow> consumer_ok ins outs ch (pop_enter k t)"
  by (cases k) (simp_all add: consumer_ok_def pop_enter_def)

lemma spsc_inv_pop_call:
  assumes "spsc_inv cap c ct ch" "t = sq_tail (queue c)"
  shows "spsc_inv cap (c\<lparr>consumer := if sq_cached_head (queue c) - t = 0 then C_reload t k else pop_enter k t\<rparr>) ct ch"
proof -
  have b: "length (popped c) \<le> ch" "ch \<le> length (popped c) + unat cap"
    using assms(1) by (auto simp: spsc_inv_def ring_ok_def)
  show ?thesis
    using assms empty_test [OF b] b consumer_ok_enter [of t "popped c" ch "pushed c" k]
    by (auto simp: spsc_inv_def ring_ok_def consumer_ok_def)
qed

lemma spsc_inv_pop_reload:
  assumes "spsc_inv cap c ct ch" "consumer c = C_reload t k" "h = sq_head (queue c)"
  shows "spsc_inv cap (c\<lparr>queue := (queue c)\<lparr>sq_cached_head := h\<rparr>, consumer := if h - t = 0 then C_idle else pop_enter k t\<rparr>)
    ct (length (pushed c))"
proof -
  let ?H = "length (pushed c)"
  have b: "length (popped c) \<le> ?H" "?H \<le> length (popped c) + unat cap"
    using assms(1) by (auto simp: spsc_inv_def ring_ok_def)
  have t: "t = of_nat (length (popped c))" "h = of_nat ?H"
    using assms by (simp_all add: spsc_inv_def ring_ok_def consumer_ok_def)
  have "consumer_ok (pushed c) (popped c) ?H (if h - t = 0 then C_idle else pop_enter k t)"
    using empty_test [OF b] b consumer_ok_enter [OF t(1), of ?H] t by (simp add: consumer_ok_def)
  then show ?thesis using assms(1,3) b by (simp add: spsc_inv_def ring_ok_def producer_ok_def split: producer.splits)
qed

lemma consumer_item:
  assumes "cap_ok cap" "spsc_inv cap c ct ch" "t = of_nat (length (popped c))" "length (popped c) < ch"
  shows "sq_data (queue c) ! sq_slot cap t = pushed c ! length (popped c)"
  using assms by (simp add: sq_slot_of_nat spsc_inv_def ring_ok_def)

lemma spsc_inv_take:
  assumes inv: "spsc_inv cap c ct ch" and t: "t = of_nat (length (popped c))" "length (popped c) < ch" and x: "x = pushed c ! length (popped c)"
  shows "spsc_inv cap (c\<lparr>queue := (queue c)\<lparr>sq_tail := t + 1\<rparr>, consumer := C_idle, popped := popped c @ [x]\<rparr>) ct ch"
proof -
  let ?T = "length (popped c)"
  have R: "ring_ok (queue c) (pushed c) (popped c) ct ch (unat cap)" using inv by (simp add: spsc_inv_def)
  then have "?T < length (pushed c)" "take ?T (pushed c) = popped c" using t(2) by (simp_all add: ring_ok_def)
  then have "popped c @ [x] = take (Suc ?T) (pushed c)" using x by (metis take_Suc_conv_app_nth)
  then show ?thesis using inv R t
    by (simp add: spsc_inv_def ring_ok_def consumer_ok_def producer_ok_def add.commute split: producer.splits)
qed

lemma spsc_step_inv:
  assumes cap: "cap_ok cap"
  shows "spsc_step cap c c' \<Longrightarrow> spsc_inv cap c ct ch \<Longrightarrow> \<exists>ct' ch'. spsc_inv cap c' ct' ch'"
proof (induction rule: spsc_step.induct)
  case (push_call c h x)
  show ?case by (intro exI) (rule spsc_inv_push_call [OF push_call.prems push_call.hyps])
next
  case (push_reload c h x t)
  show ?case by (intro exI) (rule spsc_inv_push_reload [OF push_reload.prems push_reload.hyps])
next
  case (push_write c h x)
  show ?case by (intro exI) (rule spsc_inv_push_write [OF cap push_write.prems push_write.hyps])
next
  case (push_publish c h x)
  show ?case by (intro exI) (rule spsc_inv_push_publish [OF push_publish.prems push_publish.hyps])
next
  case (pop_call c t k)
  show ?case by (intro exI) (rule spsc_inv_pop_call [OF pop_call.prems pop_call.hyps(2)])
next
  case (pop_reload c t k h)
  show ?case by (intro exI) (rule spsc_inv_pop_reload [OF pop_reload.prems pop_reload.hyps])
next
  case (pop_read c t)
  then have t: "t = of_nat (length (popped c))" "length (popped c) < ch"
    by (simp_all add: spsc_inv_def consumer_ok_def)
  have "spsc_inv cap (c\<lparr>consumer := C_publish t (sq_data (queue c) ! sq_slot cap t)\<rparr>) ct ch"
    using consumer_item [OF cap pop_read.prems t] t pop_read.prems by (simp add: spsc_inv_def consumer_ok_def)
  then show ?case by (intro exI)
next
  case (pop_publish c t x)
  then have "t = of_nat (length (popped c))" "length (popped c) < ch" "x = pushed c ! length (popped c)"
    by (simp_all add: spsc_inv_def consumer_ok_def)
  from spsc_inv_take [OF pop_publish.prems this] show ?case by (intro exI)
next
  case (pop_drop c t)
  then have t: "t = of_nat (length (popped c))" "length (popped c) < ch"
    by (simp_all add: spsc_inv_def consumer_ok_def)
  from spsc_inv_take [OF pop_drop.prems t consumer_item [OF cap pop_drop.prems t]] show ?case by (intro exI)
qed

lemma spsc_reach_inv:
  assumes "cap_ok cap" "length data = unat cap" "spsc_reach cap data c"
  shows "\<exists>ct ch. spsc_inv cap c ct ch"
  using assms(3) unfolding spsc_reach_def
proof (induction rule: rtranclp_induct)
  case base
  have "spsc_inv cap (spsc_init data) 0 0"
    using assms(2) by (simp add: spsc_inv_def spsc_init_def SPSCQueue_new_def ring_ok_def producer_ok_def consumer_ok_def)
  then show ?case by blast
next
  case (step c c')
  then show ?case using spsc_step_inv [OF assms(1)] by blast
qed

section \<open>The operations as steps\<close>

lemma step_then: "spsc_step cap c c1 \<Longrightarrow> (spsc_step cap ^^ n) c1 c2 \<Longrightarrow> (spsc_step cap ^^ Suc n) c c2"
  by (rule relpowp_Suc_I2)

definition room_now :: "u64 \<Rightarrow> 'a spsc \<Rightarrow> bool" where
  "room_now cap q \<longleftrightarrow> sq_head q - sq_cached_tail q \<noteq> cap"

lemma try_push_unfold:
  "try_push cap x q =
    (if room_now cap q then (True, q\<lparr>sq_data := (sq_data q)[sq_slot cap (sq_head q) := x], sq_head := sq_head q + 1\<rparr>)
     else if sq_head q - sq_tail q = cap then (False, q\<lparr>sq_cached_tail := sq_tail q\<rparr>)
     else (True, q\<lparr>sq_cached_tail := sq_tail q, sq_data := (sq_data q)[sq_slot cap (sq_head q) := x], sq_head := sq_head q + 1\<rparr>))"
  by (simp add: try_push_def room_now_def Let_def)

lemma write_publish:
  assumes "producer c = P_write h x"
  shows "(spsc_step cap ^^ 2) c (c\<lparr>queue := (queue c)\<lparr>sq_data := (sq_data (queue c))[sq_slot cap h := x], sq_head := h + 1\<rparr>,
     producer := P_idle, pushed := pushed c @ [x]\<rparr>)"
proof -
  have 1: "spsc_step cap c (c\<lparr>queue := (queue c)\<lparr>sq_data := (sq_data (queue c))[sq_slot cap h := x]\<rparr>, producer := P_publish h x\<rparr>)"
    (is "spsc_step cap c ?c1") by (rule push_write [OF assms])
  have "spsc_step cap ?c1 (?c1\<lparr>queue := (queue ?c1)\<lparr>sq_head := h + 1\<rparr>, producer := P_idle, pushed := pushed ?c1 @ [x]\<rparr>)"
    by (rule push_publish) simp
  with 1 show ?thesis by (simp add: numeral_2_eq_2 OO_def) blast
qed

definition push_done :: "bool \<Rightarrow> 'a \<Rightarrow> 'a spsc \<Rightarrow> 'a conf \<Rightarrow> 'a conf" where
  "push_done ok x q c = c\<lparr>queue := q, producer := P_idle, pushed := pushed c @ (if ok then [x] else [])\<rparr>"

lemma solo_push:
  assumes "producer c = P_idle"
  shows "\<exists>n\<le>4. (spsc_step cap ^^ n) c (push_done (fst (try_push cap x (queue c))) x (snd (try_push cap x (queue c))) c)"
proof -
  let ?q = "queue c" and ?h = "sq_head (queue c)" and ?t = "sq_tail (queue c)"
  have call: "spsc_step cap c (c\<lparr>producer := if ?h - sq_cached_tail ?q = cap then P_reload ?h x else P_write ?h x\<rparr>)"
    by (rule push_call [OF assms refl])
  show ?thesis
  proof (cases "room_now cap ?q")
    case True
    then have "spsc_step cap c (c\<lparr>producer := P_write ?h x\<rparr>)" using call by (simp add: room_now_def)
    from step_then [OF this write_publish [of _ ?h x]]
    have "(spsc_step cap ^^ 3) c (push_done (fst (try_push cap x ?q)) x (snd (try_push cap x ?q)) c)"
      using True by (simp add: try_push_unfold push_done_def numeral_3_eq_3 numeral_2_eq_2)
    then show ?thesis by (intro exI [of _ 3]) simp
  next
    case False
    then have 1: "spsc_step cap c (c\<lparr>producer := P_reload ?h x\<rparr>)" (is "spsc_step cap c ?c1") using call by (simp add: room_now_def)
    have 2: "spsc_step cap ?c1 (?c1\<lparr>queue := (queue ?c1)\<lparr>sq_cached_tail := ?t\<rparr>, producer := if ?h - ?t = cap then P_idle else P_write ?h x\<rparr>)"
      (is "spsc_step cap ?c1 ?c2") by (rule push_reload) simp_all
    show ?thesis
    proof (cases "?h - ?t = cap")
      case True
      have "(spsc_step cap ^^ 2) c ?c2"
        using step_then [OF 1 step_then [OF 2], of 0] by (simp add: numeral_2_eq_2 OO_def)
      moreover have "?c2 = push_done (fst (try_push cap x ?q)) x (snd (try_push cap x ?q)) c"
        using True False assms by (simp add: try_push_unfold push_done_def)
      ultimately show ?thesis by (intro exI [of _ 2]) simp
    next
      case ne: False
      then have "producer ?c2 = P_write ?h x" by simp
      from step_then [OF 1 step_then [OF 2 write_publish [OF this]]]
      have "(spsc_step cap ^^ 4) c (push_done (fst (try_push cap x ?q)) x (snd (try_push cap x ?q)) c)"
        using ne False by (simp add: try_push_unfold push_done_def numeral_2_eq_2 eval_nat_numeral)
      then show ?thesis by (intro exI [of _ 4]) simp
    qed
  qed
qed

definition pop_done :: "'a option \<Rightarrow> 'a spsc \<Rightarrow> 'a conf \<Rightarrow> 'a conf" where
  "pop_done r q c = c\<lparr>queue := q, consumer := C_idle, popped := popped c @ (case r of None \<Rightarrow> [] | Some x \<Rightarrow> [x])\<rparr>"

lemma read_publish:
  assumes "consumer c = C_read t"
  shows "(spsc_step cap ^^ 2) c (c\<lparr>queue := (queue c)\<lparr>sq_tail := t + 1\<rparr>, consumer := C_idle,
     popped := popped c @ [sq_data (queue c) ! sq_slot cap t]\<rparr>)"
proof -
  have 1: "spsc_step cap c (c\<lparr>consumer := C_publish t (sq_data (queue c) ! sq_slot cap t)\<rparr>)"
    (is "spsc_step cap c ?c1") by (rule pop_read [OF assms])
  have "spsc_step cap ?c1 (?c1\<lparr>queue := (queue ?c1)\<lparr>sq_tail := t + 1\<rparr>, consumer := C_idle,
      popped := popped ?c1 @ [sq_data (queue c) ! sq_slot cap t]\<rparr>)"
    by (rule pop_publish) simp
  with 1 show ?thesis by (simp add: numeral_2_eq_2 OO_def) blast
qed

lemma solo_pop:
  assumes "at_rest (consumer c)"
  shows "\<exists>n\<le>4. (spsc_step cap ^^ n) c (pop_done (fst (try_pop cap (queue c))) (snd (try_pop cap (queue c))) c)"
proof -
  let ?q = "queue c" and ?h = "sq_head (queue c)" and ?t = "sq_tail (queue c)"
  have call: "spsc_step cap c (c\<lparr>consumer := if sq_cached_head ?q - ?t = 0 then C_reload ?t Try_pop else pop_enter Try_pop ?t\<rparr>)"
    by (rule pop_call [OF assms refl])
  show ?thesis
  proof (cases "sq_cached_head ?q - ?t = 0")
    case False
    then have "spsc_step cap c (c\<lparr>consumer := C_read ?t\<rparr>)" using call by (simp add: pop_enter_def)
    from step_then [OF this read_publish [of _ ?t]]
    have "(spsc_step cap ^^ 3) c (pop_done (fst (try_pop cap ?q)) (snd (try_pop cap ?q)) c)"
      using False by (simp add: try_pop_def Let_def pop_done_def numeral_3_eq_3 numeral_2_eq_2)
    then show ?thesis by (intro exI [of _ 3]) simp
  next
    case True
    then have 1: "spsc_step cap c (c\<lparr>consumer := C_reload ?t Try_pop\<rparr>)" (is "spsc_step cap c ?c1") using call by simp
    have 2: "spsc_step cap ?c1 (?c1\<lparr>queue := (queue ?c1)\<lparr>sq_cached_head := ?h\<rparr>,
        consumer := if ?h - ?t = 0 then C_idle else pop_enter Try_pop ?t\<rparr>)"
      (is "spsc_step cap ?c1 ?c2") by (rule pop_reload) simp_all
    show ?thesis
    proof (cases "?h - ?t = 0")
      case e: True
      have "(spsc_step cap ^^ 2) c ?c2"
        using step_then [OF 1 step_then [OF 2], of 0] by (simp add: numeral_2_eq_2 OO_def)
      moreover have "?c2 = pop_done (fst (try_pop cap ?q)) (snd (try_pop cap ?q)) c"
        using e True by (simp add: try_pop_def Let_def pop_done_def)
      ultimately show ?thesis by (intro exI [of _ 2]) simp
    next
      case False
      then have "consumer ?c2 = C_read ?t" by (simp add: pop_enter_def)
      from step_then [OF 1 step_then [OF 2 read_publish [OF this]]]
      have "(spsc_step cap ^^ 4) c (pop_done (fst (try_pop cap ?q)) (snd (try_pop cap ?q)) c)"
        using False True by (simp add: try_pop_def Let_def pop_done_def numeral_2_eq_2 eval_nat_numeral)
      then show ?thesis by (intro exI [of _ 4]) simp
    qed
  qed
qed

section \<open>The queue contract\<close>

definition sq_contents :: "u64 \<Rightarrow> 'a spsc \<Rightarrow> 'a list" where
  "sq_contents cap q = map (\<lambda>i. sq_data q ! sq_slot cap (sq_tail q + of_nat i)) [0..<unat (sq_size q)]"

definition sq_ok :: "u64 \<Rightarrow> 'a spsc \<Rightarrow> bool" where
  "sq_ok cap q \<longleftrightarrow> cap_ok cap \<and> (\<exists>ins outs ct ch. ring_ok q ins outs ct ch (unat cap))"

lemma ring_size:
  assumes "ring_ok q ins outs ct ch (unat (cap :: u64))"
  shows "unat (sq_size q) = length ins - length outs" "length outs \<le> length ins" "length ins \<le> length outs + unat cap"
proof -
  show b: "length outs \<le> length ins" "length ins \<le> length outs + unat cap" using assms by (simp_all add: ring_ok_def)
  show "unat (sq_size q) = length ins - length outs"
    using assms of_nat_diff_small [OF b] by (simp add: sq_size_def ring_ok_def)
qed

lemma ring_index:
  assumes "ring_ok q ins outs ct ch n"
  shows "sq_head q = of_nat (length ins)" "sq_tail q = of_nat (length outs)"
    "sq_cached_tail q = of_nat ct" "sq_cached_head q = of_nat ch"
  using assms by (simp_all add: ring_ok_def)

lemma ring_contents:
  assumes "cap_ok cap" "ring_ok q ins outs ct ch (unat cap)"
  shows "sq_contents cap q = drop (length outs) ins"
proof (rule nth_equalityI)
  show "length (sq_contents cap q) = length (drop (length outs) ins)"
    using ring_size [OF assms(2)] by (simp add: sq_contents_def)
  fix i assume "i < length (sq_contents cap q)"
  then have i: "i < length ins - length outs" using ring_size [OF assms(2)] by (simp add: sq_contents_def)
  have "sq_slot cap (sq_tail q + of_nat i) = (length outs + i) mod unat cap"
    using assms(2) sq_slot_of_nat [OF assms(1), of "length outs + i"] by (simp add: ring_ok_def)
  moreover have "sq_data q ! ((length outs + i) mod unat cap) = ins ! (length outs + i)"
    using assms(2) i by (simp add: ring_ok_def)
  ultimately show "sq_contents cap q ! i = drop (length outs) ins ! i"
    using i ring_size [OF assms(2)] by (simp add: sq_contents_def)
qed

lemma relpowp_inv:
  assumes "cap_ok cap"
  shows "(spsc_step cap ^^ n) c c' \<Longrightarrow> spsc_inv cap c ct ch \<Longrightarrow> \<exists>ct' ch'. spsc_inv cap c' ct' ch'"
proof (induction n arbitrary: c')
  case (Suc n)
  then show ?case using spsc_step_inv [OF assms] by (metis relpowp_Suc_E)
qed auto

lemma idle_inv:
  "ring_ok q ins outs ct ch (unat cap) \<longleftrightarrow>
     spsc_inv cap \<lparr>queue = q, producer = P_idle, consumer = C_idle, pushed = ins, popped = outs\<rparr> ct ch"
  by (simp add: spsc_inv_def producer_ok_def consumer_ok_def)

lemma try_push_ring:
  assumes cap: "cap_ok cap" and R: "ring_ok q ins outs ct ch (unat cap)"
  shows "\<exists>ct ch. ring_ok (snd (try_push cap x q)) (if fst (try_push cap x q) then ins @ [x] else ins) outs ct ch (unat cap)"
    "fst (try_push cap x q) \<longleftrightarrow> length ins < length outs + unat cap"
proof -
  let ?c = "\<lparr>queue = q, producer = P_idle, consumer = C_idle, pushed = ins, popped = outs\<rparr>"
  obtain n where n: "(spsc_step cap ^^ n) ?c (push_done (fst (try_push cap x q)) x (snd (try_push cap x q)) ?c)"
    using solo_push [of ?c cap x] by auto
  obtain ct' ch' where "spsc_inv cap (push_done (fst (try_push cap x q)) x (snd (try_push cap x q)) ?c) ct' ch'"
    using relpowp_inv [OF cap n R [unfolded idle_inv]] by blast
  then have "ring_ok (snd (try_push cap x q)) (if fst (try_push cap x q) then ins @ [x] else ins) outs ct' ch' (unat cap)"
    by (simp add: push_done_def spsc_inv_def split: if_splits)
  then show "\<exists>ct ch. ring_ok (snd (try_push cap x q)) (if fst (try_push cap x q) then ins @ [x] else ins) outs ct ch (unat cap)"
    by (intro exI)
  have b: "ct \<le> length outs" "length ins \<le> ct + unat cap" "ct \<le> length ins" using R by (simp_all add: ring_ok_def)
  have "fst (try_push cap x q) \<longleftrightarrow> sq_head q - sq_cached_tail q \<noteq> cap \<or> sq_head q - sq_tail q \<noteq> cap"
    by (simp add: try_push_unfold room_now_def)
  also have "\<dots> \<longleftrightarrow> length ins \<noteq> ct + unat cap \<or> length ins \<noteq> length outs + unat cap"
    unfolding ring_index [OF R] full_test [OF b(3,2)] full_test [OF ring_size(2,3) [OF R]] ..
  also have "\<dots> \<longleftrightarrow> length ins < length outs + unat cap" using b ring_size(3) [OF R] by linarith
  finally show "fst (try_push cap x q) \<longleftrightarrow> length ins < length outs + unat cap" .
qed

lemma try_pop_ring:
  assumes cap: "cap_ok cap" and R: "ring_ok q ins outs ct ch (unat cap)"
  shows "\<exists>ct ch. ring_ok (snd (try_pop cap q)) ins (outs @ (case fst (try_pop cap q) of None \<Rightarrow> [] | Some x \<Rightarrow> [x])) ct ch (unat cap)"
    "fst (try_pop cap q) = (if length outs < length ins then Some (ins ! length outs) else None)"
proof -
  let ?c = "\<lparr>queue = q, producer = P_idle, consumer = C_idle, pushed = ins, popped = outs\<rparr>"
  obtain n where n: "(spsc_step cap ^^ n) ?c (pop_done (fst (try_pop cap q)) (snd (try_pop cap q)) ?c)"
    using solo_pop [of ?c cap] by auto
  obtain ct' ch' where "spsc_inv cap (pop_done (fst (try_pop cap q)) (snd (try_pop cap q)) ?c) ct' ch'"
    using relpowp_inv [OF cap n R [unfolded idle_inv]] by blast
  then have "ring_ok (snd (try_pop cap q)) ins (outs @ (case fst (try_pop cap q) of None \<Rightarrow> [] | Some x \<Rightarrow> [x])) ct' ch' (unat cap)"
    by (simp add: pop_done_def spsc_inv_def)
  then show "\<exists>ct ch. ring_ok (snd (try_pop cap q)) ins (outs @ (case fst (try_pop cap q) of None \<Rightarrow> [] | Some x \<Rightarrow> [x])) ct ch (unat cap)"
    by (intro exI)
  have b: "length outs \<le> ch" "ch \<le> length outs + unat cap" "ch \<le> length ins" using R by (simp_all add: ring_ok_def)
  have "sq_data q ! sq_slot cap (sq_tail q) = ins ! length outs" if "length outs < length ins"
    using R that sq_slot_of_nat [OF cap] by (simp add: ring_ok_def)
  then show "fst (try_pop cap q) = (if length outs < length ins then Some (ins ! length outs) else None)"
    using empty_test [OF b(1,2)] empty_test [OF ring_size(2,3) [OF R]] b ring_size(2) [OF R]
    by (simp add: try_pop_def Let_def ring_index [OF R])
qed

interpretation sq: bounded_queue "sq_ok cap" "sq_contents cap" "unat cap" "try_push cap" "try_pop cap" for cap
proof
  fix q :: "'a spsc" and x :: 'a and xs
  assume "sq_ok cap q"
  then obtain ins outs ct ch where cap: "cap_ok cap" and R: "ring_ok q ins outs ct ch (unat cap)" by (auto simp: sq_ok_def)
  note C = ring_contents [OF cap R]
  obtain ct' ch' where P: "ring_ok (snd (try_push cap x q)) (if fst (try_push cap x q) then ins @ [x] else ins) outs ct' ch' (unat cap)"
    using try_push_ring(1) [OF cap R] by blast
  obtain ct'' ch'' where G: "ring_ok (snd (try_pop cap q)) ins (outs @ (case fst (try_pop cap q) of None \<Rightarrow> [] | Some x \<Rightarrow> [x])) ct'' ch'' (unat cap)"
    using try_pop_ring(1) [OF cap R] by blast
  show "length (sq_contents cap q) \<le> unat cap" using C ring_size [OF R] by simp
  show "sq_ok cap (snd (try_push cap x q))" using cap P unfolding sq_ok_def by blast
  show "sq_ok cap (snd (try_pop cap q))" using cap G unfolding sq_ok_def by blast
  show "\<not> fst (try_push cap x q) \<and> sq_contents cap (snd (try_push cap x q)) = sq_contents cap q"
    if "length (sq_contents cap q) = unat cap"
    using that C ring_contents [OF cap P] try_push_ring(2) [OF cap R, of x] ring_size [OF R] by simp
  show "fst (try_push cap x q) \<and> sq_contents cap (snd (try_push cap x q)) = sq_contents cap q @ [x]"
    if "length (sq_contents cap q) < unat cap"
    using that C ring_contents [OF cap P] try_push_ring(2) [OF cap R, of x] ring_size [OF R] by simp
  show "fst (try_pop cap q) = None \<and> sq_contents cap (snd (try_pop cap q)) = []" if "sq_contents cap q = []"
    using that C ring_contents [OF cap G] try_pop_ring(2) [OF cap R] by simp
  show "fst (try_pop cap q) = Some x \<and> sq_contents cap (snd (try_pop cap q)) = xs" if "sq_contents cap q = x # xs"
  proof -
    have d: "drop (length outs) ins = x # xs" using that C by simp
    then have l: "length outs < length ins" by (metis drop_eq_Nil linorder_not_le list.discI)
    have "ins ! length outs = x" "drop (Suc (length outs)) ins = xs"
      using d Cons_nth_drop_Suc [OF l] by simp_all
    then show ?thesis using ring_contents [OF cap G] try_pop_ring(2) [OF cap R] l by simp
  qed
qed

lemma sq_new_ok:
  assumes "cap_ok cap" "length data = unat cap"
  shows "sq_ok cap (SPSCQueue_new data)" "sq_contents cap (SPSCQueue_new data) = []"
proof -
  have "ring_ok (SPSCQueue_new data) [] [] 0 0 (unat cap)" using assms(2) by (simp add: ring_ok_def SPSCQueue_new_def)
  then show "sq_ok cap (SPSCQueue_new data)" using assms(1) unfolding sq_ok_def by blast
  show "sq_contents cap (SPSCQueue_new data) = []" by (simp add: sq_contents_def sq_size_def SPSCQueue_new_def)
qed

section \<open>Properties\<close>

lemma spsc_reach_cases:
  assumes "cap_ok cap" "length data = unat cap" "spsc_reach cap data c"
  obtains ct ch where "ring_ok (queue c) (pushed c) (popped c) ct ch (unat cap)"
    "producer_ok (queue c) (pushed c) ct (unat cap) (producer c)" "consumer_ok (pushed c) (popped c) ch (consumer c)"
  using spsc_reach_inv [OF assms] by (auto simp: spsc_inv_def)

text \<open>(C4) In every interleaving of a producer and a consumer, for any number of items, also after the
  64-bit indices have wrapped: what the consumer has taken is a prefix of what the producer has
  published, in the same order, and at most \<open>Capacity\<close> items are in between, as many as \<open>size\<close>
  reports.\<close>

theorem spsc_fifo:
  assumes "cap_ok cap" "length data = unat cap" "spsc_reach cap data c"
  shows "\<exists>waiting. pushed c = popped c @ waiting \<and> waiting = sq_contents cap (queue c) \<and> length waiting \<le> unat cap \<and>
     unat (sq_size (queue c)) = length waiting"
proof -
  obtain ct ch where R: "ring_ok (queue c) (pushed c) (popped c) ct ch (unat cap)"
    using spsc_reach_cases [OF assms] by blast
  then have "popped c @ drop (length (popped c)) (pushed c) = pushed c"
    by (metis append_take_drop_id ring_ok_def)
  then show ?thesis using ring_size [OF R] ring_contents [OF assms(1) R] by auto
qed

text \<open>A producer that pushes two items and a consumer that takes one, interleaved.\<close>

lemma demo_spsc:
  "\<exists>c. spsc_reach 2 [0, 0 :: nat] c \<and> pushed c = [7] \<and> popped c = [] \<and> producer c = P_write 1 8 \<and> consumer c = C_read 0"
proof -
  let ?i = "spsc_init [0, 0 :: nat]"
  obtain n c1 where 1: "(spsc_step 2 ^^ n) ?i c1" and c1: "c1 = push_done True 7 (snd (try_push 2 7 (queue ?i))) ?i"
    using solo_push [of ?i 2 7] by (auto simp: spsc_init_def try_push_def SPSCQueue_new_def Let_def)
  have q: "queue c1 = \<lparr>sq_head = 1, sq_cached_tail = 0, sq_tail = 0, sq_cached_head = 0, sq_data = [7, 0]\<rparr>"
    "producer c1 = P_idle" "consumer c1 = C_idle" "pushed c1 = [7]" "popped c1 = []"
    unfolding c1 by (simp_all add: push_done_def spsc_init_def SPSCQueue_new_def try_push_def Let_def sq_slot_def)
  let ?c2 = "c1\<lparr>producer := P_write 1 8\<rparr>"
  let ?c3 = "?c2\<lparr>consumer := C_reload 0 Try_pop\<rparr>"
  let ?c4 = "?c3\<lparr>queue := (queue ?c3)\<lparr>sq_cached_head := 1\<rparr>, consumer := C_read 0\<rparr>"
  have "spsc_step 2 c1 ?c2" using push_call [of c1 1 2 8] q by simp
  moreover have "spsc_step 2 ?c2 ?c3" using pop_call [of ?c2 0 2 Try_pop] q by simp
  moreover have "spsc_step 2 ?c3 ?c4" using pop_reload [of ?c3 0 Try_pop 1 2] q by (simp add: pop_enter_def)
  ultimately have "(spsc_step 2)\<^sup>*\<^sup>* c1 ?c4" by (meson converse_rtranclp_into_rtranclp rtranclp.rtrancl_refl)
  moreover have "(spsc_step 2)\<^sup>*\<^sup>* ?i c1" using relpowp_imp_rtranclp [OF 1] .
  ultimately have "spsc_reach 2 [0, 0] ?c4" unfolding spsc_reach_def by (rule rtranclp_trans [rotated])
  then show ?thesis using q by (intro exI [of _ ?c4]) simp
qed

lemma cap_ok_2: "cap_ok 2" "length [0, 0 :: nat] = unat (2 :: u64)"
  by (simp_all add: cap_ok_def)

theorem spsc_fifo_witness:
  "\<exists>c. spsc_reach 2 [0, 0 :: nat] c \<and> pushed c = popped c @ sq_contents 2 (queue c) \<and> sq_contents 2 (queue c) = [7]"
  using demo_spsc spsc_fifo [OF cap_ok_2] by fastforce

text \<open>(C13) There is no data race on the slots: whenever the producer is about to write an element while
  the consumer is about to read one or holds the pointer that \<open>front\<close> returned, the two elements are
  different, and the element the consumer reads is the oldest item not yet taken.\<close>

theorem spsc_race_free:
  assumes "cap_ok cap" "length data = unat cap" "spsc_reach cap data c"
    "producer c = P_write h x" "consumer c = C_read t \<or> consumer c = C_front t"
  shows "sq_slot cap h < length (sq_data (queue c)) \<and> sq_slot cap t < length (sq_data (queue c)) \<and>
    sq_slot cap h \<noteq> sq_slot cap t \<and> length (popped c) < length (pushed c) \<and>
    sq_data (queue c) ! sq_slot cap t = pushed c ! length (popped c)"
proof -
  let ?n = "unat cap" and ?H = "length (pushed c)" and ?T = "length (popped c)"
  obtain ct ch where R: "ring_ok (queue c) (pushed c) (popped c) ct ch ?n"
    "producer_ok (queue c) (pushed c) ct ?n (producer c)" "consumer_ok (pushed c) (popped c) ch (consumer c)"
    using spsc_reach_cases [OF assms(1-3)] by blast
  have H: "h = of_nat ?H" "?H < ct + ?n" using R(2) assms(4) by (simp_all add: producer_ok_def)
  have T: "t = of_nat ?T" "?T < ch" using R(3) assms(5) by (auto simp: consumer_ok_def)
  have lt: "?T < ?H" "?H < ?T + ?n" using T H R(1) by (simp_all add: ring_ok_def)
  have s: "sq_slot cap h = ?H mod ?n" "sq_slot cap t = ?T mod ?n" using H T sq_slot_of_nat [OF assms(1)] by simp_all
  have "?H mod ?n < ?n" "?T mod ?n < ?n" using cap_ok_pos [OF assms(1)] by simp_all
  moreover have "length (sq_data (queue c)) = ?n" "sq_data (queue c) ! (?T mod ?n) = pushed c ! ?T"
    using R(1) lt(1) by (simp_all add: ring_ok_def)
  ultimately show ?thesis unfolding s using slots_differ [OF lt] lt(1) by simp
qed

theorem spsc_race_free_witness:
  "\<exists>c. spsc_reach 2 [0, 0 :: nat] c \<and> producer c = P_write 1 8 \<and> consumer c = C_read 0 \<and> sq_slot 2 1 \<noteq> sq_slot 2 0 \<and>
     sq_data (queue c) ! sq_slot 2 0 = 7"
proof -
  obtain c where c: "spsc_reach 2 [0, 0 :: nat] c" "pushed c = [7]" "popped c = []" "producer c = P_write 1 8" "consumer c = C_read 0"
    using demo_spsc by blast
  have "consumer c = C_read 0 \<or> consumer c = C_front 0" using c(5) by simp
  from spsc_race_free [OF cap_ok_2 c(1) c(4) this] c show ?thesis by auto
qed

text \<open>The queue refuses only when it has to. When the producer reloads \<open>tail_\<close>, its push fails exactly
  if \<open>Capacity\<close> items are waiting at that moment; when the consumer reloads \<open>head_\<close>, its pop fails
  exactly if nothing is waiting.\<close>

theorem spsc_refusal_exact:
  assumes "cap_ok cap" "length data = unat cap" "spsc_reach cap data c"
  shows "(producer c = P_reload h x \<longrightarrow> (h - sq_tail (queue c) = cap \<longleftrightarrow> length (pushed c) = length (popped c) + unat cap)) \<and>
    (consumer c = C_reload t k \<longrightarrow> (sq_head (queue c) - t = 0 \<longleftrightarrow> pushed c = popped c))"
proof -
  obtain ct ch where R: "ring_ok (queue c) (pushed c) (popped c) ct ch (unat cap)"
    "producer_ok (queue c) (pushed c) ct (unat cap) (producer c)" "consumer_ok (pushed c) (popped c) ch (consumer c)"
    using spsc_reach_cases [OF assms] by blast
  note b = ring_size(2,3) [OF R(1)]
  have "h - sq_tail (queue c) = cap \<longleftrightarrow> length (pushed c) = length (popped c) + unat cap" if "producer c = P_reload h x"
  proof -
    have "h = of_nat (length (pushed c))" using that R(2) by (simp add: producer_ok_def)
    then show ?thesis unfolding ring_index [OF R(1)] by (simp only: full_test [OF b])
  qed
  moreover have "sq_head (queue c) - t = 0 \<longleftrightarrow> pushed c = popped c" if "consumer c = C_reload t k"
  proof -
    have t: "t = of_nat (length (popped c))" using that R(3) by (simp add: consumer_ok_def)
    have "take (length (popped c)) (pushed c) = popped c" using R(1) by (simp add: ring_ok_def)
    then have "length (pushed c) = length (popped c) \<longleftrightarrow> pushed c = popped c" by auto
    then show ?thesis unfolding t ring_index [OF R(1)] by (simp only: empty_test [OF b])
  qed
  ultimately show ?thesis by blast
qed

theorem spsc_refusal_exact_witness:
  "\<exists>c. spsc_reach 2 [0, 0 :: nat] c \<and> consumer c = C_reload 0 Try_pop \<and> sq_head (queue c) - 0 = 0 \<and> pushed c = popped c"
proof -
  let ?i = "spsc_init [0, 0 :: nat]"
  let ?c = "?i\<lparr>consumer := C_reload 0 Try_pop\<rparr>"
  have "spsc_step 2 ?i ?c" using pop_call [of ?i 0 2 Try_pop] by (simp add: spsc_init_def SPSCQueue_new_def)
  then have r: "spsc_reach 2 [0, 0] ?c" by (simp add: spsc_reach_def)
  from spsc_refusal_exact [OF cap_ok_2 r, of 0 0 0 Try_pop]
  show ?thesis using r by (intro exI [of _ ?c]) (simp add: spsc_init_def SPSCQueue_new_def)
qed

text \<open>The operations are wait-free and the functions above are what they compute: a producer that is
  not disturbed completes \<open>try_push\<close>, and an undisturbed consumer \<open>try_pop\<close>, within four of its own
  steps, from any configuration, with the result and the queue of the function. The overload for
  rvalues and \<open>try_emplace\<close> act as \<open>try_push\<close> of the value they store.\<close>

theorem spsc_wait_free:
  "(if producer c = P_idle then
      \<exists>n. n \<le> 4 \<and> (spsc_step cap ^^ n) c (push_done (fst (try_push cap x (queue c))) x (snd (try_push cap x (queue c))) c) else True) \<and>
   (if at_rest (consumer c) then
      \<exists>n. n \<le> 4 \<and> (spsc_step cap ^^ n) c (pop_done (fst (try_pop cap (queue c))) (snd (try_pop cap (queue c))) c) else True) \<and>
   try_push_move cap x = try_push cap x \<and> try_emplace cap constr args = try_push cap (constr args)"
  using solo_push [of c cap x] solo_pop [of c cap]
  by (auto simp: try_push_move_def try_emplace_def try_push_def fun_eq_iff)

text \<open>Used by one thread at a time the queue is a bounded first-in first-out queue: \<open>try_push\<close>
  appends its item exactly when fewer than \<open>Capacity\<close> items are waiting and otherwise changes
  nothing, \<open>try_pop\<close> returns the oldest item and removes it, or reports an empty queue; \<open>front\<close> points
  to the item that \<open>pop\<close> then removes.\<close>

theorem spsc_sequential:
  assumes "sq_ok cap q"
  shows "(let (ok, q1) = try_push cap x q in sq_ok cap q1 \<and> (ok \<longleftrightarrow> length (sq_contents cap q) < unat cap) \<and>
            sq_contents cap q1 = (if ok then sq_contents cap q @ [x] else sq_contents cap q)) \<and>
         (let (r, q2) = try_pop cap q in sq_ok cap q2 \<and> r = (case sq_contents cap q of [] \<Rightarrow> None | y # ys \<Rightarrow> Some y) \<and>
            sq_contents cap q2 = tl (sq_contents cap q)) \<and>
         (let (i, q3) = sq_front cap q in map_option (\<lambda>i. sq_data q3 ! i) i = fst (try_pop cap q) \<and>
            sq_pop q3 = (i \<noteq> None, snd (try_pop cap q)))"
proof (intro conjI)
  have "length (sq_contents cap q) = unat cap \<or> length (sq_contents cap q) < unat cap"
    using sq.bounded [OF assms] by linarith
  then show "let (ok, q1) = try_push cap x q in sq_ok cap q1 \<and> (ok \<longleftrightarrow> length (sq_contents cap q) < unat cap) \<and>
            sq_contents cap q1 = (if ok then sq_contents cap q @ [x] else sq_contents cap q)"
    using sq.push_inv [OF assms, of x] sq.push_full [OF assms, of x] sq.push_room [OF assms, of x]
    by (auto simp: split_beta)
  show "let (r, q2) = try_pop cap q in sq_ok cap q2 \<and> r = (case sq_contents cap q of [] \<Rightarrow> None | y # ys \<Rightarrow> Some y) \<and>
            sq_contents cap q2 = tl (sq_contents cap q)"
    using sq.pop_inv [OF assms] sq.pop_empty [OF assms] sq.pop_item [OF assms]
    by (cases "sq_contents cap q") (auto simp: split_beta)
  show "let (i, q3) = sq_front cap q in map_option (\<lambda>i. sq_data q3 ! i) i = fst (try_pop cap q) \<and>
            sq_pop q3 = (i \<noteq> None, snd (try_pop cap q))"
    by (simp add: sq_front_def try_pop_def sq_pop_def Let_def)
qed

theorem spsc_sequential_witness:
  "\<exists>q :: nat spsc. sq_ok 2 q \<and> sq_contents 2 q = [7] \<and> fst (try_pop 2 q) = Some 7"
proof -
  let ?q0 = "SPSCQueue_new [0, 0 :: nat]"
  let ?q = "snd (try_push 2 7 ?q0)"
  note N = sq_new_ok [OF cap_ok_2]
  have q: "sq_ok 2 ?q" "sq_contents 2 ?q = [7]"
    using spsc_sequential [OF N(1), of 7] N(2) by (auto simp: split_beta)
  then show ?thesis using spsc_sequential [OF q(1), of 7] by (auto simp: split_beta)
qed

end
