(* ===== verification/Market_Registry.thy ===== *)
theory Market_Registry
  imports Matching_Properties
begin

text \<open>
  The registry of markets of \<open>sim/domain/market_registry.h\<close> and \<open>sim/domain/market_registry.cpp\<close>: one
  matching engine per ticker. A pointer that \<open>get_engine\<close> returns is used at once by its caller, so it
  is the engine itself here, and what the caller does to it is put back with \<open>set_engine\<close>. The order
  in which an \<open>unordered_map\<close> is traversed is a parameter.
\<close>

section \<open>The class\<close>

record market_registry =
  engines :: "string \<Rightarrow> engine option"

definition MarketRegistry_new :: market_registry where
  "MarketRegistry_new = \<lparr>engines = Map.empty\<rparr>"

text \<open>\<open>add_market\<close>: the engine is built before \<open>try_emplace\<close> looks for the ticker, so a failed mapping
  aborts (\<open>None\<close>) whether or not the market exists.\<close>

definition add_market ::
    "(ptr \<times> (ptr \<Rightarrow> order block)) option \<Rightarrow> ptr slot list option \<Rightarrow> string \<Rightarrow> market_registry \<Rightarrow> (bool \<times> market_registry) option" where
  "add_market pool_map index_map ticker reg = do {
     e \<leftarrow> MatchingEngine_new pool_map index_map;
     (case engines reg ticker of
        Some _ \<Rightarrow> Some (False, reg)
      | None \<Rightarrow> Some (True, reg\<lparr>engines := (engines reg)(ticker \<mapsto> e)\<rparr>))
   }"

definition get_engine :: "string \<Rightarrow> market_registry \<Rightarrow> engine option" where
  "get_engine ticker reg = engines reg ticker"

definition set_engine :: "string \<Rightarrow> engine \<Rightarrow> market_registry \<Rightarrow> market_registry" where
  "set_engine ticker e reg = reg\<lparr>engines := (engines reg)(ticker \<mapsto> e)\<rparr>"

definition has_market :: "string \<Rightarrow> market_registry \<Rightarrow> bool" where
  "has_market ticker reg \<longleftrightarrow> engines reg ticker \<noteq> None"

definition list_markets :: "((string \<Rightarrow> engine option) \<Rightarrow> string list) \<Rightarrow> market_registry \<Rightarrow> string list" where
  "list_markets traverse reg = foldl (\<lambda>markets ticker. markets @ [ticker]) [] (traverse (engines reg))"

section \<open>The engines it holds\<close>

text \<open>Every engine of the registry is one that its operations can reach, and has order ids left.\<close>

definition registry_ok :: "market_registry \<Rightarrow> bool" where
  "registry_ok reg \<longleftrightarrow> (\<forall>t e. engines reg t = Some e \<longrightarrow> eng_reach e)"

lemma registry_ok_new: "registry_ok MarketRegistry_new"
  by (simp add: registry_ok_def MarketRegistry_new_def)

definition maps_ok :: "(ptr \<times> (ptr \<Rightarrow> order block)) option \<Rightarrow> ptr slot list option \<Rightarrow> bool" where
  "maps_ok pool_map index_map \<longleftrightarrow>
     (\<exists>base mem sl. pool_map = Some (base, mem) \<and> index_map = Some sl \<and> 0 < base \<and> length sl = unat index_capacity)"

lemma new_engine_reach:
  assumes "maps_ok pm im"
  obtains e where "MatchingEngine_new pm im = Some e" "eng_reach e" "next_order_id e = 1" "book_of e = (\<lambda>w p. [])"
proof -
  obtain base mem sl where m: "pm = Some (base, mem)" "im = Some sl" "0 < base" "length sl = unat index_capacity"
    using assms by (auto simp: maps_ok_def)
  obtain ix where "FlatHashMap_new (Some sl) = Some ix"
    using FlatHashMap_new_inv [OF cap_ok_index m(4)] by blast
  then obtain e where e: "MatchingEngine_new (Some (base, mem)) (Some sl) = Some e"
    by (simp add: MatchingEngine_new_def Pool_new_def)
  have r: "eng_reach e" by (rule eng_reach.create [OF e m(3,4)])
  have ok: "eng_ok e (\<lambda>w p. [])" and n: "next_order_id e = 1" using new_engine_ok [OF e m(3,4)] .
  have "book_of e = gbook (\<lambda>w p. [])" using ok rep_book_of by (auto simp: eng_ok_def)
  then have "book_of e = (\<lambda>w p. [])" by (simp add: gbook_def)
  then show thesis using that e m r n by simp
qed

lemma add_market_cases:
  assumes "maps_ok pm im" "registry_ok reg"
  obtains e where "eng_reach e" "next_order_id e = 1"
    "add_market pm im t reg = Some (engines reg t = None, if engines reg t = None then set_engine t e reg else reg)"
    "registry_ok (if engines reg t = None then set_engine t e reg else reg)"
proof -
  obtain e where e: "MatchingEngine_new pm im = Some e" "eng_reach e" "next_order_id e = 1"
    using new_engine_reach [OF assms(1)] by metis
  have "registry_ok (set_engine t e reg)" using assms(2) e(2) by (simp add: registry_ok_def set_engine_def)
  then show thesis using that e assms(2) by (simp add: add_market_def set_engine_def split: option.splits)
qed

end
