(* ===== verification/Http_Parse.thy ===== *)
theory Http_Parse
  imports Cpp_String
begin

text \<open>
  The message formats of \<open>sim/http/rest_server.cpp\<close>: \<open>parse_request\<close>, \<open>reason_phrase\<close> and
  \<open>serialize_response\<close>. The header loop of \<open>parse_request\<close> has no bound of its own, so it is a
  partial function whose \<open>None\<close> is a loop that never ends; an exception is the value \<open>Threw\<close>.
\<close>

section \<open>Messages\<close>

record request =
  rq_method :: string
  rq_path :: string
  rq_headers :: "string \<Rightarrow> string option"
  rq_body :: string

record response =
  rs_status :: int
  rs_content_type :: string
  rs_body :: string

definition crlf :: string where "crlf = [CHR 0x0D, CHR 0x0A]"

datatype 'a parse_result = Threw | Incomplete | Parsed 'a

text \<open>The loop over the header lines; \<open>ptr\<close> is the position of the body.\<close>

partial_function (option) parse_headers ::
    "string \<Rightarrow> u64 \<Rightarrow> u64 \<Rightarrow> (string \<Rightarrow> string option) \<Rightarrow> (string \<Rightarrow> string option) parse_result option" where
  "parse_headers buffer ptr header_line hs =
    (let nxt_line = str_find buffer crlf header_line
     in if nxt_line = header_line then Some (Parsed hs)
        else case substr buffer header_line (nxt_line - header_line) of
          None \<Rightarrow> Some Threw
        | Some line \<Rightarrow>
          let header_name = str_find buffer '': '' header_line
          in case substr buffer header_line (header_name - header_line) of
               None \<Rightarrow> Some Threw
             | Some name \<Rightarrow>
               case substr buffer (header_name + 2) (nxt_line - (header_name + 2)) of
                 None \<Rightarrow> Some Threw
               | Some content \<Rightarrow>
                 if name = ''Content-Length'' then
                   (case stoi content of
                      None \<Rightarrow> Some Threw
                    | Some body_length \<Rightarrow>
                      if of_int body_length \<noteq> of_nat (length buffer) - ptr then Some Incomplete
                      else parse_headers buffer ptr (nxt_line + 2) (hs(name \<mapsto> content)))
                 else parse_headers buffer ptr (nxt_line + 2) (hs(name \<mapsto> content)))"

definition parse_request :: "string \<Rightarrow> request parse_result option" where
  "parse_request buffer =
    (let ptr = str_find buffer (crlf @ crlf) 0
     in if ptr = npos then Some Incomplete
        else
          let ptr = ptr + 4;
              sp = str_find buffer '' '' 0
          in case substr buffer 0 sp of
            None \<Rightarrow> Some Threw
          | Some meth \<Rightarrow>
            let path = str_find buffer '' '' (sp + 1)
            in case substr buffer (sp + 1) (path - (sp + 1)) of
              None \<Rightarrow> Some Threw
            | Some pth \<Rightarrow>
              case parse_headers buffer ptr (str_find buffer crlf 0 + 2) Map.empty of
                None \<Rightarrow> None
              | Some Threw \<Rightarrow> Some Threw
              | Some Incomplete \<Rightarrow> Some Incomplete
              | Some (Parsed hs) \<Rightarrow>
                case substr buffer ptr npos of
                  None \<Rightarrow> Some Threw
                | Some body \<Rightarrow> Some (Parsed \<lparr>rq_method = meth, rq_path = pth, rq_headers = hs, rq_body = body\<rparr>))"

definition reason_phrase :: "int \<Rightarrow> string" where
  "reason_phrase status =
    (if status = 200 then ''OK''
     else if status = 400 then ''Bad Request''
     else if status = 404 then ''Not Found''
     else if status = 500 then ''Internal Server Error''
     else ''Unknown Status'')"

definition serialize_response :: "response \<Rightarrow> string" where
  "serialize_response resp =
     ''HTTP/1.1 '' @ to_string (rs_status resp) @ '' '' @ reason_phrase (rs_status resp) @ crlf @
     ''Content-Type: '' @ rs_content_type resp @ crlf @
     ''Content-Length: '' @ to_string (int (length (rs_body resp))) @ crlf @
     ''Connection: close'' @ crlf @
     crlf @
     rs_body resp"

section \<open>The header loop ends\<close>

lemma crlf_at:
  "prefix crlf (drop i s) \<longleftrightarrow> Suc i < length s \<and> s ! i = CHR 0x0D \<and> s ! Suc i = CHR 0x0A"
proof -
  have "prefix crlf t \<longleftrightarrow> (\<exists>r. t = CHR 0x0D # CHR 0x0A # r)" for t by (auto simp: crlf_def prefix_def)
  moreover have "(\<exists>r. drop i s = CHR 0x0D # CHR 0x0A # r) \<longleftrightarrow> Suc i < length s \<and> s ! i = CHR 0x0D \<and> s ! Suc i = CHR 0x0A"
  proof
    assume "\<exists>r. drop i s = CHR 0x0D # CHR 0x0A # r"
    then obtain r where r: "drop i s = CHR 0x0D # CHR 0x0A # r" by blast
    then have "length (drop i s) \<ge> 2" by simp
    then have "Suc i < length s" by simp
    moreover have "drop i s ! 0 = s ! i" "drop i s ! 1 = s ! Suc i" using calculation by simp_all
    ultimately show "Suc i < length s \<and> s ! i = CHR 0x0D \<and> s ! Suc i = CHR 0x0A" using r by simp
  next
    assume A: "Suc i < length s \<and> s ! i = CHR 0x0D \<and> s ! Suc i = CHR 0x0A"
    then have "drop i s = s ! i # s ! Suc i # drop (Suc (Suc i)) s" by (metis Cons_nth_drop_Suc Suc_lessD)
    then show "\<exists>r. drop i s = CHR 0x0D # CHR 0x0A # r" using A by simp
  qed
  ultimately show ?thesis by simp
qed

lemma crlf2_at: "prefix (crlf @ crlf) (drop i s) \<longleftrightarrow> prefix crlf (drop i s) \<and> prefix crlf (drop (i + 2) s)"
proof -
  have "prefix (crlf @ crlf) t \<longleftrightarrow> prefix crlf t \<and> prefix crlf (drop 2 t)" for t
    by (auto simp: crlf_def prefix_def)
  then show ?thesis by simp
qed

lemma next_crlf:
  assumes "h \<le> p" "prefix crlf (drop p s)"
  shows "\<exists>i. find_at crlf (drop h s) = Some i \<and> h + i \<le> p \<and> prefix crlf (drop (h + i) s)"
proof (cases "find_at crlf (drop h s)")
  case None
  have "p - h \<le> length (drop h s)" using assms crlf_at [of p s] by (simp add: diff_le_mono)
  moreover have "drop (p - h) (drop h s) = drop p s" using assms(1) by simp
  ultimately have False using None assms(2) unfolding find_at_None by metis
  then show ?thesis ..
next
  case (Some i)
  then have i: "prefix crlf (drop i (drop h s))" "\<And>j. j < i \<Longrightarrow> \<not> prefix crlf (drop j (drop h s))"
    by (simp_all add: find_at_Some)
  have "\<not> p - h < i" using i(2) [of "p - h"] assms by auto
  then show ?thesis using Some i(1) assms(1) by (simp add: add.commute)
qed

lemma crlf_apart:
  assumes "prefix crlf (drop i s)" "prefix crlf (drop p s)" "i \<le> p"
  shows "i + 2 \<le> p \<or> i = p"
proof -
  have "i \<noteq> p - 1 \<or> i = p" using assms(1,2) crlf_at [of i s] crlf_at [of p s] by (cases p) auto
  then show ?thesis using assms(3) by linarith
qed

lemma first_line:
  assumes "prefix (crlf @ crlf) (drop p s)"
  shows "\<exists>i. find_at crlf s = Some i \<and> (i + 2 \<le> p \<or> i + 2 = p + 2)"
proof -
  have e: "prefix crlf (drop p s)" using assms crlf2_at by blast
  obtain i where i: "find_at crlf s = Some i" "i \<le> p" "prefix crlf (drop i s)" using next_crlf [OF _ e, of 0] by auto
  then show ?thesis using crlf_apart [OF i(3) e i(2)] by auto
qed

text \<open>The search of a line end from \<open>h\<close>, when the header block ends at \<open>p\<close>.\<close>

lemma line_end:
  assumes "h \<le> p \<or> h = p + 2" "prefix (crlf @ crlf) (drop p s)"
  shows "\<exists>i. find_at crlf (drop h s) = Some i \<and> h + i \<le> length s \<and> (h = p + 2 \<longrightarrow> i = 0) \<and> (i \<noteq> 0 \<longrightarrow> h + i + 2 \<le> p \<or> h + i + 2 = p + 2)"
proof -
  have e: "prefix crlf (drop p s)" "prefix crlf (drop (p + 2) s)" using assms(2) crlf2_at by blast+
  show ?thesis
  proof (cases "h = p + 2")
    case True
    have "find_at crlf (drop (p + 2) s) = Some 0" using e(2) by (subst find_at.simps) simp
    then show ?thesis using True e(2) crlf_at [of "p + 2" s] by simp
  next
    case False
    then obtain i where i: "find_at crlf (drop h s) = Some i" "h + i \<le> p" "prefix crlf (drop (h + i) s)"
      using next_crlf [OF _ e(1), of h] assms(1) by auto
    have "h + i + 2 \<le> p \<or> h + i + 2 = p + 2" using crlf_apart [OF i(3) e(1) i(2)] by linarith
    then show ?thesis using i(1,2) e(1) crlf_at [of p s] False by auto
  qed
qed

text \<open>The position after the separator of a header is inside the buffer, also when there is none
  and the search returns \<open>npos\<close>.\<close>

lemma header_name_pos:
  assumes "small s" "h \<le> length s" "s \<noteq> []"
  shows "unat (str_find s '': '' (of_nat h) + 2) \<le> length s"
proof (cases "find_at '': '' (drop h s)")
  case None
  then have e: "str_find s '': '' (of_nat h) + 2 = 1" using assms by (simp add: str_find_of_nat npos_def)
  show ?thesis unfolding e using assms(3) by (cases s) simp_all
next
  case (Some j)
  then have "prefix '': '' (drop j (drop h s))" by (simp add: find_at_Some)
  then have "length '': '' \<le> length (drop j (drop h s))" by (rule prefix_length_le)
  then have l: "h + j + 2 \<le> length s" by simp
  have e: "str_find s '': '' (of_nat h) + 2 = of_nat (h + j + 2)" using assms Some by (simp add: str_find_of_nat)
  have "unat (of_nat (h + j + 2) :: u64) = h + j + 2" using l by (intro unat_pos [OF assms(1)]) simp
  then show ?thesis unfolding e using l by (simp only:)
qed

section \<open>The lines of a header block\<close>

text \<open>The lines up to the first empty one.\<close>

function block_lines :: "string \<Rightarrow> string list" where
  "block_lines s =
    (case find_at crlf s of
       None \<Rightarrow> []
     | Some i \<Rightarrow> if i = 0 then [] else take i s # block_lines (drop (i + 2) s))"
  by pat_completeness auto
termination
proof (relation "measure length")
  fix s i assume "find_at crlf s = Some i" "i \<noteq> 0"
  then show "(drop (i + 2) s, s) \<in> measure length" by (cases s) (auto simp: find_at_Some)
qed simp

declare block_lines.simps [simp del]

definition header_lines :: "string \<Rightarrow> string list" where
  "header_lines buffer = (case find_at crlf buffer of None \<Rightarrow> [] | Some i \<Rightarrow> block_lines (drop (i + 2) buffer))"

abbreviation length_line :: "string \<Rightarrow> string" where
  "length_line v \<equiv> ''Content-Length: '' @ v"

text \<open>The loop looks at the \<open>Content-Length\<close> lines only, in their order, and the first that is no number or
  not the size \<open>n\<close> of the body decides.\<close>

fun check_lengths :: "u64 \<Rightarrow> string list \<Rightarrow> unit parse_result" where
  "check_lengths n [] = Parsed ()"
| "check_lengths n (line # ls) =
    (if prefix ''Content-Length: '' line then
       (case stoi (drop 16 line) of
          None \<Rightarrow> Threw
        | Some k \<Rightarrow> if of_int k \<noteq> n then Incomplete else check_lengths n ls)
     else check_lengths n ls)"

definition lengths_agree :: "u64 \<Rightarrow> string list \<Rightarrow> bool" where
  "lengths_agree n ls \<longleftrightarrow> (\<forall>v. length_line v \<in> set ls \<longrightarrow> (\<exists>k. stoi v = Some k \<and> of_int k = n))"

lemma lengths_agree_simps [simp]:
  "lengths_agree n []"
  "lengths_agree n (line # ls) \<longleftrightarrow>
     (prefix ''Content-Length: '' line \<longrightarrow> (\<exists>k. stoi (drop 16 line) = Some k \<and> of_int k = n)) \<and> lengths_agree n ls"
  by (auto simp: lengths_agree_def prefix_def)

lemma split_Cons: "(\<exists>a b. line # ls = a @ x # b \<and> P a) \<longleftrightarrow> x = line \<and> P [] \<or> (\<exists>a b. ls = a @ x # b \<and> P (line # a))"
  by (auto simp: Cons_eq_append_conv)

lemma check_lengths_cases:
  "check_lengths n ls = Threw \<longleftrightarrow> (\<exists>v. stoi v = None \<and> (\<exists>a b. ls = a @ length_line v # b \<and> lengths_agree n a))"
  "check_lengths n ls = Incomplete \<longleftrightarrow> (\<exists>v k. stoi v = Some k \<and> of_int k \<noteq> n \<and> (\<exists>a b. ls = a @ length_line v # b \<and> lengths_agree n a))"
proof (induction ls)
  case (Cons line ls)
  {
    case 1
    show ?case unfolding split_Cons using Cons(1) by (auto simp: prefix_def split: option.splits)
  next
    case 2
    show ?case unfolding split_Cons using Cons(2) by (auto simp: prefix_def split: option.splits)
  }
qed simp_all

text \<open>What the loop takes as name and value is \<open>Content-Length\<close> and a number exactly on such a line.\<close>

lemma header_name_at:
  assumes "small s" "h \<le> length s" "find_at crlf (drop h s) = Some i"
    and name: "substr s (of_nat h) (str_find s '': '' (of_nat h) - of_nat h) = Some name" "CHR 0x0D \<notin> set name"
  shows "prefix (name @ '': '') (drop h s)"
proof (cases "find_at '': '' (drop h s)")
  case None
  have h: "h < 2 ^ 63" using assms(1,2) by (simp add: small_def)
  have "unat (npos - of_nat h) = unat npos - unat (of_nat h :: u64)" by (intro unat_sub) (simp add: npos_def)
  also have "\<dots> \<ge> 2 ^ 63" using h by (simp add: npos_def unat_of_nat unsigned_minus_1_eq_mask mask_eq_exp_minus_1)
  finally have "name = drop h s"
    using name(1) None assms(1,2) by (simp add: str_find_of_nat substr_of_nat small_def)
  moreover have "prefix crlf (drop i (drop h s))" using assms(3) by (simp add: find_at_Some)
  then have "CHR 0x0D \<in> set (drop i (drop h s))" by (auto simp: prefix_def crlf_def)
  then have "CHR 0x0D \<in> set (drop h s)" by (rule in_set_dropD)
  ultimately show ?thesis using name(2) by simp
next
  case (Some j)
  then have j: "prefix '': '' (drop (h + j) s)" by (simp add: find_at_Some add.commute)
  then have l: "h + j + 2 \<le> length s" using prefix_length_le [OF j] by simp
  have f: "str_find s '': '' (of_nat h) = of_nat (h + j)" using Some assms(1,2) by (simp add: str_find_of_nat)
  have n: "name = take j (drop h s)" using name(1) substr_range [OF assms(1), of h "h + j"] l unfolding f by simp
  obtain zs where zs: "drop (h + j) s = '': '' @ zs" using j unfolding prefix_def by blast
  have "drop h s = name @ drop j (drop h s)" unfolding n by (rule append_take_drop_id [symmetric])
  also have "drop j (drop h s) = '': '' @ zs" using zs by (simp add: add.commute)
  finally show ?thesis by (simp add: prefix_def)
qed

lemma line_prefix:
  assumes "find_at crlf t = Some i" "prefix u t" "CHR 0x0D \<notin> set u"
  shows "prefix u (take i t)" "length u \<le> i"
proof -
  obtain v where t: "t = u @ v" using assms(2) by (auto simp: prefix_def)
  have "prefix crlf (drop i t)" using assms(1) by (simp add: find_at_Some)
  then have "i < length t" "t ! i = CHR 0x0D" using crlf_at [of i t] by auto
  then have "\<not> i < length u" using assms(3) t by (metis nth_append nth_mem)
  then show "prefix u (take i t)" "length u \<le> i" using t by simp_all
qed

lemma length_header:
  assumes small: "small s" and h: "h \<le> length s" "h + i \<le> length s" and i: "find_at crlf (drop h s) = Some i"
    and name: "substr s (of_nat h) (str_find s '': '' (of_nat h) - of_nat h) = Some name"
    and content: "substr s (str_find s '': '' (of_nat h) + 2) (of_nat (h + i) - (str_find s '': '' (of_nat h) + 2)) = Some content"
  shows "name = ''Content-Length'' \<longleftrightarrow> prefix ''Content-Length: '' (take i (drop h s))"
    "name = ''Content-Length'' \<Longrightarrow> content = drop 16 (take i (drop h s))"
proof -
  let ?t = "drop h s"
  have eq: "name = ''Content-Length'' \<and> content = drop 16 (take i ?t)" if p: "prefix ''Content-Length: '' ?t" "16 \<le> i"
  proof -
    obtain v where v: "?t = ''Content-Length'' @ '': '' @ v" using p(1) by (auto simp: prefix_def)
    have "find_at '': '' ?t = Some (length ''Content-Length'')" unfolding v by (rule find_at_append [of _ "CHR '':''" "'' ''"]) simp_all
    then have f: "str_find s '': '' (of_nat h) = of_nat (h + 14)" using small h(1) by (simp add: str_find_of_nat)
    have l: "h + 14 \<le> length s" "h + 16 \<le> h + i" using h(2) p(2) by simp_all
    have "name = take 14 ?t" using name substr_range [OF small _ l(1), of h] unfolding f by simp
    moreover have w: "(of_nat (h + 14) + 2 :: u64) = of_nat (h + 16)" by simp
    have "content = take (h + i - (h + 16)) (drop (h + 16) s)"
      using content substr_range [OF small l(2) h(2)] unfolding f w by simp
    then have "content = drop 16 (take i ?t)" by (simp add: drop_take add.commute)
    ultimately show ?thesis using v by simp
  qed
  have to: "prefix ''Content-Length: '' (take i ?t)" if "name = ''Content-Length''"
  proof (rule line_prefix(1) [OF i])
    have "CHR 0x0D \<notin> set name" using that by simp
    from header_name_at [OF small h(1) i name this] show "prefix ''Content-Length: '' ?t" using that by simp
  qed simp
  have from_line: "prefix ''Content-Length: '' ?t \<and> 16 \<le> i" if "prefix ''Content-Length: '' (take i ?t)"
  proof -
    have "prefix ''Content-Length: '' ?t" using that take_is_prefix prefix_order.order_trans by blast
    moreover from line_prefix(2) [OF i this] have "16 \<le> i" by simp
    ultimately show ?thesis by simp
  qed
  show "name = ''Content-Length'' \<longleftrightarrow> prefix ''Content-Length: '' (take i ?t)" using to from_line eq by blast
  show "name = ''Content-Length'' \<Longrightarrow> content = drop 16 (take i ?t)" using to from_line eq by blast
qed

lemma parse_headers_ends:
  assumes small: "small buffer" and p: "prefix (crlf @ crlf) (drop p buffer)"
  shows "h \<le> p \<or> h = p + 2 \<Longrightarrow>
    \<exists>r. parse_headers buffer ptr (of_nat h) hs = Some r \<and>
      map_parse_result (\<lambda>_. ()) r = check_lengths (of_nat (length buffer) - ptr) (block_lines (drop h buffer))"
proof (induction "p + 2 - h" arbitrary: h hs rule: less_induct)
  case less
  let ?n = "of_nat (length buffer) - ptr"
  obtain i where i: "find_at crlf (drop h buffer) = Some i" "h + i \<le> length buffer"
      "h = p + 2 \<longrightarrow> i = 0" "i \<noteq> 0 \<longrightarrow> h + i + 2 \<le> p \<or> h + i + 2 = p + 2"
    using line_end [OF less.prems p] by blast
  have h: "h \<le> length buffer" and ne: "buffer \<noteq> []" using i(2) p by (auto simp: crlf_def)
  have n: "str_find buffer crlf (of_nat h) = of_nat (h + i)" using i(1) h small by (simp add: str_find_of_nat)
  show ?case
  proof (cases "i = 0")
    case True
    then show ?thesis using n i(1) by (subst parse_headers.simps, subst block_lines.simps) simp
  next
    case False
    have d: "of_nat (h + i) \<noteq> (of_nat h :: u64)" using False i(2) of_nat_pos_eq [OF small, of "h + i" h] by simp
    let ?hn = "str_find buffer '': '' (of_nat h)" and ?line = "take i (drop h buffer)"
    obtain line name content where c: "substr buffer (of_nat h) (of_nat (h + i) - of_nat h) = Some line"
        "substr buffer (of_nat h) (?hn - of_nat h) = Some name"
        "substr buffer (?hn + 2) (of_nat (h + i) - (?hn + 2)) = Some content"
      using header_name_pos [OF small h ne] h small by (auto simp: substr_of_nat) (simp add: substr_def)
    have bl: "block_lines (drop h buffer) = ?line # block_lines (drop (h + i + 2) buffer)"
      using i(1) False by (subst block_lines.simps) (simp add: add.commute add.left_commute)
    have w: "(of_nat (h + i + 2) :: u64) = of_nat (h + i) + 2" by simp
    have rec: "\<exists>r. parse_headers buffer ptr (of_nat (h + i) + 2) hs' = Some r \<and>
        map_parse_result (\<lambda>_. ()) r = check_lengths ?n (block_lines (drop (h + i + 2) buffer))" for hs'
      using less.hyps [of "h + i + 2" hs'] i(3,4) False less.prems unfolding w by auto
    have step: "parse_headers buffer ptr (of_nat h) hs =
        (if name = ''Content-Length'' then
           (case stoi content of
              None \<Rightarrow> Some Threw
            | Some body_length \<Rightarrow>
              if of_int body_length \<noteq> of_nat (length buffer) - ptr then Some Incomplete
              else parse_headers buffer ptr (of_nat (h + i) + 2) (hs(name \<mapsto> content)))
         else parse_headers buffer ptr (of_nat (h + i) + 2) (hs(name \<mapsto> content)))"
      by (subst parse_headers.simps) (simp only: Let_def n c d if_False option.case)
    note H = length_header [OF small h i(2,1) c(2,3)]
    show ?thesis
    proof (cases "name = ''Content-Length''")
      case True
      then show ?thesis unfolding step bl using rec H by (cases "stoi content") simp_all
    next
      case False
      then show ?thesis unfolding step bl using rec H(1) by simp
    qed
  qed
qed

lemma str_find_0: "small s \<Longrightarrow> str_find s pat 0 = (case find_at pat s of None \<Rightarrow> npos | Some i \<Rightarrow> of_nat i)"
  using str_find_of_nat [of s 0 pat] by (cases "find_at pat s") simp_all

lemma path_pos:
  assumes "small s"
  shows "unat (str_find s '' '' 0 + 1) \<le> length s"
proof (cases "find_at '' '' s")
  case None
  then show ?thesis using assms by (simp add: str_find_0 npos_def)
next
  case (Some k)
  then have "prefix '' '' (drop k s)" by (simp add: find_at_Some)
  then have "k < length s" by (metis drop_eq_Nil linorder_not_le not_Cons_self2 prefix_Nil prefix_bot.extremum_uniqueI)
  then have "unat (of_nat (k + 1) :: u64) = k + 1" by (intro unat_pos [OF assms]) simp
  moreover have e: "str_find s '' '' 0 + 1 = of_nat (k + 1)" using assms Some by (simp add: str_find_0)
  ultimately show ?thesis unfolding e using \<open>k < length s\<close> by linarith
qed

text \<open>The header block of a buffer ends with the first empty line; \<open>n\<close> bytes follow it.\<close>

definition body_size :: "string \<Rightarrow> nat \<Rightarrow> bool" where
  "body_size buffer n \<longleftrightarrow> (\<exists>p. find_at (crlf @ crlf) buffer = Some p \<and> p + 4 + n = length buffer)"

lemma parse_request_outcome:
  assumes "small buffer"
  shows "\<exists>r. parse_request buffer = Some r \<and>
    (case find_at (crlf @ crlf) buffer of
       None \<Rightarrow> r = Incomplete
     | Some p \<Rightarrow> p + 4 \<le> length buffer \<and>
         map_parse_result (\<lambda>_. ()) r = check_lengths (of_nat (length buffer - (p + 4))) (header_lines buffer) \<and>
         (\<forall>req. r = Parsed req \<longrightarrow> rq_body req = drop (p + 4) buffer))"
proof (cases "find_at (crlf @ crlf) buffer")
  case None
  then show ?thesis using assms by (simp add: parse_request_def str_find_0)
next
  case (Some p)
  then have p: "prefix (crlf @ crlf) (drop p buffer)" "p \<le> length buffer" by (simp_all add: find_at_Some)
  have "4 \<le> length (drop p buffer)" using prefix_length_le [OF p(1)] by (simp add: crlf_def)
  then have pl: "p + 4 \<le> length buffer" by simp
  have ptr: "str_find buffer (crlf @ crlf) 0 = of_nat p" "of_nat p \<noteq> npos"
    using assms Some npos_neq [OF assms, of p] p(2) by (simp_all add: str_find_0)
  obtain i where i: "find_at crlf buffer = Some i" "i + 2 \<le> p \<or> i + 2 = p + 2"
    using first_line [OF p(1)] by blast
  have hl: "str_find buffer crlf 0 + 2 = of_nat (i + 2)" using assms i(1) by (simp add: str_find_0)
  have n: "(of_nat (length buffer) - (of_nat p + 4) :: u64) = of_nat (length buffer - (p + 4))" using pl by (simp add: of_nat_diff)
  obtain r where r: "parse_headers buffer (of_nat p + 4) (of_nat (i + 2)) Map.empty = Some r"
      "map_parse_result (\<lambda>_. ()) r = check_lengths (of_nat (length buffer - (p + 4))) (header_lines buffer)"
    using parse_headers_ends [OF assms p(1) i(2), of "of_nat p + 4" Map.empty] i(1) unfolding n by (auto simp: header_lines_def)
  obtain meth pth where mp: "substr buffer 0 (str_find buffer '' '' 0) = Some meth"
      "substr buffer (str_find buffer '' '' 0 + 1) (str_find buffer '' '' (str_find buffer '' '' 0 + 1) - (str_find buffer '' '' 0 + 1)) = Some pth"
    using path_pos [OF assms] by (simp add: substr_def)
  have w: "(of_nat p + 4 :: u64) = of_nat (p + 4)" by simp
  have "length (drop (p + 4) buffer) \<le> unat npos"
    using assms by (simp add: small_def npos_def unsigned_minus_1_eq_mask mask_eq_exp_minus_1)
  then have body: "substr buffer (of_nat p + 4) npos = Some (drop (p + 4) buffer)"
    unfolding w using substr_of_nat [OF assms pl, of npos] by simp
  have "parse_request buffer = (case r of Threw \<Rightarrow> Some Threw | Incomplete \<Rightarrow> Some Incomplete
      | Parsed hs \<Rightarrow> Some (Parsed \<lparr>rq_method = meth, rq_path = pth, rq_headers = hs, rq_body = drop (p + 4) buffer\<rparr>))"
    unfolding parse_request_def ptr Let_def by (simp only: ptr if_False mp option.case hl r body)
  then show ?thesis using r(2) Some pl by (cases r) simp_all
qed

text \<open>(C21) \<open>parse_request\<close> ends on every buffer, and what it does is decided by the lines of the header block
  alone: although its header loop is written without a bound and its searches may return \<open>npos\<close>, no
  input makes it loop or read outside the buffer. It throws exactly if the block has a line
  \<open>Content-Length: v\<close> whose whole value \<open>v\<close> is refused by \<open>std::stoi\<close>, all earlier lines of that kind giving
  the size of the body. It waits for more exactly if the block has not ended, or if the first such line
  that does not give the size of the body gives another number. Otherwise it returns a request whose
  body is all that follows the block.\<close>

theorem parse_request_total:
  assumes "small buffer"
  shows "\<exists>r. parse_request buffer = Some r \<and>
    (r = Threw \<longleftrightarrow> (\<exists>n v a b. body_size buffer n \<and> header_lines buffer = a @ length_line v # b \<and> lengths_agree (of_nat n) a \<and> stoi v = None)) \<and>
    (r = Incomplete \<longleftrightarrow> find_at (crlf @ crlf) buffer = None \<or>
       (\<exists>n v k a b. body_size buffer n \<and> header_lines buffer = a @ length_line v # b \<and> lengths_agree (of_nat n) a \<and>
          stoi v = Some k \<and> of_int k \<noteq> (of_nat n :: u64))) \<and>
    (\<forall>req. r = Parsed req \<longrightarrow> body_size buffer (length (rq_body req)) \<and> suffix (crlf @ crlf @ rq_body req) buffer)"
proof -
  obtain r where r: "parse_request buffer = Some r" "case find_at (crlf @ crlf) buffer of
       None \<Rightarrow> r = Incomplete
     | Some p \<Rightarrow> p + 4 \<le> length buffer \<and>
         map_parse_result (\<lambda>_. ()) r = check_lengths (of_nat (length buffer - (p + 4))) (header_lines buffer) \<and>
         (\<forall>req. r = Parsed req \<longrightarrow> rq_body req = drop (p + 4) buffer)"
    using parse_request_outcome [OF assms] by blast
  show ?thesis
  proof (cases "find_at (crlf @ crlf) buffer")
    case None
    then show ?thesis using r by (simp add: body_size_def)
  next
    case (Some p)
    define n where "n = length buffer - (p + 4)"
    have R: "p + 4 \<le> length buffer" "map_parse_result (\<lambda>_. ()) r = check_lengths (of_nat n) (header_lines buffer)"
        "\<And>req. r = Parsed req \<Longrightarrow> rq_body req = drop (p + 4) buffer"
      using r(2) Some by (simp_all add: n_def)
    have sz: "body_size buffer m \<longleftrightarrow> m = n" for m using Some R(1) by (auto simp: body_size_def n_def)
    have "r = Threw \<longleftrightarrow> check_lengths (of_nat n) (header_lines buffer) = Threw"
      "r = Incomplete \<longleftrightarrow> check_lengths (of_nat n) (header_lines buffer) = Incomplete"
      unfolding R(2) [symmetric] by (cases r; simp)+
    note C = this [unfolded check_lengths_cases]
    have "suffix (crlf @ crlf @ drop (p + 4) buffer) buffer"
    proof -
      obtain t where t: "drop p buffer = (crlf @ crlf) @ t" using Some by (auto simp: find_at_Some prefix_def)
      have "drop (p + 4) buffer = drop 4 (drop p buffer)" by (simp add: add.commute)
      also have "\<dots> = t" unfolding t by (simp add: crlf_def)
      finally have "drop p buffer = crlf @ crlf @ drop (p + 4) buffer" using t by simp
      then show ?thesis by (metis suffix_drop)
    qed
    moreover have "length (drop (p + 4) buffer) = n" by (simp add: n_def)
    ultimately have B: "\<forall>req. r = Parsed req \<longrightarrow> body_size buffer (length (rq_body req)) \<and> suffix (crlf @ crlf @ rq_body req) buffer"
      using R(3) sz by simp
    have T: "r = Threw \<longleftrightarrow> (\<exists>m v a b. body_size buffer m \<and> header_lines buffer = a @ length_line v # b \<and> lengths_agree (of_nat m) a \<and> stoi v = None)"
      unfolding sz using C(1) by blast
    have "find_at (crlf @ crlf) buffer \<noteq> None" using Some by simp
    moreover have "r = Incomplete \<longleftrightarrow> (\<exists>m v k a b. body_size buffer m \<and> header_lines buffer = a @ length_line v # b \<and> lengths_agree (of_nat m) a \<and>
        stoi v = Some k \<and> of_int k \<noteq> (of_nat m :: u64))"
      unfolding sz using C(2) by blast
    ultimately show ?thesis by (intro exI [of _ r] conjI r(1) T B) (simp only: simp_thms)
  qed
qed

text \<open>A second \<open>Content-Length\<close> line that is no number makes the parser throw.\<close>

theorem parse_request_total_witness:
  "parse_request (''GET / HTTP/1.1'' @ crlf @ ''Content-Length: 2'' @ crlf @ ''Content-Length: x'' @ crlf @ crlf @ ''ab'') = Some Threw"
proof -
  let ?b = "''GET / HTTP/1.1'' @ crlf @ ''Content-Length: 2'' @ crlf @ ''Content-Length: x'' @ crlf @ crlf @ ''ab''"
  have small: "small ?b" by (simp add: small_def crlf_def)
  have f: "find_at (crlf @ crlf) ?b = Some 52" by code_simp
  have sz: "body_size ?b 2" unfolding body_size_def f by (simp add: crlf_def)
  have hl: "header_lines ?b = [length_line ''2''] @ length_line ''x'' # []" by code_simp
  have s: "stoi ''x'' = None" "stoi ''2'' = Some 2" by code_simp+
  have ag: "lengths_agree (of_nat 2) [length_line ''2'']" using s(2) by simp
  show ?thesis using parse_request_total [OF small] sz hl s(1) ag by blast
qed

section \<open>Well-formed messages\<close>

type_synonym header = "string \<times> string"

definition header_text :: "header list \<Rightarrow> string" where
  "header_text hs = concat (map (\<lambda>(n, v). n @ '': '' @ v @ crlf) hs)"

definition header_ok :: "header \<Rightarrow> bool" where
  "header_ok = (\<lambda>(n, v). CHR 0x0D \<notin> set n \<and> CHR 0x0D \<notin> set v \<and> CHR '':'' \<notin> set n)"

definition header_map :: "header list \<Rightarrow> (string \<Rightarrow> string option) \<Rightarrow> string \<Rightarrow> string option" where
  "header_map hs m = foldl (\<lambda>m (n, v). m(n \<mapsto> v)) m hs"

lemma header_text_simps [simp]:
  "header_text [] = []" "header_text ((n, v) # hs) = n @ '': '' @ v @ crlf @ header_text hs"
  by (simp_all add: header_text_def)

lemma header_map_simps [simp]:
  "header_map [] m = m" "header_map ((n, v) # hs) m = header_map hs (m(n \<mapsto> v))"
  by (simp_all add: header_map_def)

lemma find_crlf: "CHR 0x0D \<notin> set u \<Longrightarrow> find_at crlf (u @ crlf @ v) = Some (length u)"
  unfolding crlf_def by (rule find_at_append) simp_all

lemma substr_mid:
  assumes "small (u @ v @ w)"
  shows "substr (u @ v @ w) (of_nat (length u)) (of_nat (length u + length v) - of_nat (length u)) = Some v"
  using substr_range [OF assms, of "length u" "length u + length v"] by simp

lemma parse_header_step:
  assumes b: "buffer = pre @ n @ '': '' @ v @ crlf @ rest" and small: "small buffer" and ok: "header_ok (n, v)"
  shows "parse_headers buffer ptr (of_nat (length pre)) hs =
    (let next = of_nat (length (pre @ n @ '': '' @ v @ crlf))
     in if n = ''Content-Length'' then
          (case stoi v of
             None \<Rightarrow> Some Threw
           | Some body_length \<Rightarrow>
             if of_int body_length \<noteq> of_nat (length buffer) - ptr then Some Incomplete
             else parse_headers buffer ptr next (hs(n \<mapsto> v)))
        else parse_headers buffer ptr next (hs(n \<mapsto> v)))"
proof -
  let ?p = "length pre" and ?e = "length (pre @ n @ '': '' @ v)" and ?s = "length (pre @ n)"
  have k: "CHR 0x0D \<notin> set (n @ '': '' @ v)" "CHR '':'' \<notin> set n" using ok by (auto simp: header_ok_def)
  have d: "drop ?p buffer = (n @ '': '' @ v) @ crlf @ rest" "drop ?p buffer = n @ '': '' @ (v @ crlf @ rest)" using b by simp_all
  have f: "find_at crlf (drop ?p buffer) = Some (length (n @ '': '' @ v))" unfolding d(1) by (rule find_crlf [OF k(1)])
  have g: "find_at '': '' (drop ?p buffer) = Some (length n)" unfolding d(2) by (rule find_at_append) (use k in simp_all)
  have pl: "?p \<le> length buffer" using b by simp
  have 1: "str_find buffer crlf (of_nat ?p) = of_nat ?e" unfolding str_find_of_nat [OF small pl] f by simp
  have 2: "str_find buffer '': '' (of_nat ?p) = of_nat ?s" unfolding str_find_of_nat [OF small pl] g by simp
  have 3: "(of_nat ?s + 2 :: u64) = of_nat (length (pre @ n @ '': ''))" by simp
  have 4: "(of_nat ?e + 2 :: u64) = of_nat (length (pre @ n @ '': '' @ v @ crlf))" by (simp add: crlf_def)
  have ne: "(of_nat ?e :: u64) \<noteq> of_nat ?p" using of_nat_pos_eq [OF small, of ?e ?p] b by simp
  have s1: "substr buffer (of_nat ?p) (of_nat ?e - of_nat ?p) = Some (n @ '': '' @ v)"
    using substr_mid [of pre "n @ '': '' @ v" "crlf @ rest"] b small by simp
  have s2: "substr buffer (of_nat ?p) (of_nat ?s - of_nat ?p) = Some n"
    using substr_mid [of pre n "'': '' @ v @ crlf @ rest"] b small by simp
  have s3: "substr buffer (of_nat (length (pre @ n @ '': ''))) (of_nat ?e - of_nat (length (pre @ n @ '': ''))) = Some v"
    using substr_mid [of "pre @ n @ '': ''" v "crlf @ rest"] b small by (simp add: add.assoc)
  show ?thesis
    by (subst parse_headers.simps) (simp only: Let_def 1 2 3 4 ne if_False s1 s2 s3 option.case)
qed

lemma parse_header_end:
  assumes "buffer = pre @ crlf @ rest" "small buffer"
  shows "parse_headers buffer ptr (of_nat (length pre)) hs = Some (Parsed hs)"
proof -
  have "find_at crlf (drop (length pre) buffer) = Some 0" using assms(1) find_crlf [of "[]" rest] by simp
  then have "str_find buffer crlf (of_nat (length pre)) = of_nat (length pre)"
    using assms str_find_of_nat [OF assms(2), of "length pre" crlf] by simp
  then show ?thesis by (subst parse_headers.simps) simp
qed

lemma parse_headers_list:
  assumes "small buffer"
  shows "buffer = pre @ header_text hs @ crlf @ body \<Longrightarrow> \<forall>h\<in>set hs. header_ok h \<Longrightarrow>
    \<forall>v. (''Content-Length'', v) \<in> set hs \<longrightarrow> stoi v = Some n \<Longrightarrow>
    parse_headers buffer ptr (of_nat (length pre)) m =
      Some (if (\<exists>v. (''Content-Length'', v) \<in> set hs) \<and> of_int n \<noteq> of_nat (length buffer) - ptr then Incomplete
            else Parsed (header_map hs m))"
proof (induction hs arbitrary: pre m)
  case Nil
  then show ?case using parse_header_end [of buffer pre body] assms by simp
next
  case (Cons h hs)
  obtain k v where h: "h = (k, v)" by fastforce
  let ?pre = "pre @ k @ '': '' @ v @ crlf"
  have b: "buffer = pre @ k @ '': '' @ v @ crlf @ (header_text hs @ crlf @ body)" using Cons.prems(1) h by simp
  have IH: "parse_headers buffer ptr (of_nat (length ?pre)) m' =
      Some (if (\<exists>v. (''Content-Length'', v) \<in> set hs) \<and> of_int n \<noteq> of_nat (length buffer) - ptr then Incomplete
            else Parsed (header_map hs m'))" for m'
    using Cons.IH [of ?pre m'] Cons.prems h by simp
  have ok: "header_ok (k, v)" using Cons.prems(2) h by simp
  have st: "stoi v = Some n" if "k = ''Content-Length''" using Cons.prems(3) h that by simp
  show ?case
    unfolding parse_header_step [OF b assms ok] Let_def IH h using st by (cases "k = ''Content-Length''") auto
qed

lemma find_at_skip: "\<not> prefix pat (c # s) \<Longrightarrow> find_at pat (c # s) = map_option Suc (find_at pat s)"
  by (simp add: find_at.simps [of pat "c # s"])

lemma find_end_here: "CHR 0x0D \<notin> set line \<Longrightarrow> find_at (crlf @ crlf) (line @ crlf @ crlf @ r) = Some (length line)"
  using find_at_append [of "crlf @ crlf" "CHR 0x0D" _ line r] by (simp add: crlf_def)

lemma find_end_later:
  assumes "CHR 0x0D \<notin> set line" "t \<noteq> []" "hd t \<noteq> CHR 0x0D" "find_at (crlf @ crlf) t = Some i"
  shows "find_at (crlf @ crlf) (line @ crlf @ t) = Some (length line + 2 + i)"
  using assms
proof (induction line)
  case Nil
  then have "\<not> prefix (crlf @ crlf) (crlf @ t)" by (cases t) (auto simp: crlf_def)
  then show ?case using Nil by (simp add: crlf_def find_at_skip)
next
  case (Cons c line)
  then have "\<not> prefix (crlf @ crlf) (c # line @ crlf @ t)" by (simp add: crlf_def)
  then show ?case using Cons by (simp add: find_at_skip)
qed

lemma find_end:
  "CHR 0x0D \<notin> set line \<Longrightarrow> \<forall>h\<in>set hs. header_ok h \<Longrightarrow>
    find_at (crlf @ crlf) (line @ crlf @ header_text hs @ crlf @ body) = Some (length (line @ header_text hs))"
proof (induction hs arbitrary: line)
  case Nil
  then show ?case by (simp add: find_end_here)
next
  case (Cons h hs)
  obtain k v where h: "h = (k, v)" by fastforce
  let ?l = "k @ '': '' @ v"
  let ?t = "?l @ crlf @ header_text hs @ crlf @ body"
  have ok: "CHR 0x0D \<notin> set ?l" using Cons.prems(2) h by (auto simp: header_ok_def)
  then have "hd ?t \<noteq> CHR 0x0D" by (cases k) auto
  moreover have "find_at (crlf @ crlf) ?t = Some (length (?l @ header_text hs))" using Cons.IH [OF ok] Cons.prems(2) by simp
  ultimately have "find_at (crlf @ crlf) (line @ crlf @ ?t) = Some (length line + 2 + length (?l @ header_text hs))"
    using find_end_later [OF Cons.prems(1)] by blast
  then show ?case using h by (simp add: crlf_def)
qed

lemma find_at_prefix:
  assumes "prefix u s" "find_at pat s = Some k" "length u < k + length pat"
  shows "find_at pat u = None"
proof (rule ccontr)
  assume "find_at pat u \<noteq> None"
  then obtain i where i: "i \<le> length u" "prefix pat (drop i u)" by (auto simp: find_at_Some)
  obtain w where w: "s = u @ w" using assms(1) by (auto simp: prefix_def)
  have "prefix pat (drop i s)" using i w by (simp add: prefix_def) (metis append.assoc)
  then have "k \<le> i" using assms(2) by (metis find_at_Some linorder_not_le)
  moreover have "i + length pat \<le> length u" using prefix_length_le [OF i(2)] i(1) by simp
  ultimately show False using assms(3) by simp
qed

text \<open>The text of a request.\<close>

definition request_text :: "string \<Rightarrow> string \<Rightarrow> header list \<Rightarrow> string \<Rightarrow> string" where
  "request_text m p hs body = m @ '' '' @ p @ '' HTTP/1.1'' @ crlf @ header_text hs @ crlf @ body"

definition request_ok :: "string \<Rightarrow> string \<Rightarrow> header list \<Rightarrow> bool" where
  "request_ok m p hs \<longleftrightarrow> CHR '' '' \<notin> set m \<and> CHR '' '' \<notin> set p \<and> CHR 0x0D \<notin> set m \<and> CHR 0x0D \<notin> set p \<and> (\<forall>h\<in>set hs. header_ok h)"

definition request_line :: "string \<Rightarrow> string \<Rightarrow> string" where
  "request_line m p = m @ '' '' @ p @ '' HTTP/1.1''"

text \<open>The search for the two spaces of the request line, and for its end.\<close>

lemma parse_request_line:
  assumes ok: "request_ok m p hs" and b: "b = request_text m p hs body" and small: "small b"
  shows "str_find b '' '' 0 = of_nat (length m)" "substr b 0 (of_nat (length m)) = Some m"
    "str_find b '' '' (of_nat (length m) + 1) = of_nat (length (m @ '' '') + length p)"
    "substr b (of_nat (length m) + 1) (of_nat (length (m @ '' '') + length p) - (of_nat (length m) + 1)) = Some p"
    "str_find b crlf 0 + 2 = of_nat (length (request_line m p @ crlf))"
proof -
  have "find_at '' '' b = Some (length m)"
    using find_at_append [of "'' ''" "CHR '' ''" "[]" m] ok by (simp add: b request_text_def request_ok_def)
  then show "str_find b '' '' 0 = of_nat (length m)" using small by (simp add: str_find_0)
  show "substr b 0 (of_nat (length m)) = Some m"
    using substr_mid [of "[]" m "'' '' @ p @ '' HTTP/1.1'' @ crlf @ header_text hs @ crlf @ body"] small by (simp add: b request_text_def)
  have sp1: "(of_nat (length m) + 1 :: u64) = of_nat (length (m @ '' ''))" by simp
  have "find_at '' '' (drop (length (m @ '' '')) b) = Some (length p)"
    using find_at_append [of "'' ''" "CHR '' ''" "[]" p "''HTTP/1.1'' @ crlf @ header_text hs @ crlf @ body"] ok
    by (simp add: b request_text_def request_ok_def)
  then show "str_find b '' '' (of_nat (length m) + 1) = of_nat (length (m @ '' '') + length p)"
    unfolding sp1 using str_find_of_nat [OF small, of "length (m @ '' '')" "'' ''"] by (simp add: b request_text_def)
  show "substr b (of_nat (length m) + 1) (of_nat (length (m @ '' '') + length p) - (of_nat (length m) + 1)) = Some p"
    unfolding sp1 using substr_mid [of "m @ '' ''" p "'' HTTP/1.1'' @ crlf @ header_text hs @ crlf @ body"] small
    by (simp add: b request_text_def)
  have "CHR 0x0D \<notin> set (request_line m p)" using ok by (auto simp: request_ok_def request_line_def)
  from find_crlf [OF this] have "find_at crlf b = Some (length (request_line m p))" by (simp add: b request_text_def request_line_def)
  then show "str_find b crlf 0 + 2 = of_nat (length (request_line m p @ crlf))" using small by (simp add: str_find_0 crlf_def)
qed

lemma parse_request_headers:
  assumes ok: "request_ok m p hs" and b: "b = request_text m p hs body" and small: "small b"
  shows "parse_request b =
    (case parse_headers b (of_nat (length b - length body)) (of_nat (length (request_line m p @ crlf))) Map.empty of
       None \<Rightarrow> None
     | Some Threw \<Rightarrow> Some Threw
     | Some Incomplete \<Rightarrow> Some Incomplete
     | Some (Parsed h) \<Rightarrow> Some (Parsed \<lparr>rq_method = m, rq_path = p, rq_headers = h, rq_body = body\<rparr>))"
proof -
  let ?line = "request_line m p"
  let ?k = "length (?line @ header_text hs)"
  let ?h = "?line @ crlf @ header_text hs @ crlf"
  have hb: "b = ?h @ body" "?k + 4 = length ?h" by (simp_all add: b request_text_def request_line_def crlf_def)
  then have kl: "?k + 4 = length b - length body" "?k + 4 \<le> length b" by simp_all
  have "CHR 0x0D \<notin> set ?line" "\<forall>h\<in>set hs. header_ok h" using ok by (auto simp: request_ok_def request_line_def)
  then have "find_at (crlf @ crlf) b = Some ?k" using find_end [of ?line hs body] hb(1) by simp
  then have ptr: "str_find b (crlf @ crlf) 0 = of_nat ?k" using small by (simp add: str_find_0)
  have np: "of_nat ?k \<noteq> npos" by (rule npos_neq [OF small]) (use kl in linarith)
  have ptr4: "(of_nat ?k + 4 :: u64) = of_nat (length b - length body)" unfolding kl(1) [symmetric] by simp
  have "drop (length b - length body) b = body" using hb(1) by simp
  moreover have "length body \<le> unat npos" using small hb(1) by (simp add: small_def npos_def unsigned_minus_1_eq_mask mask_eq_exp_minus_1)
  ultimately have body: "substr b (of_nat (length b - length body)) npos = Some body"
    using substr_of_nat [OF small, of "length b - length body" npos] by simp
  show ?thesis
    unfolding parse_request_def ptr Let_def
    by (simp only: np if_False ptr4 parse_request_line [OF ok b small] option.case body)
qed

lemma parse_request_text:
  assumes ok: "request_ok m p hs" and small: "small (request_text m p hs body)"
    and len: "\<forall>v. (''Content-Length'', v) \<in> set hs \<longrightarrow> stoi v = Some (int n)" and n: "n < 2 ^ 31"
  shows "parse_request (request_text m p hs body) =
    Some (if (\<exists>v. (''Content-Length'', v) \<in> set hs) \<and> n \<noteq> length body then Incomplete
          else Parsed \<lparr>rq_method = m, rq_path = p, rq_headers = header_map hs Map.empty, rq_body = body\<rparr>)"
proof -
  let ?b = "request_text m p hs body"
  let ?k = "length ?b - length body"
  have b: "?b = (request_line m p @ crlf) @ header_text hs @ crlf @ body" by (simp add: request_text_def request_line_def)
  then have kl: "length body \<le> length ?b" by simp
  have hok: "\<forall>h\<in>set hs. header_ok h" using ok by (simp add: request_ok_def)
  have "(of_nat (length ?b) - of_nat ?k :: u64) = of_nat (length body)" using kl by simp
  moreover have "unat (of_nat n :: u64) = n" using n by (simp add: unat_of_nat)
  moreover have "unat (of_nat (length body) :: u64) = length body" using kl by (intro unat_pos [OF small]) simp
  ultimately have diff: "(of_int (int n) :: u64) \<noteq> of_nat (length ?b) - of_nat ?k \<longleftrightarrow> n \<noteq> length body"
    by (metis of_int_of_nat_eq)
  note H = parse_headers_list [OF small b hok len, of "of_nat ?k" Map.empty, unfolded diff]
  show ?thesis unfolding parse_request_headers [OF ok refl small] H by simp
qed

text \<open>A message announces its length when it has a body.\<close>

definition announces :: "header list \<Rightarrow> string \<Rightarrow> bool" where
  "announces hs body \<longleftrightarrow> length body < 2 ^ 31 \<and>
     (\<forall>v. (''Content-Length'', v) \<in> set hs \<longrightarrow> stoi v = Some (int (length body))) \<and>
     (body = [] \<or> (\<exists>v. (''Content-Length'', v) \<in> set hs))"

lemma parse_request_whole:
  assumes "request_ok m p hs" "small (request_text m p hs body)" "announces hs body"
  shows "parse_request (request_text m p hs body) =
    Some (Parsed \<lparr>rq_method = m, rq_path = p, rq_headers = header_map hs Map.empty, rq_body = body\<rparr>)"
  using parse_request_text [OF assms(1,2), of "length body"] assms(3) by (simp add: announces_def)

lemma append_longer: "h @ b = u @ w \<Longrightarrow> length h \<le> length u \<Longrightarrow> \<exists>b'. u = h @ b' \<and> b = b' @ w"
  by (auto simp: append_eq_append_conv2)

lemma small_prefix: "small s \<Longrightarrow> prefix u s \<Longrightarrow> small u"
  using prefix_length_le [of u s] by (simp add: small_def)

lemma request_prefix:
  assumes "request_ok m p hs" "prefix u (request_text m p hs body)"
  shows "find_at (crlf @ crlf) u = None \<or> (\<exists>body' w. u = request_text m p hs body' \<and> body = body' @ w)"
proof -
  let ?line = "m @ '' '' @ p @ '' HTTP/1.1''"
  let ?h = "?line @ crlf @ header_text hs @ crlf"
  have b: "request_text m p hs body = ?h @ body" by (simp add: request_text_def)
  have pu: "prefix u (?h @ body)" using assms(2) b by simp
  have "CHR 0x0D \<notin> set ?line" "\<forall>h\<in>set hs. header_ok h" using assms(1) by (auto simp: request_ok_def)
  then have f: "find_at (crlf @ crlf) (?h @ body) = Some (length (?line @ header_text hs))"
    using find_end [of ?line hs body] by simp
  show ?thesis
  proof (cases "length u < length ?h")
    case True
    then have "length u < length (?line @ header_text hs) + length (crlf @ crlf)" by (simp add: crlf_def)
    then show ?thesis using find_at_prefix [OF pu f] by blast
  next
    case False
    obtain w where w: "?h @ body = u @ w" using pu by (auto simp: prefix_def)
    then obtain body' where "u = ?h @ body'" "body = body' @ w" using append_longer [OF w] False by auto
    then show ?thesis by (auto simp: request_text_def)
  qed
qed

lemma parse_request_partial:
  assumes ok: "request_ok m p hs" and small: "small (request_text m p hs body)" and an: "announces hs body"
    and u: "strict_prefix u (request_text m p hs body)"
  shows "parse_request u = Some Incomplete"
proof -
  have pu: "prefix u (request_text m p hs body)" "u \<noteq> request_text m p hs body" using u by auto
  have su: "small u" using small_prefix [OF small pu(1)] .
  from request_prefix [OF ok pu(1)] show ?thesis
  proof (elim disjE exE conjE)
    assume "find_at (crlf @ crlf) u = None"
    then show ?thesis using su by (simp add: parse_request_def str_find_0)
  next
    fix body' w assume b: "u = request_text m p hs body'" "body = body' @ w"
    then have "body \<noteq> []" "length body \<noteq> length body'" using pu(2) by auto
    then show ?thesis using parse_request_text [OF ok, of body' "length body"] su an b(1) by (simp add: announces_def)
  qed
qed

text \<open>The lines of a well-formed message, and what a length that is no number does to it and to the parts
  that arrive before the rest.\<close>

lemma block_lines_Cons:
  assumes "CHR 0x0D \<notin> set line" "line \<noteq> []"
  shows "block_lines (line @ crlf @ s) = line # block_lines s"
proof -
  have "drop (length line + 2) (line @ crlf @ s) = s" by (simp add: crlf_def)
  then show ?thesis using find_crlf [OF assms(1), of s] assms(2) by (subst block_lines.simps) simp
qed

lemma block_lines_headers:
  "\<forall>h\<in>set hs. header_ok h \<Longrightarrow> block_lines (header_text hs @ crlf @ body) = map (\<lambda>(n, v). n @ '': '' @ v) hs"
proof (induction hs)
  case Nil
  have "find_at crlf (crlf @ body) = Some 0" using find_crlf [of "[]" body] by simp
  then show ?case by (subst block_lines.simps) simp
next
  case (Cons h hs)
  obtain n v where h: "h = (n, v)" by fastforce
  have "CHR 0x0D \<notin> set (n @ '': '' @ v)" using Cons.prems h by (auto simp: header_ok_def)
  from block_lines_Cons [OF this, of "header_text hs @ crlf @ body"] show ?case using Cons h by simp
qed

lemma header_lines_request:
  assumes "request_ok m p hs"
  shows "header_lines (request_text m p hs body) = map (\<lambda>(n, v). n @ '': '' @ v) hs"
proof -
  have "CHR 0x0D \<notin> set (request_line m p)" using assms by (auto simp: request_ok_def request_line_def)
  from find_crlf [OF this, of "header_text hs @ crlf @ body"]
  have f: "find_at crlf (request_text m p hs body) = Some (length (request_line m p))" by (simp add: request_text_def request_line_def)
  have t: "request_text m p hs body = (request_line m p @ crlf) @ header_text hs @ crlf @ body" by (simp add: request_text_def request_line_def)
  have "drop (length (request_line m p) + 2) (request_text m p hs body) = header_text hs @ crlf @ body"
    unfolding t by (simp add: crlf_def)
  then show ?thesis using f block_lines_headers [of hs body] assms by (simp add: header_lines_def request_ok_def)
qed

lemma parse_bad_length:
  assumes ok: "request_ok m p (hs1 @ (''Content-Length'', v) # hs2)" and small: "small (request_text m p (hs1 @ (''Content-Length'', v) # hs2) body)"
    and bad: "stoi v = None"
    and first: "\<forall>u. (''Content-Length'', u) \<in> set hs1 \<longrightarrow> stoi u = Some (int (length body))"
    and u: "prefix u (request_text m p (hs1 @ (''Content-Length'', v) # hs2) body)"
  shows "parse_request u = Some Incomplete \<or> parse_request u = Some Threw"
    "u = request_text m p (hs1 @ (''Content-Length'', v) # hs2) body \<Longrightarrow> parse_request u = Some Threw"
proof -
  let ?hs = "hs1 @ (''Content-Length'', v) # hs2" and ?line = "\<lambda>(n, v). n @ '': '' @ v"
  have su: "small u" using small_prefix [OF small u] .
  obtain r where r: "parse_request u = Some r" "case find_at (crlf @ crlf) u of
       None \<Rightarrow> r = Incomplete
     | Some p \<Rightarrow> p + 4 \<le> length u \<and>
         map_parse_result (\<lambda>_. ()) r = check_lengths (of_nat (length u - (p + 4))) (header_lines u) \<and>
         (\<forall>req. r = Parsed req \<longrightarrow> rq_body req = drop (p + 4) u)"
    using parse_request_outcome [OF su] by blast
  have line: "?line (''Content-Length'', v) = length_line v" by simp
  have "check_lengths n (ls @ length_line v # ls') \<noteq> Parsed ()" for n ls ls'
    using bad by (induction ls) (auto split: option.splits)
  then have never: "check_lengths n (map ?line ?hs) \<noteq> Parsed ()" for n by (simp only: map_append list.map line not_False_eq_True)
  show "parse_request u = Some Incomplete \<or> parse_request u = Some Threw"
  proof (cases "find_at (crlf @ crlf) u")
    case None
    then show ?thesis using r by simp
  next
    case (Some q)
    then obtain body' where "u = request_text m p ?hs body'" using request_prefix [OF ok u] by auto
    then have "header_lines u = map ?line ?hs" using header_lines_request [OF ok] by simp
    then have "map_parse_result (\<lambda>_. ()) r \<noteq> Parsed ()" using r(2) Some never by simp
    then show ?thesis using r(1) by (cases r) simp_all
  qed
  assume whole: "u = request_text m p ?hs body"
  have "CHR 0x0D \<notin> set (request_line m p)" "\<forall>h\<in>set ?hs. header_ok h" using ok by (auto simp: request_ok_def request_line_def)
  from find_end [OF this, of body] have f: "find_at (crlf @ crlf) u = Some (length (request_line m p @ header_text ?hs))"
    by (simp add: whole request_text_def request_line_def)
  have sz: "length u - (length (request_line m p @ header_text ?hs) + 4) = length body"
    by (simp add: whole request_text_def request_line_def crlf_def)
  have "lengths_agree (of_nat (length body)) (map ?line hs1)"
    unfolding lengths_agree_def
  proof (intro allI impI)
    fix w assume "length_line w \<in> set (map ?line hs1)"
    then obtain n x where x: "(n, x) \<in> set hs1" "n @ '': '' @ x = ''Content-Length'' @ '': '' @ w" by auto
    have "CHR '':'' \<notin> set n" using x(1) ok by (auto simp: request_ok_def header_ok_def)
    then have "find_at '': '' (n @ '': '' @ x) = Some (length n)" by (intro find_at_append [of _ "CHR '':''" "'' ''"]) simp_all
    moreover have "find_at '': '' (''Content-Length'' @ '': '' @ w) = Some (length ''Content-Length'')"
      by (rule find_at_append [of _ "CHR '':''" "'' ''"]) simp_all
    ultimately have "n = ''Content-Length'' \<and> x = w" using x(2) by (metis append_eq_append_conv option.inject same_append_eq)
    then show "\<exists>k. stoi w = Some k \<and> of_int k = (of_nat (length body) :: u64)" using first x(1) by auto
  qed
  then have "check_lengths (of_nat (length body)) (map ?line hs1 @ length_line v # map ?line hs2) = Threw"
    unfolding check_lengths_cases(1) using bad by blast
  moreover have "header_lines u = map ?line hs1 @ length_line v # map ?line hs2"
    using header_lines_request [OF ok, of body] unfolding whole by simp
  ultimately have "map_parse_result (\<lambda>_. ()) r = Threw" using r(2) f sz by simp
  then show "parse_request u = Some Threw" using r(1) by (cases r) simp_all
qed

end
