(* ===== verification/Handlers.thy ===== *)
theory Handlers
  imports Market_Registry Http_Parse
begin

text \<open>
  The request handlers of \<open>sim/http/handlers.cpp\<close>. The JSON library is a parameter: a record of the
  lookups that \<open>handle_place_order\<close> makes, each of which may fail. The time that the engine reads is an
  argument.
\<close>

section \<open>The handlers\<close>

record 'd order_json =
  oj_iterate :: "string \<Rightarrow> 'd option"
  oj_string :: "'d \<Rightarrow> string \<Rightarrow> string option"
  oj_int64 :: "'d \<Rightarrow> string \<Rightarrow> int option"

definition make_error :: "int \<Rightarrow> string \<Rightarrow> response" where
\<open>make_error status msg =
    \<lparr>rs_status = status, rs_content_type = ''application/json'', rs_body = ''{"error":"'' @ msg @ ''"}''\<rparr>\<close>

text \<open>The loop that prints the fills, and the body of a successful reply.\<close>

definition fill_text :: "fill \<Rightarrow> string" where
\<open>fill_text f =
    ''{"maker_order_id":'' @ dec (unat (maker_order_id f)) @
    '',"taker_order_id":'' @ dec (unat (taker_order_id f)) @
    '',"price":'' @ dec (unat (fill_price f)) @
    '',"qty":'' @ dec (unat (fill_qty f)) @
    '',"ts":'' @ dec (unat (fill_ts f)) @ ''}''\<close>

fun fills_loop :: "nat \<Rightarrow> fill list \<Rightarrow> string" where
  "fills_loop i [] = []"
| "fills_loop i (f # fs) = (if i > 0 then '','' else []) @ fill_text f @ fills_loop (Suc i) fs"

definition place_body :: "place_result \<Rightarrow> string" where
\<open>place_body result =
    ''{"order_id":'' @ dec (unat (res_order_id result)) @
    '',"qty_resting":'' @ dec (unat (qty_resting result)) @
    '',"accepted":'' @ (if accepted result then ''true'' else ''false'') @
    '',"fills": ['' @ fills_loop 0 (res_fills result) @ '']}''\<close>

definition handle_place_order ::
    "'d order_json \<Rightarrow> u64 \<Rightarrow> request \<Rightarrow> market_registry \<Rightarrow> (response \<times> market_registry) option" where
\<open>handle_place_order sj ts req reg =
    (let cid = 1 :: u64
     in case oj_iterate sj (rq_body req) of
          None \<Rightarrow> Some (make_error 400 ''malformed JSON'', reg)
        | Some doc \<Rightarrow>
     case oj_string sj doc ''ticker'' of
          None \<Rightarrow> Some (make_error 400 (''missing or invalid '' @ [CHR 0x27] @ ''ticker'' @ [CHR 0x27]), reg)
        | Some ticker \<Rightarrow>
     if ticker = [] then Some (make_error 400 ''ticker empty'', reg)
     else case oj_string sj doc ''side'' of
          None \<Rightarrow> Some (make_error 400 (''missing or invalid '' @ [CHR 0x27] @ ''side'' @ [CHR 0x27]), reg)
        | Some side_str \<Rightarrow>
     case (if side_str = ''YES'' then Some YES else if side_str = ''NO'' then Some NO else None) of
          None \<Rightarrow> Some (make_error 400 (''side must be '' @ [CHR 0x27] @ ''YES'' @ [CHR 0x27] @ '' or '' @ [CHR 0x27] @ ''NO'' @ [CHR 0x27]), reg)
        | Some sd \<Rightarrow>
     case oj_int64 sj doc ''price'' of
          None \<Rightarrow> Some (make_error 400 (''missing or invalid '' @ [CHR 0x27] @ ''price'' @ [CHR 0x27]), reg)
        | Some price_raw \<Rightarrow>
     if price_raw < 1 \<or> price_raw > 99 then Some (make_error 400 ''price out of range (1-99)'', reg)
     else let price = (of_int price_raw :: u8) in
     case oj_int64 sj doc ''qty'' of
          None \<Rightarrow> Some (make_error 400 (''missing or invalid '' @ [CHR 0x27] @ ''qty'' @ [CHR 0x27]), reg)
        | Some qty_raw \<Rightarrow>
     if qty_raw \<le> 0 \<or> qty_raw > 1000000 then Some (make_error 400 ''qty out of range'', reg)
     else let qty = (of_int qty_raw :: u32) in
     case get_engine ticker reg of
          None \<Rightarrow> Some (make_error 404 ''no such market'', reg)
        | Some e \<Rightarrow> do {
            (result, e) \<leftarrow> place_limit ts cid sd price qty e;
            Some (\<lparr>rs_status = 200, rs_content_type = ''application/json'', rs_body = place_body result\<rparr>,
                  set_engine ticker e reg)
          })\<close>

definition handle_get_orderbook :: "request \<Rightarrow> market_registry \<Rightarrow> (response \<times> market_registry) option" where
  "handle_get_orderbook req reg = Some (make_error 501 ''endpoint developing'', reg)"

definition handle_cancel_order :: "request \<Rightarrow> market_registry \<Rightarrow> (response \<times> market_registry) option" where
  "handle_cancel_order req reg = Some (make_error 501 ''endpoint developing'', reg)"

section \<open>The order a body asks for\<close>

definition order_of :: "'d order_json \<Rightarrow> string \<Rightarrow> (string \<times> side \<times> u8 \<times> u32) option" where
  "order_of sj body = do {
     doc \<leftarrow> oj_iterate sj body;
     ticker \<leftarrow> oj_string sj doc ''ticker'';
     side_str \<leftarrow> oj_string sj doc ''side'';
     sd \<leftarrow> (if side_str = ''YES'' then Some YES else if side_str = ''NO'' then Some NO else None);
     price \<leftarrow> oj_int64 sj doc ''price'';
     qty \<leftarrow> oj_int64 sj doc ''qty'';
     if ticker \<noteq> [] \<and> 1 \<le> price \<and> price \<le> 99 \<and> 1 \<le> qty \<and> qty \<le> 1000000
     then Some (ticker, sd, of_int price, of_int qty) else None
   }"

definition side_of_string :: "string \<Rightarrow> side option" where
  "side_of_string s = (if s = ''YES'' then Some YES else if s = ''NO'' then Some NO else None)"

lemma order_of_Some:
  assumes "order_of sj body = Some (ticker, sd, price, qty)"
  obtains doc ss p q where "oj_iterate sj body = Some doc" "oj_string sj doc ''ticker'' = Some ticker"
    "oj_string sj doc ''side'' = Some ss" "side_of_string ss = Some sd"
    "oj_int64 sj doc ''price'' = Some p" "oj_int64 sj doc ''qty'' = Some q"
    "ticker \<noteq> []" "1 \<le> p" "p \<le> 99" "1 \<le> q" "q \<le> 1000000" "price = of_int p" "qty = of_int q"
  using assms unfolding order_of_def side_of_string_def [symmetric]
  by (auto simp only: Option.bind_eq_Some_conv prod.inject option.inject option.distinct split: if_splits)

lemma handle_valid:
  assumes "order_of sj (rq_body req) = Some (ticker, sd, price, qty)"
  shows "handle_place_order sj ts req reg =
    (case get_engine ticker reg of
       None \<Rightarrow> Some (make_error 404 ''no such market'', reg)
     | Some e \<Rightarrow> do {
         (result, e) \<leftarrow> place_limit ts 1 sd price qty e;
         Some (\<lparr>rs_status = 200, rs_content_type = ''application/json'', rs_body = place_body result\<rparr>,
               set_engine ticker e reg)
       })"
proof -
  obtain doc ss p q where F: "oj_iterate sj (rq_body req) = Some doc" "oj_string sj doc ''ticker'' = Some ticker"
    "oj_string sj doc ''side'' = Some ss" "side_of_string ss = Some sd"
    "oj_int64 sj doc ''price'' = Some p" "oj_int64 sj doc ''qty'' = Some q"
    and C: "ticker \<noteq> []" "1 \<le> p" "p \<le> 99" "1 \<le> q" "q \<le> 1000000" "price = of_int p" "qty = of_int q"
    using order_of_Some [OF assms] by metis
  have n: "(ticker = []) = False" "(p < 1 \<or> p > 99) = False" "(q \<le> 0 \<or> q > 1000000) = False" using C by auto
  show ?thesis
    unfolding handle_place_order_def Let_def side_of_string_def [symmetric] F option.case n if_False C(6,7) ..
qed

lemma order_of_range:
  assumes "order_of sj body = Some (ticker, sd, price, qty)"
  shows "1 \<le> price" "price \<le> 99" "qty \<noteq> 0" "qty \<le> 1000000" "ticker \<noteq> []"
proof -
  obtain doc ss p q where C: "ticker \<noteq> []" "1 \<le> p" "p \<le> 99" "1 \<le> q" "q \<le> 1000000" "price = of_int p" "qty = of_int q"
    using order_of_Some [OF assms] by metis
  have "uint price = p" using C by (simp add: uint_word_of_int)
  moreover have "uint qty = q" using C by (simp add: uint_word_of_int)
  ultimately show "1 \<le> price" "price \<le> 99" "qty \<noteq> 0" "qty \<le> 1000000" "ticker \<noteq> []"
    using C by (auto simp: word_le_def)
qed

lemma handle_invalid:
  assumes "order_of sj (rq_body req) = None"
  shows "\<exists>msg. handle_place_order sj ts req reg = Some (make_error 400 msg, reg)"
proof -
  note D = handle_place_order_def [of sj ts req reg, unfolded Let_def side_of_string_def [symmetric]]
  note O = assms [unfolded order_of_def side_of_string_def [symmetric]]
  show ?thesis
  proof (cases "oj_iterate sj (rq_body req)")
    case None then show ?thesis unfolding D None option.case by blast
  next
    case 1: (Some doc)
    show ?thesis
    proof (cases "oj_string sj doc ''ticker''")
      case None then show ?thesis unfolding D 1 None option.case by blast
    next
      case 2: (Some ticker)
      show ?thesis
      proof (cases "ticker = [] \<or> oj_string sj doc ''side'' = None")
        case True
        then show ?thesis unfolding D 1 2 option.case by (cases "ticker = []") (auto simp only: if_True if_False option.case simp_thms)
      next
        case False
        then obtain ss where 3: "oj_string sj doc ''side'' = Some ss" "(ticker = []) = False" by auto
        show ?thesis
        proof (cases "side_of_string ss = None \<or> oj_int64 sj doc ''price'' = None")
          case True
          then show ?thesis unfolding D 1 2 3 option.case if_False
            by (cases "side_of_string ss") (auto simp only: option.case)
        next
          case False
          then obtain sd p where 4: "side_of_string ss = Some sd" "oj_int64 sj doc ''price'' = Some p" by auto
          show ?thesis
          proof (cases "(p < 1 \<or> p > 99) \<or> oj_int64 sj doc ''qty'' = None")
            case True
            then show ?thesis unfolding D 1 2 3 4 option.case if_False
              by (cases "p < 1 \<or> p > 99") (auto simp only: if_True if_False option.case)
          next
            case False
            then obtain q where 5: "oj_int64 sj doc ''qty'' = Some q" "(p < 1 \<or> p > 99) = False" by auto
            have "q \<le> 0 \<or> q > 1000000"
              using O unfolding 1 2 3(1) 4 5(1) bind.bind_lunit using 3(2) 5(2) by (auto split: if_splits)
            then have 6: "(q \<le> 0 \<or> q > 1000000) = True" by simp
            show ?thesis unfolding D 1 2 3 4 5 6 option.case if_False if_True by blast
          qed
        qed
      qed
    qed
  qed
qed

section \<open>Reading a reply back\<close>

type_synonym fill_numbers = "nat \<times> nat \<times> nat \<times> nat \<times> nat"

definition fill_numbers :: "fill \<Rightarrow> fill_numbers" where
  "fill_numbers f = (unat (maker_order_id f), unat (taker_order_id f), unat (fill_price f), unat (fill_qty f), unat (fill_ts f))"

definition read_fill :: "string \<Rightarrow> (fill_numbers \<times> string) option" where
\<open>read_fill s = do {
    r \<leftarrow> strip ''{"maker_order_id":'' s; (a, r) \<leftarrow> read_dec r;
    r \<leftarrow> strip '',"taker_order_id":'' r; (b, r) \<leftarrow> read_dec r;
    r \<leftarrow> strip '',"price":'' r; (p, r) \<leftarrow> read_dec r;
    r \<leftarrow> strip '',"qty":'' r; (q, r) \<leftarrow> read_dec r;
    r \<leftarrow> strip '',"ts":'' r; (t, r) \<leftarrow> read_dec r;
    r \<leftarrow> strip ''}'' r;
    Some ((a, b, p, q, t), r)
  }\<close>

fun read_fills :: "nat \<Rightarrow> string \<Rightarrow> (fill_numbers list \<times> string) option" where
  "read_fills 0 s = Some ([], s)"
| "read_fills (Suc n) s =
    (case strip ''{'' s of
       None \<Rightarrow> Some ([], s)
     | Some _ \<Rightarrow> do {
         (f, r) \<leftarrow> read_fill s;
         (case strip '','' r of
            None \<Rightarrow> Some ([f], r)
          | Some r \<Rightarrow> do { (fs, r) \<leftarrow> read_fills n r; Some (f # fs, r) })
       })"

definition decode_reply :: "string \<Rightarrow> (nat \<times> nat \<times> bool \<times> fill_numbers list) option" where
\<open>decode_reply s = do {
    r \<leftarrow> strip ''{"order_id":'' s; (oid, r) \<leftarrow> read_dec r;
    r \<leftarrow> strip '',"qty_resting":'' r; (rest, r) \<leftarrow> read_dec r;
    r \<leftarrow> strip '',"accepted":'' r;
    let acc = (strip ''true'' r \<noteq> None);
    r \<leftarrow> strip (if acc then ''true'' else ''false'') r;
    r \<leftarrow> strip '',"fills": ['' r;
    (fs, r) \<leftarrow> read_fills (length r) r;
    r \<leftarrow> strip '']}'' r;
    if r = [] then Some (oid, rest, acc, fs) else None
  }\<close>

lemma read_fill_text: "read_fill (fill_text f @ r) = Some (fill_numbers f, r)"
proof -
  let ?r5 = "CHR ''}'' # r"
  let ?r4 = \<open>'',"ts":'' @ dec (unat (fill_ts f)) @ ?r5\<close>
  let ?r3 = \<open>'',"qty":'' @ dec (unat (fill_qty f)) @ ?r4\<close>
  let ?r2 = \<open>'',"price":'' @ dec (unat (fill_price f)) @ ?r3\<close>
  let ?r1 = \<open>'',"taker_order_id":'' @ dec (unat (taker_order_id f)) @ ?r2\<close>
  have t: "fill_text f @ r = ''{\"maker_order_id\":'' @ dec (unat (maker_order_id f)) @ ?r1" by (simp add: fill_text_def)
  have d: "read_dec (dec n @ ?r1) = Some (n, ?r1)" "read_dec (dec n @ ?r2) = Some (n, ?r2)" "read_dec (dec n @ ?r3) = Some (n, ?r3)"
      "read_dec (dec n @ ?r4) = Some (n, ?r4)" "read_dec (dec n @ ?r5) = Some (n, ?r5)" for n
    by (rule read_dec_then; simp add: not_digits)+
  have e: "strip ''}'' ?r5 = Some r" by (simp add: strip_def)
  show ?thesis
    unfolding read_fill_def t strip_append bind.bind_lunit d prod.case e fill_numbers_def ..
qed

lemma fills_loop_from: "fills_loop (Suc i) fs = concat (map (\<lambda>f. CHR '','' # fill_text f) fs)"
  by (induction fs arbitrary: i) simp_all

lemma fill_text_brace: "strip ''{'' (fill_text f @ r) \<noteq> None"
  by (simp add: strip_def fill_text_def)

lemma read_fills_text:
  "length fs < n \<Longrightarrow> r \<noteq> [] \<Longrightarrow> hd r = CHR '']'' \<Longrightarrow>
    read_fills n (fill_text f @ concat (map (\<lambda>f. CHR '','' # fill_text f) fs) @ r) = Some (map fill_numbers (f # fs), r)"
proof (induction fs arbitrary: f n)
  case Nil
  have "strip '','' r = None" using Nil.prems(2,3) by (cases r) (simp_all add: strip_def)
  then show ?case using Nil.prems(1) fill_text_brace [of f r] by (cases n) (auto simp: read_fill_text split: option.splits)
next
  case (Cons g fs)
  let ?rest = "fill_text g @ concat (map (\<lambda>f. CHR '','' # fill_text f) fs) @ r"
  obtain m where n: "n = Suc m" "length fs < m" using Cons.prems(1) by (cases n) auto
  have "strip '','' (CHR '','' # ?rest) = Some ?rest" by (simp add: strip_def)
  then show ?case
    using Cons.IH [OF n(2) Cons.prems(2,3), of g] fill_text_brace [of f "CHR '','' # ?rest"]
    by (auto simp: n(1) read_fill_text split: option.splits)
qed

lemma length_fill_text: "0 < length (fill_text f)"
  by (simp add: fill_text_def)

lemma read_fills_loop: "read_fills (length (fills_loop 0 fs @ '']}'')) (fills_loop 0 fs @ '']}'') = Some (map fill_numbers fs, '']}'')"
proof (cases fs)
  case Nil
  then show ?thesis by (simp add: strip_def)
next
  case (Cons f gs)
  have "length (concat (map (\<lambda>f. CHR '','' # fill_text f) gs)) \<ge> length gs" by (induction gs) auto
  then have "length gs < length (fills_loop 0 fs @ '']}'')" by (simp add: Cons fills_loop_from)
  then show ?thesis using read_fills_text [of gs _ "'']}''" f] by (simp add: Cons fills_loop_from del: read_fills.simps)
qed

text \<open>The reply says what the engine did: its body can be read back.\<close>

lemma decode_place_body:
  "decode_reply (place_body result) =
     Some (unat (res_order_id result), unat (qty_resting result), accepted result, map fill_numbers (res_fills result))"
proof -
  let ?f = "fills_loop 0 (res_fills result) @ '']}''"
  let ?acc = "if accepted result then ''true'' else ''false''"
  let ?r3 = \<open>?acc @ '',"fills": ['' @ ?f\<close>
  let ?r2 = \<open>'',"accepted":'' @ ?r3\<close>
  let ?r1 = \<open>'',"qty_resting":'' @ dec (unat (qty_resting result)) @ ?r2\<close>
  have t: "place_body result = ''{\"order_id\":'' @ dec (unat (res_order_id result)) @ ?r1" by (simp add: place_body_def)
  have d: "read_dec (dec n @ ?r1) = Some (n, ?r1)" "read_dec (dec n @ ?r2) = Some (n, ?r2)" for n
    by (rule read_dec_then; simp add: not_digits)+
  have acc: "(strip ''true'' ?r3 \<noteq> None) = accepted result" by (simp add: strip_def)
  have e: "strip '']}'' '']}'' = Some []" by (simp add: strip_def)
  show ?thesis
    unfolding decode_reply_def t strip_append bind.bind_lunit d prod.case Let_def acc read_fills_loop e by simp
qed

section \<open>What an order request does\<close>

text \<open>Every engine has handed out fewer than \<open>n\<close> order ids.\<close>

definition ids_within :: "nat \<Rightarrow> market_registry \<Rightarrow> bool" where
  "ids_within n reg \<longleftrightarrow> (\<forall>t e. engines reg t = Some e \<longrightarrow> unat (next_order_id e) \<le> n)"

lemma ids_not_empty: "unat oid \<le> n \<Longrightarrow> n < 2 ^ 64 - 1 \<Longrightarrow> oid \<noteq> EMPTY"
  by (auto simp: EMPTY_def unsigned_minus_1_eq_mask mask_eq_exp_minus_1)

lemma place_reach_next:
  assumes "eng_reach e" "qty \<le> max_order_qty" "next_order_id e \<noteq> EMPTY"
    "place_limit ts client sd price qty e = Some (r, e')"
  shows "eng_reach e'" "unat (next_order_id e') \<le> Suc (unat (next_order_id e))"
proof -
  show "eng_reach e'" by (rule eng_reach.place [OF assms])
  obtain G where G: "eng_ok e G" using eng_reach_book [OF assms(1)] by metis
  have "next_order_id e' = next_order_id e + 1 \<or> next_order_id e' = next_order_id e"
    using place_limit_ok [OF G assms(3,2), of ts client sd price] assms(4) by (auto split: if_splits)
  then show "unat (next_order_id e') \<le> Suc (unat (next_order_id e))" by (auto simp: unat_word_ariths)
qed

lemma order_qty: "qty \<le> 1000000 \<Longrightarrow> qty \<le> max_order_qty"
  unfolding max_order_qty_def by (erule order_trans) simp

lemma handle_order_total:
  assumes reg: "registry_ok reg" "ids_within n reg" "n < 2 ^ 64 - 1"
    and o: "order_of sj (rq_body req) = Some (ticker, sd, price, qty)" and e: "get_engine ticker reg = Some e"
  obtains result e' where
    "handle_place_order sj ts req reg =
       Some (\<lparr>rs_status = 200, rs_content_type = ''application/json'', rs_body = place_body result\<rparr>, set_engine ticker e' reg)"
    "(result, book_of e') = place_spec (next_order_id e) ts 1 sd price qty (book_of e)"
    "eng_reach e'" "unat (next_order_id e') \<le> Suc n"
proof -
  have q: "qty \<le> max_order_qty" using order_of_range(4) [OF o] by (rule order_qty)
  have r: "eng_reach e" "unat (next_order_id e) \<le> n" using reg e by (simp_all add: registry_ok_def ids_within_def get_engine_def)
  have n: "next_order_id e \<noteq> EMPTY" by (rule ids_not_empty [OF r(2) reg(3)])
  obtain result e' where P: "place_limit ts 1 sd price qty e = Some (result, e')"
    "(result, book_of e') = place_spec (next_order_id e) ts 1 sd price qty (book_of e)"
    using place_reach [OF r(1) q n, of ts 1 sd price] .
  note N = place_reach_next [OF r(1) q n P(1)]
  show thesis
    by (rule that [OF _ P(2) N(1)]) (use handle_valid [OF o, of ts reg] e P(1) N(2) r(2) in simp_all)
qed

text \<open>(C11) Placing an order over HTTP. A body that does not ask for a valid order (a ticker, a side, a price
  of 1 to 99 and a quantity of 1 to 1000000) gets a 400 and an unknown ticker a 404, and neither
  changes any book; otherwise the reply is a 200 with the result, and the book of that market moves as
  the order book specification says while every other market stays as it was. In particular the
  handler always returns.\<close>

theorem place_order_correct:
  assumes "registry_ok reg" "ids_within n reg" "n < 2 ^ 64 - 1"
  shows "case order_of sj (rq_body req) of
     None \<Rightarrow> \<exists>msg. handle_place_order sj ts req reg = Some (make_error 400 msg, reg)
   | Some (ticker, sd, price, qty) \<Rightarrow>
      (case get_engine ticker reg of
         None \<Rightarrow> handle_place_order sj ts req reg = Some (make_error 404 ''no such market'', reg)
       | Some e \<Rightarrow> \<exists>result e'. (result, book_of e') = place_spec (next_order_id e) ts 1 sd price qty (book_of e) \<and>
           handle_place_order sj ts req reg =
             Some (\<lparr>rs_status = 200, rs_content_type = ''application/json'', rs_body = place_body result\<rparr>,
                   reg\<lparr>engines := (engines reg)(ticker \<mapsto> e')\<rparr>))"
proof (cases "order_of sj (rq_body req)")
  case None
  then show ?thesis using handle_invalid [OF None, of ts reg] by simp
next
  case (Some od)
  obtain ticker sd price qty where o: "order_of sj (rq_body req) = Some (ticker, sd, price, qty)" using Some by (cases od) auto
  show ?thesis
  proof (cases "get_engine ticker reg")
    case None
    then show ?thesis using handle_valid [OF o, of ts reg] o by simp
  next
    case (Some e)
    then obtain result e' where
      "handle_place_order sj ts req reg =
         Some (\<lparr>rs_status = 200, rs_content_type = ''application/json'', rs_body = place_body result\<rparr>, set_engine ticker e' reg)"
      "(result, book_of e') = place_spec (next_order_id e) ts 1 sd price qty (book_of e)"
      using handle_order_total [OF assms o Some] by metis
    then show ?thesis using o Some by (auto simp: set_engine_def)
  qed
qed

definition demo_order_json :: "unit order_json" where
  "demo_order_json = \<lparr>oj_iterate = (\<lambda>s. if s = ''bad'' then None else Some ()),
     oj_string = (\<lambda>_ k. if k = ''ticker'' then Some ''DEMO-1'' else Some ''YES''),
     oj_int64 = (\<lambda>_ k. if k = ''price'' then Some 40 else Some 10)\<rparr>"

definition demo_registry :: market_registry where
  "demo_registry = \<lparr>engines = [''DEMO-1'' \<mapsto> demo_engine]\<rparr>"

lemma demo_registry_ok: "registry_ok demo_registry" "ids_within 1 demo_registry"
  by (simp_all add: registry_ok_def ids_within_def demo_registry_def demo_reach demo_book)

lemma demo_order: "order_of demo_order_json body = (if body = ''bad'' then None else Some (''DEMO-1'', YES, 40, 10))"
  by (simp add: order_of_def demo_order_json_def)

theorem place_order_correct_witness:
  "\<exists>result reg'. handle_place_order demo_order_json 7 \<lparr>rq_method = ''POST'', rq_path = ''/'', rq_headers = Map.empty, rq_body = ''ok''\<rparr> demo_registry =
     Some (\<lparr>rs_status = 200, rs_content_type = ''application/json'', rs_body = place_body result\<rparr>, reg') \<and>
     res_order_id result = 1 \<and> qty_resting result = 10"
proof -
  let ?req = "\<lparr>rq_method = ''POST'', rq_path = ''/'', rq_headers = Map.empty, rq_body = ''ok''\<rparr>"
  have "get_engine ''DEMO-1'' demo_registry = Some demo_engine" by (simp add: get_engine_def demo_registry_def)
  then obtain result e' where
    "handle_place_order demo_order_json 7 ?req demo_registry =
       Some (\<lparr>rs_status = 200, rs_content_type = ''application/json'', rs_body = place_body result\<rparr>,
             demo_registry\<lparr>engines := (engines demo_registry)(''DEMO-1'' \<mapsto> e')\<rparr>)"
    "(result, book_of e') = place_spec 1 7 1 YES 40 10 (\<lambda>w p. [])"
    using place_order_correct [OF demo_registry_ok, of demo_order_json 7 ?req] by (auto simp: demo_order demo_book)
  moreover from this(2) have "result = \<lparr>res_order_id = 1, res_fills = [], qty_resting = 10, accepted = True\<rparr>"
    using empty_place [of 40 10 1 7 1 YES] by simp
  ultimately show ?thesis by auto
qed

end
