(* ===== verification/Reactor.thy ===== *)
theory Reactor
  imports Prelude "HOL-Library.Monad_Syntax"
begin

text \<open>
  The event loop of \<open>sim/reactor.h\<close> and \<open>sim/reactor.cpp\<close>. The kernel's interest set is part of the
  state, \<open>epoll_ctl\<close> treats it as documented and may also fail for reasons of its own (the parameter
  \<open>allows\<close>), and the results of \<open>epoll_wait\<close> are a list of what the successive calls return. The
  callbacks act on the reactor and on a state of their own; \<open>None\<close> is a callback that does not return.
\<close>

type_synonym fd = int

datatype ctl_op = CTL_ADD | CTL_MOD | CTL_DEL

record 'cb reactor =
  running :: bool
  callbacks :: "fd \<Rightarrow> 'cb option"
  pending_removes :: "fd list"
  interest :: "fd \<Rightarrow> u32 option"

definition Reactor_new :: "'cb reactor" where
  "Reactor_new = \<lparr>running = False, callbacks = Map.empty, pending_removes = [], interest = Map.empty\<rparr>"

text \<open>\<open>epoll_ctl\<close>: adding a registered descriptor fails, as do changing and deleting one that is not.\<close>

definition epoll_ctl :: "(ctl_op \<Rightarrow> fd \<Rightarrow> bool) \<Rightarrow> ctl_op \<Rightarrow> fd \<Rightarrow> u32 \<Rightarrow> (fd \<Rightarrow> u32 option) \<Rightarrow> (fd \<Rightarrow> u32 option) option" where
  "epoll_ctl allows op f events i =
    (if \<not> allows op f then None
     else case op of
       CTL_ADD \<Rightarrow> if i f = None then Some (i(f \<mapsto> events)) else None
     | CTL_MOD \<Rightarrow> if i f = None then None else Some (i(f \<mapsto> events))
     | CTL_DEL \<Rightarrow> if i f = None then None else Some (i(f := None)))"

definition add_fd :: "(ctl_op \<Rightarrow> fd \<Rightarrow> bool) \<Rightarrow> fd \<Rightarrow> u32 \<Rightarrow> 'cb \<Rightarrow> 'cb reactor \<Rightarrow> bool \<times> 'cb reactor" where
  "add_fd allows f events cb r =
    (case epoll_ctl allows CTL_ADD f events (interest r) of
       None \<Rightarrow> (False, r)
     | Some i \<Rightarrow> (True, r\<lparr>interest := i, callbacks := (callbacks r)(f \<mapsto> cb)\<rparr>))"

definition mod_fd :: "(ctl_op \<Rightarrow> fd \<Rightarrow> bool) \<Rightarrow> fd \<Rightarrow> u32 \<Rightarrow> 'cb reactor \<Rightarrow> bool \<times> 'cb reactor" where
  "mod_fd allows f events r =
    (case epoll_ctl allows CTL_MOD f events (interest r) of
       None \<Rightarrow> (False, r)
     | Some i \<Rightarrow> (True, r\<lparr>interest := i\<rparr>))"

definition remove_fd :: "(ctl_op \<Rightarrow> fd \<Rightarrow> bool) \<Rightarrow> fd \<Rightarrow> 'cb reactor \<Rightarrow> 'cb reactor" where
  "remove_fd allows f r =
    (let r = (case epoll_ctl allows CTL_DEL f 0 (interest r) of None \<Rightarrow> r | Some i \<Rightarrow> r\<lparr>interest := i\<rparr>)
     in r\<lparr>pending_removes := pending_removes r @ [f]\<rparr>)"

definition stop :: "'cb reactor \<Rightarrow> 'cb reactor" where
  "stop r = r\<lparr>running := False\<rparr>"

datatype wait_result = Wait_eintr | Wait_error | Wait_events "(fd \<times> u32) list"

type_synonym ('cb, 's) invoke = "'cb \<Rightarrow> fd \<Rightarrow> u32 \<Rightarrow> 'cb reactor \<times> 's \<Rightarrow> ('cb reactor \<times> 's) option"

text \<open>The loop over the ready descriptors.\<close>

fun dispatch_events :: "('cb, 's) invoke \<Rightarrow> (fd \<times> u32) list \<Rightarrow> 'cb reactor \<times> 's \<Rightarrow> ('cb reactor \<times> 's) option" where
  "dispatch_events invoke [] w = Some w"
| "dispatch_events invoke ((f, ev) # es) w =
    (case callbacks (fst w) f of
       None \<Rightarrow> dispatch_events invoke es w
     | Some cb \<Rightarrow> do { w \<leftarrow> invoke cb f ev w; dispatch_events invoke es w })"

text \<open>The loop over \<open>pending_removes_\<close> and its \<open>clear\<close>.\<close>

definition flush_removes :: "'cb reactor \<Rightarrow> 'cb reactor" where
  "flush_removes r = r\<lparr>callbacks := foldl (\<lambda>cbs f. cbs(f := None)) (callbacks r) (pending_removes r), pending_removes := []\<rparr>"

text \<open>The outer loop: when \<open>epoll_wait\<close> has no further result it blocks, and what it has done so far
  is the state returned.\<close>

fun run_loop :: "('cb, 's) invoke \<Rightarrow> wait_result list \<Rightarrow> 'cb reactor \<times> 's \<Rightarrow> ('cb reactor \<times> 's) option" where
  "run_loop invoke [] w = Some w"
| "run_loop invoke (wr # ws) w =
    (if \<not> running (fst w) then Some w
     else case wr of
       Wait_eintr \<Rightarrow> run_loop invoke ws w
     | Wait_error \<Rightarrow> Some w
     | Wait_events es \<Rightarrow> do {
         (r, s) \<leftarrow> dispatch_events invoke es w;
         run_loop invoke ws (flush_removes r, s)
       })"

definition reactor_run :: "('cb, 's) invoke \<Rightarrow> wait_result list \<Rightarrow> 'cb reactor \<times> 's \<Rightarrow> ('cb reactor \<times> 's) option" where
  "reactor_run invoke ws = (\<lambda>(r, s). run_loop invoke ws (r\<lparr>running := True\<rparr>, s))"

section \<open>Lemmas\<close>

lemma flush_callbacks: "callbacks (flush_removes r) f = (if f \<in> set (pending_removes r) then None else callbacks r f)"
proof -
  have "foldl (\<lambda>cbs f. cbs(f := None)) cbs fs f = (if f \<in> set fs then None else cbs f)" for fs :: "fd list" and cbs :: "fd \<Rightarrow> 'a option"
    by (induction fs arbitrary: cbs) auto
  then show ?thesis by (simp add: flush_removes_def)
qed

lemma flush_sel [simp]: "pending_removes (flush_removes r) = []" "interest (flush_removes r) = interest r"
  "running (flush_removes r) = running r"
  by (simp_all add: flush_removes_def)

text \<open>
  The registrations agree when the descriptors the kernel watches are those with a callback, apart
  from the ones whose removal is pending.
\<close>

definition registered :: "'cb reactor \<Rightarrow> fd set" where
  "registered r = dom (callbacks r) - set (pending_removes r)"

definition agree :: "'cb reactor \<Rightarrow> bool" where
  "agree r \<longleftrightarrow> dom (interest r) = registered r"

lemma agree_new: "agree Reactor_new"
  by (simp add: agree_def Reactor_new_def registered_def)

lemma agree_add:
  assumes "agree r" "f \<notin> set (pending_removes r)" "add_fd allows f ev cb r = (ok, r')"
  shows "agree r'" "pending_removes r' = pending_removes r" "running r' = running r"
    "registered r' = (if ok then insert f (registered r) else registered r)"
proof -
  have "\<not> ok \<and> r' = r \<or> ok \<and> r' = r\<lparr>interest := (interest r)(f \<mapsto> ev), callbacks := (callbacks r)(f \<mapsto> cb)\<rparr>"
    using assms(3) by (auto simp: add_fd_def epoll_ctl_def split: option.splits if_splits)
  then show "agree r'" "pending_removes r' = pending_removes r" "running r' = running r"
      "registered r' = (if ok then insert f (registered r) else registered r)"
    using assms(1,2) by (elim disjE conjE; simp add: agree_def registered_def insert_Diff_if)+
qed

lemma agree_remove:
  assumes "agree r" "\<And>g. allows CTL_DEL g"
  shows "agree (remove_fd allows f r)" "registered (remove_fd allows f r) = registered r - {f}"
    "pending_removes (remove_fd allows f r) = pending_removes r @ [f]" "running (remove_fd allows f r) = running r"
proof -
  let ?r = "remove_fd allows f r"
  have "dom (interest ?r) = dom (interest r) - {f}"
    using assms(2) by (auto simp: remove_fd_def epoll_ctl_def Let_def split: option.splits)
  moreover show p: "pending_removes ?r = pending_removes r @ [f]" "running ?r = running r"
    by (simp_all add: remove_fd_def Let_def split: option.splits)
  moreover have "callbacks ?r = callbacks r" by (simp add: remove_fd_def Let_def split: option.splits)
  ultimately show "agree ?r" "registered ?r = registered r - {f}"
    using assms(1) unfolding agree_def registered_def by (simp_all add: set_diff_eq) blast+
qed

lemma agree_mod:
  assumes "agree r" "mod_fd allows f ev r = (ok, r')"
  shows "agree r'" "registered r' = registered r" "pending_removes r' = pending_removes r" "running r' = running r"
proof -
  have "r' = r \<or> f \<in> dom (interest r) \<and> r' = r\<lparr>interest := (interest r)(f \<mapsto> ev)\<rparr>"
    using assms(2) by (auto simp: mod_fd_def epoll_ctl_def split: option.splits if_splits)
  then show "agree r'" "registered r' = registered r" "pending_removes r' = pending_removes r" "running r' = running r"
    using assms(1) by (elim disjE conjE; simp add: agree_def registered_def insert_absorb)+
qed

lemma agree_flush:
  assumes "agree r"
  shows "agree (flush_removes r)" "registered (flush_removes r) = registered r"
proof -
  show "registered (flush_removes r) = registered r"
    by (auto simp: registered_def flush_callbacks split: if_splits)
  then show "agree (flush_removes r)" using assms by (simp add: agree_def)
qed

text \<open>What every callback keeps, the loops keep.\<close>

lemma dispatch_inv:
  assumes "\<And>cb f ev w w'. P w \<Longrightarrow> invoke cb f ev w = Some w' \<Longrightarrow> P w'"
  shows "P w \<Longrightarrow> dispatch_events invoke es w = Some w' \<Longrightarrow> P w'"
proof (induction es arbitrary: w)
  case (Cons e es)
  obtain f ev where e: "e = (f, ev)" by fastforce
  show ?case
  proof (cases "callbacks (fst w) f")
    case None
    then show ?thesis using Cons e by simp
  next
    case (Some cb)
    then obtain w1 where w1: "invoke cb f ev w = Some w1" "dispatch_events invoke es w1 = Some w'"
      using Cons.prems(2) e by (auto split: bind_splits)
    show ?thesis by (rule Cons.IH [OF assms [OF Cons.prems(1) w1(1)] w1(2)])
  qed
qed simp

end
