(* ===== verification/Rest_Server.thy ===== *)
theory Rest_Server
  imports Http_Parse Reactor
begin

text \<open>
  The HTTP server of \<open>sim/http/rest_server.h\<close> and \<open>sim/http/rest_server.cpp\<close> on top of the reactor.
  The operating system is a set of scripts: what \<open>accept\<close> returns call by call, and for every
  descriptor what \<open>read\<close> and \<open>write\<close> return. \<open>None\<close> is an uncaught exception or an endless loop.
\<close>

section \<open>The class and its world\<close>

datatype accept_result = Accepted fd | Accept_again | Accept_error

datatype read_result = Data string | Eof | Read_again | Read_error

datatype write_result = Wrote nat | Write_eintr | Write_error

type_synonym 'h handler = "request \<Rightarrow> 'h \<Rightarrow> (response \<times> 'h) option"

text \<open>
  The fields of \<open>RestServer\<close>, the scripts with their positions, the bytes sent and the descriptors
  closed so far, and the state the handlers share. When a script of \<open>read\<close> results is used up there
  is nothing to read (\<open>EAGAIN\<close>); when one of \<open>write\<close> results is, the kernel takes all it is offered.
\<close>

record 'h world =
  port :: nat
  listen_fd :: fd
  routes :: "string \<Rightarrow> 'h handler option"
  connections :: "fd \<Rightarrow> string option"
  accept_script :: "nat \<Rightarrow> accept_result"
  accept_next :: nat
  reads :: "fd \<Rightarrow> read_result list"
  writes :: "fd \<Rightarrow> write_result list"
  sent :: "fd \<Rightarrow> string"
  closed :: "fd list"
  app :: 'h

record os =
  ctl_allows :: "ctl_op \<Rightarrow> fd \<Rightarrow> bool"
  fcntl_ok :: "fd \<Rightarrow> bool"

datatype callback = On_listener | On_connection

definition RestServer_new ::
    "nat \<Rightarrow> (nat \<Rightarrow> accept_result) \<Rightarrow> (fd \<Rightarrow> read_result list) \<Rightarrow> (fd \<Rightarrow> write_result list) \<Rightarrow> 'h \<Rightarrow> 'h world" where
  "RestServer_new prt ac rd wr h =
    \<lparr>port = prt, listen_fd = - 1, routes = Map.empty, connections = Map.empty, accept_script = ac, accept_next = 0,
     reads = rd, writes = wr, sent = (\<lambda>_. []), closed = [], app = h\<rparr>"

definition EPOLLIN_ET :: u32 where "EPOLLIN_ET = 0x80000001"

definition route :: "string \<Rightarrow> string \<Rightarrow> 'h handler \<Rightarrow> 'h world \<Rightarrow> 'h world" where
  "route meth path handler w = w\<lparr>routes := (routes w)(meth @ '' '' @ path \<mapsto> handler)\<rparr>"

definition dispatch :: "request \<Rightarrow> 'h world \<Rightarrow> (response \<times> 'h world) option" where
  "dispatch req w =
    (case routes w (rq_method req @ '' '' @ rq_path req) of
       None \<Rightarrow> Some (\<lparr>rs_status = 404, rs_content_type = ''text/plain'', rs_body = ''Not Found''\<rparr>, w)
     | Some handler \<Rightarrow> do { (resp, h) \<leftarrow> handler req (app w); Some (resp, w\<lparr>app := h\<rparr>) })"

text \<open>The loop of \<open>write_response_\<close>: \<open>n\<close> bytes of the text are sent; the kernel never takes more than
  it is offered.\<close>

fun write_loop :: "string \<Rightarrow> nat \<Rightarrow> write_result list \<Rightarrow> bool \<times> nat \<times> write_result list" where
  "write_loop resp n [] = (True, length resp, [])"
| "write_loop resp n (r # rs) =
    (if n = length resp then (True, n, r # rs)
     else case r of
       Wrote k \<Rightarrow> write_loop resp (n + min k (length resp - n)) rs
     | Write_eintr \<Rightarrow> write_loop resp n rs
     | Write_error \<Rightarrow> (False, n, rs))"

definition write_response :: "fd \<Rightarrow> response \<Rightarrow> 'h world \<Rightarrow> bool \<times> 'h world" where
  "write_response f response w =
    (let resp = serialize_response response;
         (ok, n, rs) = write_loop resp 0 (writes w f)
     in (ok, w\<lparr>writes := (writes w)(f := rs), sent := (sent w)(f := sent w f @ take n resp)\<rparr>))"

definition close_fd :: "fd \<Rightarrow> 'h world \<Rightarrow> 'h world" where
  "close_fd f w = w\<lparr>closed := closed w @ [f]\<rparr>"

definition close_connection :: "os \<Rightarrow> fd \<Rightarrow> callback reactor \<times> 'h world \<Rightarrow> callback reactor \<times> 'h world" where
  "close_connection sys f = (\<lambda>(r, w).
     (remove_fd (ctl_allows sys) f r, (close_fd f w)\<lparr>connections := (connections w)(f := None)\<rparr>))"

definition in_buffer :: "'h world \<Rightarrow> fd \<Rightarrow> string" where
  "in_buffer w f = (case connections w f of None \<Rightarrow> [] | Some b \<Rightarrow> b)"

text \<open>The loop of \<open>on_connection_event_\<close>, over the results of \<open>read\<close>.\<close>

fun connection_loop :: "os \<Rightarrow> fd \<Rightarrow> read_result list \<Rightarrow> callback reactor \<times> 'h world \<Rightarrow> (callback reactor \<times> 'h world) option" where
  "connection_loop sys f [] (r, w) = Some (r, w\<lparr>reads := (reads w)(f := [])\<rparr>)"
| "connection_loop sys f (Read_again # rs) (r, w) = Some (r, w\<lparr>reads := (reads w)(f := rs)\<rparr>)"
| "connection_loop sys f (Eof # rs) (r, w) = Some (close_connection sys f (r, w\<lparr>reads := (reads w)(f := rs)\<rparr>))"
| "connection_loop sys f (Read_error # rs) (r, w) = Some (close_connection sys f (r, w\<lparr>reads := (reads w)(f := rs)\<rparr>))"
| "connection_loop sys f (Data s # rs) (r, w) =
    (let buf = in_buffer w f @ s;
         w = w\<lparr>connections := (connections w)(f \<mapsto> buf)\<rparr>
     in case parse_request buf of
          None \<Rightarrow> None
        | Some Threw \<Rightarrow> None
        | Some Incomplete \<Rightarrow> connection_loop sys f rs (r, w)
        | Some (Parsed request) \<Rightarrow> do {
            (response, w) \<leftarrow> dispatch request w;
            let w = snd (write_response f response w);
            let w = w\<lparr>connections := (connections w)(f \<mapsto> [])\<rparr>;
            Some (close_connection sys f (r, w\<lparr>reads := (reads w)(f := rs)\<rparr>))
          })"

definition on_connection_event :: "os \<Rightarrow> fd \<Rightarrow> u32 \<Rightarrow> callback reactor \<times> 'h world \<Rightarrow> (callback reactor \<times> 'h world) option" where
  "on_connection_event sys f events rw = connection_loop sys f (reads (snd rw) f) rw"

text \<open>\<open>on_listener_event_\<close>: the loop ends only when \<open>accept\<close> reports \<open>EAGAIN\<close>.\<close>

definition admit :: "os \<Rightarrow> fd \<Rightarrow> callback reactor \<times> 'h world \<Rightarrow> callback reactor \<times> 'h world" where
  "admit sys client = (\<lambda>(r, w).
     if \<not> fcntl_ok sys client then (r, close_fd client w)
     else case add_fd (ctl_allows sys) client EPOLLIN_ET On_connection r of
       (False, r) \<Rightarrow> (r, close_fd client w)
     | (True, r) \<Rightarrow> (r, w))"

partial_function (option) listener_loop ::
    "os \<Rightarrow> callback reactor \<times> 'h world \<Rightarrow> (callback reactor \<times> 'h world) option" where
  "listener_loop sys rw =
    (let w = (snd rw)\<lparr>accept_next := Suc (accept_next (snd rw))\<rparr>
     in case accept_script w (accept_next (snd rw)) of
          Accept_again \<Rightarrow> Some (fst rw, w)
        | Accept_error \<Rightarrow> listener_loop sys (fst rw, w)
        | Accepted client \<Rightarrow> listener_loop sys (admit sys client (fst rw, w)))"

definition on_listener_event :: "os \<Rightarrow> fd \<Rightarrow> u32 \<Rightarrow> callback reactor \<times> 'h world \<Rightarrow> (callback reactor \<times> 'h world) option" where
  "on_listener_event sys f events rw = listener_loop sys rw"

text \<open>\<open>bind_and_listen_\<close>: the results of the five system calls decide; every failure after \<open>socket\<close>
  closes the descriptor.\<close>

record listen_setup =
  socket_result :: fd
  setup_fcntl_ok :: bool
  setsockopt_ok :: bool
  bind_ok :: bool
  listen_ok :: bool

definition bind_and_listen :: "listen_setup \<Rightarrow> 'h world \<Rightarrow> bool \<times> 'h world" where
  "bind_and_listen su w =
    (let s = socket_result su;
         w = w\<lparr>listen_fd := s\<rparr>
     in if s < 0 then (False, w)
        else if \<not> setup_fcntl_ok su then (False, close_fd s w)
        else if \<not> setsockopt_ok su then (False, close_fd s w)
        else if \<not> bind_ok su then (False, close_fd s w)
        else if \<not> listen_ok su then (False, close_fd s w)
        else (True, w))"

definition start :: "os \<Rightarrow> listen_setup \<Rightarrow> callback reactor \<times> 'h world \<Rightarrow> bool \<times> callback reactor \<times> 'h world" where
  "start sys su = (\<lambda>(r, w).
     case bind_and_listen su w of
       (False, w) \<Rightarrow> (False, r, w)
     | (True, w) \<Rightarrow>
         (case add_fd (ctl_allows sys) (listen_fd w) EPOLLIN_ET On_listener r of (ok, r) \<Rightarrow> (ok, r, w)))"

text \<open>\<open>~RestServer\<close>: it closes the listening socket if there is one, and the connections in the order
  in which the table is traversed.\<close>

definition RestServer_destroy :: "((fd \<Rightarrow> string option) \<Rightarrow> fd list) \<Rightarrow> 'h world \<Rightarrow> 'h world" where
  "RestServer_destroy traverse w =
    (let w1 = (if listen_fd w \<noteq> - 1 then close_fd (listen_fd w) w else w)
     in foldl (\<lambda>w f. close_fd f w) w1 (traverse (connections w)))"

definition invoke_server :: "os \<Rightarrow> (callback, 'h world) invoke" where
  "invoke_server sys cb f ev rw =
    (case cb of On_listener \<Rightarrow> on_listener_event sys f ev rw | On_connection \<Rightarrow> on_connection_event sys f ev rw)"

section \<open>Serving a request\<close>

text \<open>What the routes answer to a request.\<close>

definition answer :: "(string \<Rightarrow> 'h handler option) \<Rightarrow> request \<Rightarrow> 'h \<Rightarrow> (response \<times> 'h) option" where
  "answer rts req h =
    (case rts (rq_method req @ '' '' @ rq_path req) of
       None \<Rightarrow> Some (\<lparr>rs_status = 404, rs_content_type = ''text/plain'', rs_body = ''Not Found''\<rparr>, h)
     | Some handler \<Rightarrow> handler req h)"

lemma dispatch_answer:
  "dispatch req w = map_option (\<lambda>(resp, h). (resp, w\<lparr>app := h\<rparr>)) (answer (routes w) req (app w))"
  by (simp add: dispatch_def answer_def split: option.split bind_split)

lemma write_loop_all:
  "Write_error \<notin> set rs \<Longrightarrow> n \<le> length resp \<Longrightarrow> \<exists>rs'. write_loop resp n rs = (True, length resp, rs')"
proof (induction rs arbitrary: n)
  case (Cons r rs)
  show ?case
  proof (cases "n = length resp")
    case False
    then show ?thesis using Cons by (cases r) auto
  qed simp
qed simp

definition set_buffer :: "fd \<Rightarrow> string \<Rightarrow> 'h world \<Rightarrow> 'h world" where
  "set_buffer f b w = w\<lparr>connections := (connections w)(f \<mapsto> b)\<rparr>"

lemma set_buffer_sel [simp]:
  "in_buffer (set_buffer f b w) f = b" "set_buffer f b' (set_buffer f b w) = set_buffer f b' w"
  "routes (set_buffer f b w) = routes w" "app (set_buffer f b w) = app w" "writes (set_buffer f b w) = writes w"
  "sent (set_buffer f b w) = sent w" "closed (set_buffer f b w) = closed w"
  "(connections (set_buffer f b w))(f := None) = (connections w)(f := None)"
  by (simp_all add: set_buffer_def in_buffer_def)

lemma connection_waits:
  assumes T: "request_ok m p hs" "small (request_text m p hs body)" "announces hs body"
  shows "strict_prefix (in_buffer w f @ concat cs) (request_text m p hs body) \<Longrightarrow> cs \<noteq> [] \<Longrightarrow>
    connection_loop sys f (map Data cs @ rest) (r, w) = connection_loop sys f rest (r, set_buffer f (in_buffer w f @ concat cs) w)"
proof (induction cs arbitrary: w)
  case (Cons c cs)
  let ?w = "set_buffer f (in_buffer w f @ c) w"
  have "strict_prefix (in_buffer w f @ c) (request_text m p hs body)"
    using Cons.prems(1) by (auto simp: strict_prefix_def prefix_def)
  then have "parse_request (in_buffer w f @ c) = Some Incomplete" by (rule parse_request_partial [OF T])
  then have step: "connection_loop sys f (map Data (c # cs) @ rest) (r, w) = connection_loop sys f (map Data cs @ rest) (r, ?w)"
    by (simp add: Let_def set_buffer_def)
  show ?case
  proof (cases "cs = []")
    case True
    show ?thesis unfolding step unfolding True by simp
  next
    case False
    then show ?thesis unfolding step using Cons.IH [of ?w] Cons.prems(1) by simp
  qed
qed simp

text \<open>The world after a request has been answered.\<close>

definition served :: "os \<Rightarrow> fd \<Rightarrow> response \<Rightarrow> 'h \<Rightarrow> callback reactor \<times> 'h world \<Rightarrow> callback reactor \<times> 'h world \<Rightarrow> bool" where
  "served sys f resp h rw rw' \<longleftrightarrow>
     app (snd rw') = h \<and> sent (snd rw') = (sent (snd rw))(f := sent (snd rw) f @ serialize_response resp) \<and>
     connections (snd rw') = (connections (snd rw))(f := None) \<and> closed (snd rw') = closed (snd rw) @ [f] \<and>
     fst rw' = remove_fd (ctl_allows sys) f (fst rw)"

lemma connection_completes:
  assumes T: "request_ok m p hs" "small (request_text m p hs body)" "announces hs body"
    and buf: "in_buffer w f @ c = request_text m p hs body"
    and a: "answer (routes w) \<lparr>rq_method = m, rq_path = p, rq_headers = header_map hs Map.empty, rq_body = body\<rparr> (app w) = Some (resp, h)"
    and ok: "Write_error \<notin> set (writes w f)"
  shows "\<exists>rw'. connection_loop sys f (Data c # rest) (r, w) = Some rw' \<and> served sys f resp h (r, w) rw'"
proof -
  have p: "parse_request (in_buffer w f @ c) =
      Some (Parsed \<lparr>rq_method = m, rq_path = p, rq_headers = header_map hs Map.empty, rq_body = body\<rparr>)"
    unfolding buf by (rule parse_request_whole [OF T])
  obtain rs' where "write_loop (serialize_response resp) 0 (writes w f) = (True, length (serialize_response resp), rs')"
    using write_loop_all [OF ok, of 0] by auto
  then show ?thesis
    using a by (simp add: p Let_def dispatch_answer write_response_def close_connection_def close_fd_def served_def fun_eq_iff)
qed

lemma connection_serves:
  assumes T: "request_ok m p hs" "small (request_text m p hs body)" "announces hs body"
    and rd: "reads w f = map Data cs @ rest" "cs \<noteq> []" "[] \<notin> set cs"
    and a: "answer (routes w) \<lparr>rq_method = m, rq_path = p, rq_headers = header_map hs Map.empty, rq_body = body\<rparr> (app w) = Some (resp, h)"
    and ok: "Write_error \<notin> set (writes w f)"
    and full: "in_buffer w f @ concat cs = request_text m p hs body"
  shows "\<exists>rw'. on_connection_event sys f ev (r, w) = Some rw' \<and> served sys f resp h (r, w) rw'"
proof -
  obtain ds c where cs: "cs = ds @ [c]" "c \<noteq> []" using rd(2,3) by (metis append_butlast_last_id last_in_set)
  define w1 where "w1 = (if ds = [] then w else set_buffer f (in_buffer w f @ concat ds) w)"
  have w1: "in_buffer w1 f = in_buffer w f @ concat ds" "routes w1 = routes w" "app w1 = app w" "writes w1 = writes w"
      "sent w1 = sent w" "closed w1 = closed w" "(connections w1)(f := None) = (connections w)(f := None)"
    by (simp_all add: w1_def)
  have b: "in_buffer w1 f @ c = request_text m p hs body" using full cs w1(1) by simp
  have "request_text m p hs body = (in_buffer w f @ concat ds) @ c" using full cs(1) by simp
  then have "strict_prefix (in_buffer w f @ concat ds) (request_text m p hs body)" using cs(2) by (simp add: strict_prefix_def)
  then have e: "on_connection_event sys f ev (r, w) = connection_loop sys f (Data c # rest) (r, w1)"
    using connection_waits [OF T, of w f ds sys "Data c # rest" r] rd(1) cs
    by (cases "ds = []") (simp_all add: on_connection_event_def w1_def del: connection_loop.simps)
  obtain rw' where rw: "connection_loop sys f (Data c # rest) (r, w1) = Some rw'" "served sys f resp h (r, w1) rw'"
    using connection_completes [OF T b, of resp h sys rest r] a ok unfolding w1 by blast
  have "served sys f resp h (r, w) rw'" using rw(2) by (simp add: served_def w1)
  then show ?thesis unfolding e using rw(1) by blast
qed

text \<open>(C10) However the bytes of a request arrive, the server answers it once. If what a connection has
  received so far and the chunks that are ready make up the text of a request, in pieces of any size,
  one event on the connection runs the handler of its route exactly once, on the request that was
  meant, sends the whole text of the response, also through short writes and interruptions, and
  closes and forgets the connection. While the text is still incomplete an event only keeps the bytes.\<close>

theorem server_serves_request:
  assumes "request_ok m p hs" "small (request_text m p hs body)" "announces hs body"
    "reads w f = map Data cs @ rest" "cs \<noteq> []" "[] \<notin> set cs"
    "answer (routes w) \<lparr>rq_method = m, rq_path = p, rq_headers = header_map hs Map.empty, rq_body = body\<rparr> (app w) = Some (resp, h)"
    "Write_error \<notin> set (writes w f)"
  shows "(in_buffer w f @ concat cs = request_text m p hs body \<longrightarrow>
      (\<exists>rw'. on_connection_event sys f ev (r, w) = Some rw' \<and> served sys f resp h (r, w) rw')) \<and>
    (strict_prefix (in_buffer w f @ concat cs) (request_text m p hs body) \<and> rest = [] \<longrightarrow>
      on_connection_event sys f ev (r, w) =
        Some (r, (set_buffer f (in_buffer w f @ concat cs) w)\<lparr>reads := (reads w)(f := [])\<rparr>))"
proof (intro conjI impI)
  assume "in_buffer w f @ concat cs = request_text m p hs body"
  then show "\<exists>rw'. on_connection_event sys f ev (r, w) = Some rw' \<and> served sys f resp h (r, w) rw'"
    by (rule connection_serves [OF assms])
next
  assume "strict_prefix (in_buffer w f @ concat cs) (request_text m p hs body) \<and> rest = []"
  then show "on_connection_event sys f ev (r, w) =
      Some (r, (set_buffer f (in_buffer w f @ concat cs) w)\<lparr>reads := (reads w)(f := [])\<rparr>)"
    using connection_waits [OF assms(1-3), of w f cs sys "[]" r] assms(4,5) by (simp add: on_connection_event_def set_buffer_def)
qed

definition demo_world :: "unit world" where
  "demo_world = \<lparr>port = 8443, listen_fd = 3, routes = Map.empty, connections = Map.empty,
     accept_script = (\<lambda>i. if i = 0 then Accepted 7 else Accept_again), accept_next = 0,
     reads = (\<lambda>_. []), writes = (\<lambda>_. []), sent = (\<lambda>_. []), closed = [], app = ()\<rparr>"

definition demo_os :: os where
  "demo_os = \<lparr>ctl_allows = (\<lambda>_ _. True), fcntl_ok = (\<lambda>_. True)\<rparr>"

definition demo_reactor :: "callback reactor" where
  "demo_reactor = \<lparr>running = True, callbacks = [3 \<mapsto> On_listener, 7 \<mapsto> On_connection], pending_removes = [],
     interest = [3 \<mapsto> EPOLLIN_ET, 7 \<mapsto> EPOLLIN_ET]\<rparr>"

theorem server_serves_request_witness:
  "\<exists>rw'. on_connection_event demo_os 7 1
       (demo_reactor, demo_world\<lparr>reads := (\<lambda>_. [])(7 := map Data [''GET /s HT'', ''TP/1.1'' @ crlf @ crlf])\<rparr>) = Some rw' \<and>
     sent (snd rw') 7 = serialize_response \<lparr>rs_status = 404, rs_content_type = ''text/plain'', rs_body = ''Not Found''\<rparr> \<and>
     closed (snd rw') = [7]"
proof -
  let ?w = "demo_world\<lparr>reads := (\<lambda>_. [])(7 := map Data [''GET /s HT'', ''TP/1.1'' @ crlf @ crlf])\<rparr>"
  let ?resp = "\<lparr>rs_status = 404, rs_content_type = ''text/plain'', rs_body = ''Not Found''\<rparr>"
  have h: "request_ok ''GET'' ''/s'' []" "small (request_text ''GET'' ''/s'' [] [])" "announces [] []"
    by (simp_all add: request_ok_def small_def request_text_def crlf_def announces_def)
  have a: "answer (routes ?w) \<lparr>rq_method = ''GET'', rq_path = ''/s'', rq_headers = header_map [] Map.empty, rq_body = []\<rparr> (app ?w) = Some (?resp, ())"
    by (simp add: answer_def demo_world_def)
  have f: "in_buffer ?w 7 @ concat [''GET /s HT'', ''TP/1.1'' @ crlf @ crlf] = request_text ''GET'' ''/s'' [] []"
    by (simp add: in_buffer_def demo_world_def request_text_def)
  have r: "reads ?w 7 = map Data [''GET /s HT'', ''TP/1.1'' @ crlf @ crlf] @ []" by simp
  have e: "[] \<notin> set [''GET /s HT'', ''TP/1.1'' @ crlf @ crlf]" by simp
  have we: "Write_error \<notin> set (writes ?w 7)" by (simp add: demo_world_def)
  obtain rw' where "on_connection_event demo_os 7 1 (demo_reactor, ?w) = Some rw'" "served demo_os 7 ?resp () (demo_reactor, ?w) rw'"
    using server_serves_request [OF h r _ e a we] f by blast
  then show ?thesis by (auto simp: served_def demo_world_def)
qed

section \<open>Accepting connections\<close>

lemma admit_sel:
  "accept_script (snd (admit sys c rw)) = accept_script (snd rw)" "accept_next (snd (admit sys c rw)) = accept_next (snd rw)"
  by (cases rw; simp add: admit_def close_fd_def split: prod.split bool.split)+

lemma listener_returns_only:
  "listener_loop sys rw = Some rw' \<Longrightarrow> \<exists>i. accept_next (snd rw) \<le> i \<and> accept_script (snd rw) i = Accept_again"
proof (erule listener_loop.raw_induct [where P = "\<lambda>sys rw rw'. \<exists>i. accept_next (snd rw) \<le> i \<and> accept_script (snd rw) i = Accept_again", rotated])
  fix loop :: "os \<Rightarrow> callback reactor \<times> 'a world \<Rightarrow> (callback reactor \<times> 'a world) option" and sys rw rw'
  assume 1: "\<And>sys rw rw'. loop sys rw = Some rw' \<Longrightarrow> \<exists>i. accept_next (snd rw) \<le> i \<and> accept_script (snd rw) i = Accept_again"
    "(let w = (snd rw)\<lparr>accept_next := Suc (accept_next (snd rw))\<rparr>
      in case accept_script w (accept_next (snd rw)) of
           Accept_again \<Rightarrow> Some (fst rw, w)
         | Accept_error \<Rightarrow> loop sys (fst rw, w)
         | Accepted client \<Rightarrow> loop sys (admit sys client (fst rw, w))) = Some rw'"
  let ?w = "(snd rw)\<lparr>accept_next := Suc (accept_next (snd rw))\<rparr>"
  have later: "\<exists>i. accept_next (snd rw) \<le> i \<and> accept_script (snd rw) i = Accept_again"
    if "loop sys x = Some rw'" "accept_script (snd x) = accept_script (snd rw)" "accept_next (snd x) = Suc (accept_next (snd rw))" for x
    using 1(1) [OF that(1)] that(2,3) Suc_leD by metis
  show "\<exists>i. accept_next (snd rw) \<le> i \<and> accept_script (snd rw) i = Accept_again"
  proof (cases "accept_script (snd rw) (accept_next (snd rw))")
    case (Accepted c)
    then have "loop sys (admit sys c (fst rw, ?w)) = Some rw'" using 1(2) by (simp add: Let_def)
    then show ?thesis by (rule later) (simp_all add: admit_sel)
  next
    case Accept_again
    then show ?thesis by blast
  next
    case Accept_error
    then have "loop sys (fst rw, ?w) = Some rw'" using 1(2) by (simp add: Let_def)
    then show ?thesis by (rule later) simp_all
  qed
qed

lemma listener_returns:
  "accept_script (snd rw) (accept_next (snd rw) + n) = Accept_again \<Longrightarrow> \<exists>rw'. listener_loop sys rw = Some rw'"
proof (induction n arbitrary: rw)
  case 0
  then show ?case by (subst listener_loop.simps) (simp add: Let_def)
next
  case (Suc n)
  let ?w = "(snd rw)\<lparr>accept_next := Suc (accept_next (snd rw))\<rparr>"
  have e: "\<exists>rw'. listener_loop sys (fst rw, ?w) = Some rw'" using Suc.IH [of "(fst rw, ?w)"] Suc.prems by simp
  have a: "\<exists>rw'. listener_loop sys (admit sys c (fst rw, ?w)) = Some rw'" for c
    using Suc.IH [of "admit sys c (fst rw, ?w)"] Suc.prems by (simp add: admit_sel)
  show ?case
    by (subst listener_loop.simps, cases "accept_script (snd rw) (accept_next (snd rw))") (use e a in \<open>simp_all add: Let_def\<close>)
qed

text \<open>(C34) The accept loop returns to the event loop exactly if \<open>accept\<close> reports \<open>EAGAIN\<close> at some point. As
  every other error is retried at once, an error that persists, such as running out of descriptors,
  keeps the single-threaded server in this loop for ever.\<close>

theorem listener_returns_iff:
  "(\<exists>rw'. on_listener_event sys f ev (r, w) = Some rw') \<longleftrightarrow> (\<exists>i. accept_next w \<le> i \<and> accept_script w i = Accept_again)"
proof
  assume "\<exists>rw'. on_listener_event sys f ev (r, w) = Some rw'"
  then show "\<exists>i. accept_next w \<le> i \<and> accept_script w i = Accept_again"
    using listener_returns_only [of sys "(r, w)"] by (auto simp: on_listener_event_def)
next
  assume "\<exists>i. accept_next w \<le> i \<and> accept_script w i = Accept_again"
  then obtain n where "accept_script w (accept_next w + n) = Accept_again" by (metis le_Suc_ex)
  then show "\<exists>rw'. on_listener_event sys f ev (r, w) = Some rw'"
    using listener_returns [of "(r, w)" n sys] by (simp add: on_listener_event_def)
qed

section \<open>The tables of the server and the reactor\<close>

text \<open>Registered descriptors are those the kernel watches, and only they have a connection.\<close>

definition tables_ok :: "callback reactor \<times> 'h world \<Rightarrow> bool" where
  "tables_ok = (\<lambda>(r, w). agree r \<and> dom (connections w) \<subseteq> registered r)"

lemma tables_close:
  assumes "tables_ok (r, w)" "\<And>g. ctl_allows sys CTL_DEL g"
  shows "tables_ok (close_connection sys f (r, w))"
  using assms agree_remove [of r "ctl_allows sys" f]
  by (auto simp: tables_ok_def close_connection_def close_fd_def)

lemma tables_cong:
  "connections w' = connections w \<Longrightarrow> tables_ok (r, w') \<longleftrightarrow> tables_ok (r, w)"
  by (simp add: tables_ok_def)

lemma tables_buffer: "tables_ok (r, w) \<Longrightarrow> f \<in> registered r \<Longrightarrow> tables_ok (r, set_buffer f b w)"
  by (simp add: tables_ok_def set_buffer_def)

lemma tables_connection:
  assumes del: "\<And>g. ctl_allows sys CTL_DEL g"
  shows "connection_loop sys f rs (r, w) = Some rw' \<Longrightarrow> tables_ok (r, w) \<Longrightarrow> f \<in> registered r \<Longrightarrow> tables_ok rw'"
proof (induction rs arbitrary: w)
  case Nil
  then show ?case using tables_cong [of "w\<lparr>reads := (reads w)(f := [])\<rparr>" w r] by auto
next
  case (Cons x rs)
  have keep: "tables_ok (close_connection sys f (r, w'))" if "tables_ok (r, w')" for w' using tables_close [OF that del] .
  have rd: "tables_ok (r, w'\<lparr>reads := g\<rparr>) \<longleftrightarrow> tables_ok (r, w')" for w' :: "'a world" and g by (simp add: tables_ok_def)
  show ?case
  proof (cases x)
    case (Data s)
    let ?b = "in_buffer w f @ s"
    have T: "tables_ok (r, set_buffer f ?b w)" by (rule tables_buffer [OF Cons.prems(2,3)])
    show ?thesis
    proof (cases "parse_request ?b")
      case None
      then show ?thesis using Cons.prems(1) Data by (simp add: Let_def)
    next
      case (Some res)
      show ?thesis
      proof (cases res)
        case Threw
        then show ?thesis using Cons.prems(1) Data Some by (simp add: Let_def)
      next
        case Incomplete
        then have "connection_loop sys f rs (r, set_buffer f ?b w) = Some rw'"
          using Cons.prems(1) Data Some by (simp add: Let_def set_buffer_def)
        then show ?thesis by (rule Cons.IH [OF _ T Cons.prems(3)])
      next
        case (Parsed req)
        then obtain resp w1 where d: "dispatch req (set_buffer f ?b w) = Some (resp, w1)"
            "rw' = close_connection sys f (r, (set_buffer f [] (snd (write_response f resp w1)))\<lparr>reads := (reads (snd (write_response f resp w1)))(f := rs)\<rparr>)"
          using Cons.prems(1) Data Some by (auto simp: Let_def set_buffer_def split: bind_splits)
        have "connections w1 = connections (set_buffer f ?b w)" using d(1) by (auto simp: dispatch_answer)
        then have "connections (snd (write_response f resp w1)) = connections (set_buffer f ?b w)"
          by (simp add: write_response_def Let_def split: prod.split)
        from iffD2 [OF tables_cong [OF this] T] have "tables_ok (r, set_buffer f [] (snd (write_response f resp w1)))"
          by (rule tables_buffer [OF _ Cons.prems(3)])
        then show ?thesis unfolding d(2) by (intro keep) (simp only: rd)
      qed
    qed
  qed (use Cons.prems keep rd in auto)
qed

definition accepts_fresh :: "callback reactor \<times> 'h world \<Rightarrow> bool" where
  "accepts_fresh = (\<lambda>(r, w). \<forall>i c. accept_script w i = Accepted c \<longrightarrow> c \<notin> set (pending_removes r))"

lemma tables_admit:
  assumes "tables_ok rw" "c \<notin> set (pending_removes (fst rw))"
  shows "tables_ok (admit sys c rw)" "pending_removes (fst (admit sys c rw)) = pending_removes (fst rw)"
proof -
  obtain r w where rw: "rw = (r, w)" by fastforce
  obtain ok r' where a: "add_fd (ctl_allows sys) c EPOLLIN_ET On_connection r = (ok, r')" by fastforce
  have "agree r" "c \<notin> set (pending_removes r)" using assms rw by (simp_all add: tables_ok_def)
  note A = agree_add [OF this a]
  show "tables_ok (admit sys c rw)" "pending_removes (fst (admit sys c rw)) = pending_removes (fst rw)"
    using assms A a rw by (cases ok; auto simp: tables_ok_def admit_def close_fd_def)+
qed

lemma tables_listener:
  "listener_loop sys rw = Some rw' \<Longrightarrow> tables_ok rw \<and> accepts_fresh rw \<longrightarrow> tables_ok rw'"
proof (erule listener_loop.raw_induct [where P = "\<lambda>sys rw rw'. tables_ok rw \<and> accepts_fresh rw \<longrightarrow> tables_ok rw'", rotated], intro impI)
  fix loop :: "os \<Rightarrow> callback reactor \<times> 'a world \<Rightarrow> (callback reactor \<times> 'a world) option"
    and sys and rw rw' :: "callback reactor \<times> 'a world"
  let ?w = "(snd rw)\<lparr>accept_next := Suc (accept_next (snd rw))\<rparr>"
  assume IH: "\<And>sys rw rw'. loop sys rw = Some rw' \<Longrightarrow> tables_ok rw \<and> accepts_fresh rw \<longrightarrow> tables_ok rw'"
    and eq: "(let w = ?w
      in case accept_script w (accept_next (snd rw)) of
           Accept_again \<Rightarrow> Some (fst rw, w)
         | Accept_error \<Rightarrow> loop sys (fst rw, w)
         | Accepted client \<Rightarrow> loop sys (admit sys client (fst rw, w))) = Some rw'"
    and T: "tables_ok rw \<and> accepts_fresh rw"
  have T1: "tables_ok (fst rw, ?w)" "accepts_fresh (fst rw, ?w)" using T by (auto simp: tables_ok_def accepts_fresh_def split: prod.splits)
  show "tables_ok rw'"
  proof (cases "accept_script (snd rw) (accept_next (snd rw))")
    case (Accepted c)
    then have c: "c \<notin> set (pending_removes (fst (fst rw, ?w)))" using T by (auto simp: accepts_fresh_def split: prod.splits)
    have "accepts_fresh (admit sys c (fst rw, ?w))"
      using T1(2) tables_admit(2) [OF T1(1) c, of sys] admit_sel(1) [of sys c "(fst rw, ?w)"]
      by (auto simp: accepts_fresh_def split: prod.splits)
    then show ?thesis using IH [of sys "admit sys c (fst rw, ?w)" rw'] tables_admit(1) [OF T1(1) c, of sys] eq Accepted by (simp add: Let_def)
  next
    case Accept_again
    then show ?thesis using eq T1 by (simp add: Let_def)
  next
    case Accept_error
    then show ?thesis using IH [of sys "(fst rw, ?w)" rw'] T1 eq by (simp add: Let_def)
  qed
qed

text \<open>(C20) The tables stay in step: if the descriptors the kernel watches are exactly those with a callback
  that is not about to be removed, and only they have a connection buffer, then so it is after every
  event the server handles and after the removals at the end of the batch, provided that no accepted
  descriptor is one whose removal is still pending.\<close>

theorem server_keeps_tables:
  assumes "tables_ok (r, w)" "\<And>g. ctl_allows sys CTL_DEL g" "cb = On_connection \<Longrightarrow> f \<in> registered r"
    "cb = On_listener \<Longrightarrow> accepts_fresh (r, w)" "invoke_server sys cb f ev (r, w) = Some (r', w')"
  shows "tables_ok (r', w') \<and> tables_ok (flush_removes r', w') \<and> pending_removes (flush_removes r') = []"
proof -
  have T: "tables_ok (r', w')"
  proof (cases cb)
    case On_listener
    then show ?thesis using tables_listener [of sys "(r, w)" "(r', w')"] assms by (simp add: invoke_server_def on_listener_event_def)
  next
    case On_connection
    then show ?thesis using tables_connection [OF assms(2), of f "reads w f" r w "(r', w')"] assms
      by (simp add: invoke_server_def on_connection_event_def)
  qed
  then show ?thesis using agree_flush [of r'] by (simp add: tables_ok_def)
qed

theorem server_keeps_tables_witness:
  "\<exists>r' w'. invoke_server demo_os On_connection 7 1 (demo_reactor, demo_world\<lparr>reads := (\<lambda>_. [])(7 := [Eof])\<rparr>) = Some (r', w') \<and>
     tables_ok (flush_removes r', w') \<and> registered r' = {3}"
proof -
  let ?w = "demo_world\<lparr>reads := (\<lambda>_. [])(7 := [Eof])\<rparr>"
  have reg: "registered demo_reactor = {3, 7}" by (auto simp: registered_def demo_reactor_def)
  have ag: "agree demo_reactor" unfolding agree_def reg by (auto simp: demo_reactor_def)
  then have t: "tables_ok (demo_reactor, ?w)" by (simp add: tables_ok_def demo_world_def)
  have del: "ctl_allows demo_os CTL_DEL g" for g by (simp add: demo_os_def)
  obtain r' w' where e: "invoke_server demo_os On_connection 7 1 (demo_reactor, ?w) = Some (r', w')" "r' = remove_fd (ctl_allows demo_os) 7 demo_reactor"
    by (simp add: invoke_server_def on_connection_event_def close_connection_def)
  have "registered r' = {3}" using agree_remove(2) [of demo_reactor "ctl_allows demo_os" 7] ag del reg e(2) by auto
  moreover have "tables_ok (flush_removes r', w')"
    using server_keeps_tables [OF t del _ _ e(1)] reg by simp
  ultimately show ?thesis using e(1) by blast
qed

text \<open>A descriptor without a callback is ignored, however often it is reported.\<close>

lemma deaf_events:
  "callbacks r f = None \<Longrightarrow> pending_removes r = [] \<Longrightarrow> running r \<Longrightarrow> run_loop invoke (map (\<lambda>ev. Wait_events [(f, ev)]) evs) (r, s) = Some (r, s)"
proof (induction evs)
  case (Cons ev evs)
  have "flush_removes r = r" using Cons.prems(2) by (cases r) (simp add: flush_removes_def)
  then show ?case using Cons by simp
qed simp

text \<open>The listener event that accepts the number of a connection that has just been closed.\<close>

lemma listener_reuses:
  assumes "accept_script w (accept_next w) = Accepted f" "accept_script w (Suc (accept_next w)) = Accept_again"
    "fcntl_ok sys f" "ctl_allows sys CTL_ADD f" "ctl_allows sys CTL_DEL f"
  shows "\<exists>r' w'. on_listener_event sys lfd ev (close_connection sys f (r, w)) = Some (r', w') \<and> interest r' f = Some EPOLLIN_ET \<and>
    f \<in> set (pending_removes r') \<and> running r' = running r \<and> reads w' f = reads w f \<and> sent w' f = sent w f \<and> connections w' f = None"
proof -
  let ?r = "remove_fd (ctl_allows sys) f r"
  have i: "interest ?r f = None" "f \<in> set (pending_removes ?r)" "running ?r = running r"
    using assms(5) by (auto simp: remove_fd_def epoll_ctl_def Let_def split: option.split)
  then have a: "add_fd (ctl_allows sys) f EPOLLIN_ET On_connection ?r =
      (True, ?r\<lparr>interest := (interest ?r)(f \<mapsto> EPOLLIN_ET), callbacks := (callbacks ?r)(f \<mapsto> On_connection)\<rparr>)"
    using assms(4) by (simp add: add_fd_def epoll_ctl_def)
  show ?thesis
    unfolding on_listener_event_def
    by (subst listener_loop.simps, subst listener_loop.simps)
      (use assms(1-3) a i in \<open>simp add: close_connection_def close_fd_def admit_def Let_def\<close>)
qed

text \<open>(C35) The proviso matters. Whatever the state of the server: if within one batch an event ends a
  connection (by the end of the stream, an error or a served request), and the listener then accepts a
  client to which the kernel gives the same number again, the removal that is still pending erases the
  callback of the new connection. The kernel watches it, but however often it reports the descriptor,
  the server reads nothing from it and sends nothing to it.\<close>

theorem reused_descriptor_goes_deaf:
  assumes "running r" "callbacks r f = Some On_connection" "callbacks r lfd = Some On_listener"
    "on_connection_event sys f ev (r, w) = Some (close_connection sys f (r, w1))"
    "accept_script w1 (accept_next w1) = Accepted f" "accept_script w1 (Suc (accept_next w1)) = Accept_again"
    "fcntl_ok sys f" "ctl_allows sys CTL_ADD f" "ctl_allows sys CTL_DEL f"
  shows "\<exists>r' w'. reactor_run (invoke_server sys) (Wait_events [(f, ev), (lfd, ev2)] # map (\<lambda>ev. Wait_events [(f, ev)]) evs) (r, w) = Some (r', w') \<and>
    interest r' f = Some EPOLLIN_ET \<and> callbacks r' f = None \<and> connections w' f = None \<and> reads w' f = reads w1 f \<and> sent w' f = sent w1 f"
proof -
  obtain r2 w2 where l: "on_listener_event sys lfd ev2 (close_connection sys f (r, w1)) = Some (r2, w2)" "interest r2 f = Some EPOLLIN_ET"
      "f \<in> set (pending_removes r2)" "running r2 = running r" "reads w2 f = reads w1 f" "sent w2 f = sent w1 f" "connections w2 f = None"
    using listener_reuses [OF assms(5-9), of lfd ev2 r] by blast
  let ?r' = "flush_removes r2"
  have c: "callbacks ?r' f = None" "pending_removes ?r' = []" "running ?r'" "interest ?r' f = Some EPOLLIN_ET"
    using l(2-4) assms(1) by (simp_all add: flush_callbacks)
  have "callbacks (fst (close_connection sys f (r, w1))) lfd = Some On_listener"
    using assms(3) by (simp add: close_connection_def remove_fd_def Let_def split: option.split)
  then have "dispatch_events (invoke_server sys) [(f, ev), (lfd, ev2)] (r, w) = Some (r2, w2)"
    using assms(2,4) l(1) by (simp add: invoke_server_def)
  moreover have run: "r\<lparr>running := True\<rparr> = r" using assms(1) by (cases r) simp
  ultimately have "reactor_run (invoke_server sys) (Wait_events [(f, ev), (lfd, ev2)] # map (\<lambda>ev. Wait_events [(f, ev)]) evs) (r, w) = Some (?r', w2)"
    using deaf_events [OF c(1-3), of "invoke_server sys" evs w2] assms(1) by (simp add: reactor_run_def run del: dispatch_events.simps)
  then show ?thesis using c(1,4) l(5-7) by blast
qed

theorem reused_descriptor_goes_deaf_witness:
  "\<exists>r w. reactor_run (invoke_server demo_os) [Wait_events [(7, 1), (3, 1)], Wait_events [(7, 1)]]
       (demo_reactor, demo_world\<lparr>reads := (\<lambda>_. [])(7 := [Eof, Data ''GET /exchange/status HTTP/1.1''])\<rparr>) = Some (r, w) \<and>
     interest r 7 = Some EPOLLIN_ET \<and> callbacks r 7 = None \<and> reads w 7 = [Data ''GET /exchange/status HTTP/1.1'']"
proof -
  let ?rs = "[Data ''GET /exchange/status HTTP/1.1'']"
  let ?w = "demo_world\<lparr>reads := (\<lambda>_. [])(7 := Eof # ?rs)\<rparr>" and ?w1 = "demo_world\<lparr>reads := (\<lambda>_. [])(7 := ?rs)\<rparr>"
  have h: "running demo_reactor" "callbacks demo_reactor 7 = Some On_connection" "callbacks demo_reactor 3 = Some On_listener"
    "on_connection_event demo_os 7 1 (demo_reactor, ?w) = Some (close_connection demo_os 7 (demo_reactor, ?w1))"
    "accept_script ?w1 (accept_next ?w1) = Accepted 7" "accept_script ?w1 (Suc (accept_next ?w1)) = Accept_again"
    "fcntl_ok demo_os 7" "ctl_allows demo_os CTL_ADD 7" "ctl_allows demo_os CTL_DEL 7"
    by (simp_all add: demo_reactor_def on_connection_event_def demo_os_def demo_world_def)
  have "reads ?w1 7 = ?rs" by simp
  with reused_descriptor_goes_deaf [OF h, of 1 "[1]"] show ?thesis by (simp only: list.map) blast
qed

lemma connection_throws:
  assumes T: "T = request_text m p (hs1 @ (''Content-Length'', v) # hs2) body" "request_ok m p (hs1 @ (''Content-Length'', v) # hs2)" "small T"
    "stoi v = None" "\<forall>u. (''Content-Length'', u) \<in> set hs1 \<longrightarrow> stoi u = Some (int (length body))"
  shows "in_buffer w f @ concat cs = T \<Longrightarrow> cs \<noteq> [] \<Longrightarrow> connection_loop sys f (map Data cs @ rest) (r, w) = None"
proof (induction cs arbitrary: w)
  case (Cons c cs)
  let ?w = "set_buffer f (in_buffer w f @ c) w"
  have "prefix (in_buffer w f @ c) T" using Cons.prems(1) by (auto simp: prefix_def)
  note P = parse_bad_length [OF T(2) T(3) [unfolded T(1)] T(4,5) this [unfolded T(1)]]
  show ?case
  proof (cases "parse_request (in_buffer w f @ c) = Some Threw")
    case True
    then show ?thesis by (simp add: Let_def)
  next
    case False
    then have i: "parse_request (in_buffer w f @ c) = Some Incomplete" "in_buffer w f @ c \<noteq> T" using P T(1) by blast+
    then have "cs \<noteq> []" using Cons.prems(1) by auto
    then have "connection_loop sys f (map Data cs @ rest) (r, ?w) = None" using Cons.IH [of ?w] Cons.prems(1) by simp
    then show ?thesis using i(1) by (simp add: Let_def set_buffer_def)
  qed
qed simp

text \<open>(C36) A \<open>Content-Length\<close> that is not a number ends the program. Take any request with such a header, at
  any place, the earlier headers of that name (if there are any) giving the size of the body; let the
  connection have received any part of it and the rest be ready in chunks of any size. Then the
  exception of \<open>std::stoi\<close> leaves \<open>on_connection_event_\<close> uncaught, and with it the event loop, whatever
  other events there are after this one.\<close>

theorem bad_content_length_kills_server:
  assumes "T = request_text m p (hs1 @ (''Content-Length'', v) # hs2) body" "request_ok m p (hs1 @ (''Content-Length'', v) # hs2)" "small T"
    "stoi v = None" "\<forall>u. (''Content-Length'', u) \<in> set hs1 \<longrightarrow> stoi u = Some (int (length body))"
    "in_buffer w f @ concat cs = T" "cs \<noteq> []" "reads w f = map Data cs @ rest" "callbacks r f = Some On_connection"
  shows "on_connection_event sys f ev (r, w) = None \<and> reactor_run (invoke_server sys) (Wait_events ((f, ev) # es) # ws) (r, w) = None"
proof -
  have "on_connection_event sys f ev (r, w) = None" for r
    using connection_throws [OF assms(1-5) assms(6,7)] assms(8) by (simp add: on_connection_event_def)
  then show ?thesis using assms(9) by (simp add: reactor_run_def invoke_server_def)
qed

text \<open>As the repository's client sends \<open>Host\<close> first, and in two chunks.\<close>

theorem bad_content_length_kills_server_witness:
  "\<exists>w :: unit world. reads w 7 = map Data [''GET /s HTTP/1.1'' @ crlf, ''Host: h'' @ crlf @ ''Content-Length: x'' @ crlf @ crlf] \<and>
     on_connection_event demo_os 7 1 (demo_reactor, w) = None \<and>
     reactor_run (invoke_server demo_os) [Wait_events [(7, 1), (3, 1)]] (demo_reactor, w) = None"
proof -
  let ?hs = "[(''Host'', ''h'')] @ (''Content-Length'', ''x'') # []"
  let ?T = "request_text ''GET'' ''/s'' ?hs []" and ?cs = "[''GET /s HTTP/1.1'' @ crlf, ''Host: h'' @ crlf @ ''Content-Length: x'' @ crlf @ crlf]"
  let ?w = "demo_world\<lparr>reads := (\<lambda>_. [])(7 := map Data ?cs)\<rparr>"
  have ok: "request_ok ''GET'' ''/s'' ?hs" "small ?T"
    by (simp_all add: request_ok_def header_ok_def small_def request_text_def crlf_def)
  have s: "stoi ''x'' = None" by code_simp
  have first: "\<forall>u. (''Content-Length'', u) \<in> set [(''Host'', ''h'')] \<longrightarrow> stoi u = Some (int (length ([] :: string)))" by simp
  have t: "in_buffer ?w 7 @ concat ?cs = ?T" by (simp add: in_buffer_def demo_world_def request_text_def)
  have rd: "?cs \<noteq> []" "reads ?w 7 = map Data ?cs @ []" "callbacks demo_reactor 7 = Some On_connection" by (simp_all add: demo_reactor_def)
  from bad_content_length_kills_server [OF refl ok s first t rd, of demo_os 1 "[(3, 1)]" "[]"] show ?thesis by (intro exI [of _ ?w]) simp
qed

end
