(* ===== verification/Rest_Client.thy ===== *)
theory Rest_Client
  imports Rest_Server
begin

text \<open>
  The blocking HTTP client of \<open>src/net/rest_client.h\<close> and \<open>src/net/rest_client.cpp\<close>. What \<open>read\<close> and
  \<open>write\<close> return are scripts, as for the server; a script of \<open>read\<close> results that is used up blocks the
  client. A search that the code compares with \<open>npos\<close> before it uses the position is an option here.
\<close>

section \<open>The class\<close>

record client_response =
  cr_status :: int
  cr_headers :: "string \<Rightarrow> string option"
  cr_body :: string

definition no_response :: client_response where
  "no_response = \<lparr>cr_status = 0, cr_headers = Map.empty, cr_body = []\<rparr>"

record rest_client =
  rc_host :: string
  rc_port :: string
  rc_fd :: fd

definition RestClient_new :: "string \<Rightarrow> string \<Rightarrow> rest_client" where
  "RestClient_new h p = \<lparr>rc_host = h, rc_port = p, rc_fd = - 1\<rparr>"

text \<open>\<open>connect\<close>: the results of \<open>getaddrinfo\<close>, \<open>socket\<close> and \<open>connect\<close> decide; the list is that of the
  descriptors closed.\<close>

definition client_connect :: "bool \<Rightarrow> fd \<Rightarrow> bool \<Rightarrow> rest_client \<Rightarrow> bool \<times> rest_client \<times> fd list" where
  "client_connect resolved sock connected c =
    (if \<not> resolved then (False, c, [])
     else
       let c = c\<lparr>rc_fd := sock\<rparr>
       in if sock < 0 then (False, c, [])
          else if \<not> connected then (False, c, [sock])
          else (True, c, []))"

text \<open>What a call ends with.\<close>

datatype client_result = Blocked | Undefined | Exception | Returned client_response

definition find_from :: "string \<Rightarrow> string \<Rightarrow> nat \<Rightarrow> nat option" where
  "find_from s pat k = (if k \<le> length s then map_option (\<lambda>i. k + i) (find_at pat (drop k s)) else None)"

text \<open>The first loop of \<open>recv_response_\<close>: read up to the end of the headers.\<close>

datatype header_result = Header_blocked | Header_failed | Header_done string string "read_result list"

fun header_loop :: "string \<Rightarrow> nat \<Rightarrow> read_result list \<Rightarrow> header_result" where
  "header_loop header tot_size [] = Header_blocked"
| "header_loop header tot_size (Read_again # rs) = header_loop header tot_size rs"
| "header_loop header tot_size (Read_error # rs) = Header_failed"
| "header_loop header tot_size (Eof # rs) = Header_done header [] rs"
| "header_loop header tot_size (Data s # rs) =
    (let header = header @ s
     in case find_from header (crlf @ crlf) (max 3 tot_size - 3) of
          Some ptr \<Rightarrow> Header_done (take (ptr + 4) header) (drop (ptr + 4) header) rs
        | None \<Rightarrow> header_loop header (tot_size + length s) rs)"

text \<open>\<open>header[ptr]\<close>: the terminator may be read, nothing beyond it.\<close>

definition char_at :: "string \<Rightarrow> nat \<Rightarrow> char option" where
  "char_at s k = (if k < length s then Some (s ! k) else if k = length s then Some (CHR 0x00) else None)"

function skip_to_space :: "string \<Rightarrow> nat \<Rightarrow> nat option" where
  "skip_to_space header ptr =
    (case char_at header ptr of
       None \<Rightarrow> None
     | Some c \<Rightarrow> if c \<noteq> CHR '' '' then skip_to_space header (Suc ptr) else Some ptr)"
  by pat_completeness auto
termination
  by (relation "measure (\<lambda>(h, p). Suc (length h) - p)") (auto simp: char_at_def split: if_splits)

function read_status :: "string \<Rightarrow> nat \<Rightarrow> string \<Rightarrow> (nat \<times> string) option" where
  "read_status header ptr status =
    (case char_at header ptr of
       None \<Rightarrow> None
     | Some c \<Rightarrow> if c \<noteq> CHR '' '' then read_status header (Suc ptr) (status @ [c]) else Some (ptr, status))"
  by pat_completeness auto
termination
  by (relation "measure (\<lambda>(h, p, s). Suc (length h) - p)") (auto simp: char_at_def split: if_splits)

declare skip_to_space.simps [simp del] read_status.simps [simp del]

lemma find_from_bounds: "find_from s pat k = Some n \<Longrightarrow> k \<le> n \<and> n \<le> length s"
  by (auto simp: find_from_def find_at_Some split: if_splits)

text \<open>The loop over the header lines; \<open>None\<close> is one of its two error returns. \<open>insert\<close> keeps the first
  value of a header that comes twice.\<close>

function client_headers :: "string \<Rightarrow> nat \<Rightarrow> (string \<Rightarrow> string option) \<Rightarrow> (string \<Rightarrow> string option) option" where
  "client_headers header ptr hs =
    (case find_from header crlf ptr of
       None \<Rightarrow> None
     | Some nxt \<Rightarrow>
       if nxt = ptr then Some hs
       else
         let header_line = take (nxt - ptr) (drop ptr header)
         in case find_from header_line '': '' 0 of
              None \<Rightarrow> None
            | Some space \<Rightarrow>
              let k = take space header_line; v = drop (space + 2) header_line
              in client_headers header (nxt + 2) (if hs k = None then hs(k \<mapsto> v) else hs))"
  by pat_completeness auto
termination
  by (relation "measure (\<lambda>(h, p, m). Suc (length h) - p)") (auto dest: find_from_bounds)

declare client_headers.simps [simp del]

text \<open>The last loop: read until the server closes the connection.\<close>

datatype body_result = Body_blocked | Body_failed | Body_done string

fun body_loop :: "string \<Rightarrow> read_result list \<Rightarrow> body_result" where
  "body_loop body [] = Body_blocked"
| "body_loop body (Read_again # rs) = body_loop body rs"
| "body_loop body (Read_error # rs) = Body_failed"
| "body_loop body (Eof # rs) = Body_done body"
| "body_loop body (Data s # rs) = body_loop (body @ s) rs"

definition recv_response :: "read_result list \<Rightarrow> client_result" where
  "recv_response script =
    (case header_loop [] 0 script of
       Header_blocked \<Rightarrow> Blocked
     | Header_failed \<Rightarrow> Returned no_response
     | Header_done header body rest \<Rightarrow>
       case skip_to_space header 0 of
         None \<Rightarrow> Undefined
       | Some ptr \<Rightarrow>
         case read_status header (Suc ptr) [] of
           None \<Rightarrow> Undefined
         | Some (ptr, status) \<Rightarrow>
           case stoi status of
             None \<Rightarrow> Exception
           | Some code \<Rightarrow>
             case find_from header crlf ptr of
               None \<Rightarrow> Returned no_response
             | Some ptr \<Rightarrow>
               case client_headers header (ptr + 2) Map.empty of
                 None \<Rightarrow> Returned no_response
               | Some hs \<Rightarrow>
                 case body_loop body rest of
                   Body_blocked \<Rightarrow> Blocked
                 | Body_failed \<Rightarrow> Returned no_response
                 | Body_done b \<Rightarrow> Returned \<lparr>cr_status = code, cr_headers = hs, cr_body = b\<rparr>)"

text \<open>\<open>send_request_\<close>: the text of the request, and the loop that writes it.\<close>

definition client_request :: "rest_client \<Rightarrow> string \<Rightarrow> string \<Rightarrow> string \<Rightarrow> string \<Rightarrow> string" where
  "client_request c meth path body content_type =
    (let req = meth @ '' '' @ path @ '' HTTP/1.1'' @ crlf;
         req = req @ ''Host: '' @ rc_host c @ crlf;
         req = req @ ''Connection: close'' @ crlf;
         req = (if body \<noteq> [] then
                  req @ ''Content-Type: '' @ content_type @ crlf @ ''Content-Length: '' @ to_string (int (length body)) @ crlf
                else req);
         req = req @ crlf
     in req @ body)"

fun send_loop :: "string \<Rightarrow> nat \<Rightarrow> write_result list \<Rightarrow> bool \<times> nat" where
  "send_loop req n [] = (True, length req)"
| "send_loop req n (r # rs) =
    (if n = length req then (True, n)
     else case r of
       Wrote k \<Rightarrow> send_loop req (n + min k (length req - n)) rs
     | Write_eintr \<Rightarrow> send_loop req n rs
     | Write_error \<Rightarrow> (False, n))"

text \<open>The bytes written, and the result of the call.\<close>

definition send_request :: "rest_client \<Rightarrow> string \<Rightarrow> string \<Rightarrow> string \<Rightarrow> string \<Rightarrow> write_result list \<Rightarrow> read_result list \<Rightarrow> string \<times> client_result" where
  "send_request c meth path body content_type wr rd =
    (let req = client_request c meth path body content_type
     in case send_loop req 0 wr of
          (False, n) \<Rightarrow> (take n req, Returned no_response)
        | (True, n) \<Rightarrow> (take n req, recv_response rd))"

definition client_get :: "rest_client \<Rightarrow> string \<Rightarrow> write_result list \<Rightarrow> read_result list \<Rightarrow> string \<times> client_result" where
  "client_get c path wr rd = send_request c ''GET'' path [] [] wr rd"

definition client_post :: "rest_client \<Rightarrow> string \<Rightarrow> string \<Rightarrow> string \<Rightarrow> write_result list \<Rightarrow> read_result list \<Rightarrow> string \<times> client_result" where
  "client_post c path body content_type wr rd = send_request c ''POST'' path body content_type wr rd"

text \<open>\<open>~RestClient\<close>: the descriptors it closes.\<close>

definition client_destroy :: "rest_client \<Rightarrow> fd list" where
  "client_destroy c = (if rc_fd c \<noteq> - 1 then [rc_fd c] else [])"

section \<open>Receiving\<close>

text \<open>The incremental search finds the end of the headers although it starts three bytes before the
  newest chunk.\<close>

lemma prefix_left: "prefix p (x @ y) \<Longrightarrow> length p \<le> length x \<Longrightarrow> prefix p x"
  by (rule prefix_length_prefix [of p "x @ y" x]) simp_all

lemma find_from_skip:
  assumes "k \<le> length s" "\<And>j. j < k \<Longrightarrow> \<not> prefix pat (drop j s)"
  shows "find_from s pat k = find_at pat s"
proof (cases "find_at pat (drop k s)")
  case None
  have "\<not> prefix pat (drop i s)" if "i \<le> length s" for i
  proof (cases "i < k")
    case False
    have "i - k \<le> length (drop k s)" using that by simp
    then have "\<not> prefix pat (drop (i - k) (drop k s))" using None unfolding find_at_None by blast
    then show ?thesis using False by simp
  qed (use assms(2) in simp)
  then have "find_at pat s = None" by (simp add: find_at_None)
  then show ?thesis using None assms(1) by (simp add: find_from_def)
next
  case (Some i)
  then have i: "i \<le> length (drop k s)" "prefix pat (drop i (drop k s))" "\<And>j. j < i \<Longrightarrow> \<not> prefix pat (drop j (drop k s))"
    unfolding find_at_Some by blast+
  have "\<not> prefix pat (drop j s)" if "j < k + i" for j
  proof (cases "j < k")
    case False
    then have "\<not> prefix pat (drop (j - k) (drop k s))" by (intro i(3)) (use that in linarith)
    then show ?thesis using False by simp
  qed (use assms(2) in simp)
  moreover have "prefix pat (drop (k + i) s)" using i(2) by (simp add: add.commute)
  moreover have "k + i \<le> length s" using i(1) assms(1) by simp
  ultimately have "find_at pat s = Some (k + i)" by (simp only: find_at_Some) blast
  then show ?thesis using Some assms(1) by (simp add: find_from_def)
qed

lemma find_incremental:
  assumes "find_at pat h = None" "length pat = 4"
  shows "find_from (h @ s) pat (max 3 (length h) - 3) = find_at pat (h @ s)"
proof (rule find_from_skip)
  fix j assume j: "j < max 3 (length h) - 3"
  then have l: "j + 4 \<le> length h" by (simp split: if_splits)
  show "\<not> prefix pat (drop j (h @ s))"
  proof
    assume "prefix pat (drop j (h @ s))"
    then have "prefix pat (drop j h @ s)" using l by simp
    then have "prefix pat (drop j h)" by (rule prefix_left) (use l assms(2) in simp)
    then show False using assms(1) l by (simp add: find_at_None)
  qed
qed simp

lemma find_at_prefix_Some:
  assumes "prefix u s" "find_at pat s = Some k" "k + length pat \<le> length u"
  shows "find_at pat u = Some k"
proof -
  obtain w where w: "s = u @ w" using assms(1) by (auto simp: prefix_def)
  have k: "prefix pat (drop k s)" "\<And>j. j < k \<Longrightarrow> \<not> prefix pat (drop j s)" using assms(2) unfolding find_at_Some by blast+
  have "prefix pat (drop k u @ w)" using k(1) w assms(3) by simp
  then have "prefix pat (drop k u)" by (rule prefix_left) (use assms(3) in simp)
  moreover have "\<not> prefix pat (drop j u)" if "j < k" for j
    using k(2) [OF that] w that assms(3) by (auto intro: prefix_prefix)
  ultimately show ?thesis unfolding find_at_Some using assms(3) by simp
qed

text \<open>The header loop over the chunks of a text in which the headers end at \<open>k\<close>.\<close>

lemma header_loop_chunks:
  assumes "find_at (crlf @ crlf) T = Some k"
  shows "find_at (crlf @ crlf) h = None \<Longrightarrow> T = h @ concat cs \<Longrightarrow>
    \<exists>ds b. header_loop h (length h) (map Data cs @ rest) = Header_done (take (k + 4) T) b (map Data ds @ rest) \<and>
      b @ concat ds = drop (k + 4) T"
proof (induction cs arbitrary: h)
  case Nil
  then show ?case using assms by simp
next
  case (Cons c cs)
  have f: "find_from (h @ c) (crlf @ crlf) (max 3 (length h) - 3) = find_at (crlf @ crlf) (h @ c)"
    by (rule find_incremental [OF Cons.prems(1)]) (simp add: crlf_def)
  have T: "T = (h @ c) @ concat cs" using Cons.prems(2) by simp
  show ?case
  proof (cases "find_at (crlf @ crlf) (h @ c)")
    case None
    then show ?thesis using Cons.IH [OF None T] f by (simp add: Let_def)
  next
    case (Some i)
    have p: "prefix (h @ c) T" using T by simp
    have il: "k + 4 \<le> length (h @ c)"
      using find_at_prefix [OF p assms] Some by (force simp: crlf_def)
    have "i = k" using find_at_prefix_Some [OF p assms] Some il by (simp add: crlf_def)
    then show ?thesis
      using f Some T il by (intro exI [of _ cs] exI [of _ "drop (k + 4) (h @ c)"]) (simp add: Let_def)
  qed
qed

subsection \<open>Status line and headers\<close>

lemma skip_to_space_ok: "CHR '' '' \<notin> set u \<Longrightarrow> skip_to_space (pre @ u @ '' '' @ v) (length pre) = Some (length (pre @ u))"
proof (induction u arbitrary: pre)
  case Nil
  then show ?case by (subst skip_to_space.simps) (simp add: char_at_def)
next
  case (Cons c u)
  have "skip_to_space (pre @ (c # u) @ '' '' @ v) (length pre) = skip_to_space ((pre @ [c]) @ u @ '' '' @ v) (length (pre @ [c]))"
    using Cons.prems by (subst skip_to_space.simps) (auto simp: char_at_def)
  then show ?case using Cons.IH [of "pre @ [c]"] Cons.prems by simp
qed

lemma read_status_ok:
  "CHR '' '' \<notin> set u \<Longrightarrow> read_status (pre @ u @ '' '' @ v) (length pre) acc = Some (length (pre @ u), acc @ u)"
proof (induction u arbitrary: pre acc)
  case Nil
  then show ?case by (subst read_status.simps) (simp add: char_at_def)
next
  case (Cons c u)
  have "read_status (pre @ (c # u) @ '' '' @ v) (length pre) acc = read_status ((pre @ [c]) @ u @ '' '' @ v) (length (pre @ [c])) (acc @ [c])"
    using Cons.prems by (subst read_status.simps) (auto simp: char_at_def)
  then show ?case using Cons.IH [of "pre @ [c]" "acc @ [c]"] Cons.prems by simp
qed

lemma find_from_append:
  assumes "CHR 0x0D \<notin> set u"
  shows "find_from (pre @ u @ crlf @ v) crlf (length pre) = Some (length (pre @ u))"
  using find_crlf [OF assms] by (simp add: find_from_def)

definition first_map :: "header list \<Rightarrow> (string \<Rightarrow> string option) \<Rightarrow> string \<Rightarrow> string option" where
  "first_map hs m = foldl (\<lambda>m (k, v). if m k = None then m(k \<mapsto> v) else m) m hs"

lemma client_headers_ok:
  "\<forall>h\<in>set hs. header_ok h \<Longrightarrow>
    client_headers (pre @ header_text hs @ crlf @ rest) (length pre) m = Some (first_map hs m)"
proof (induction hs arbitrary: pre m)
  case Nil
  have "find_from (pre @ [] @ crlf @ rest) crlf (length pre) = Some (length (pre @ []))" by (rule find_from_append) simp
  then show ?case by (subst client_headers.simps) (simp add: first_map_def)
next
  case (Cons h hs)
  obtain k v where h: "h = (k, v)" by fastforce
  let ?l = "k @ '': '' @ v"
  let ?T = "pre @ ?l @ crlf @ header_text hs @ crlf @ rest"
  have ok: "CHR 0x0D \<notin> set ?l" "CHR '':'' \<notin> set k" using Cons.prems h by (auto simp: header_ok_def)
  have n: "find_from ?T crlf (length pre) = Some (length (pre @ ?l))" by (rule find_from_append [OF ok(1)])
  have "find_at '': '' ?l = Some (length k)" by (rule find_at_append) (use ok(2) in simp_all)
  then have sp: "find_from ?l '': '' 0 = Some (length k)" by (simp add: find_from_def)
  have ne: "length (pre @ ?l) \<noteq> length pre" by simp
  have line: "take (length (pre @ ?l) - length pre) (drop (length pre) ?T) = ?l" by simp
  have kv: "take (length k) ?l = k" "drop (length k + 2) ?l = v" by simp_all
  have nx: "length (pre @ ?l) + 2 = length (pre @ ?l @ crlf)" by (simp add: crlf_def)
  have "client_headers ?T (length pre) m = client_headers ?T (length (pre @ ?l @ crlf)) (if m k = None then m(k \<mapsto> v) else m)"
    by (subst client_headers.simps) (simp only: n option.case ne if_False line sp Let_def kv nx)
  also have "?T = (pre @ ?l @ crlf) @ header_text hs @ crlf @ rest" by simp
  also have "client_headers \<dots> (length (pre @ ?l @ crlf)) (if m k = None then m(k \<mapsto> v) else m)
      = Some (first_map hs (if m k = None then m(k \<mapsto> v) else m))"
    by (rule Cons.IH) (use Cons.prems in simp)
  finally show ?case using h by (simp add: first_map_def)
qed

lemma take_drop_append: "take (length h) (h @ b) = h" "drop (length h) (h @ b) = b"
  by simp_all

lemma body_loop_chunks: "body_loop b (map Data cs @ Eof # rest) = Body_done (b @ concat cs)"
  by (induction cs arbitrary: b) simp_all

text \<open>The text of a response.\<close>

definition status_line :: "int \<Rightarrow> string" where
  "status_line st = ''HTTP/1.1 '' @ to_string st @ '' '' @ reason_phrase st"

definition response_headers :: "response \<Rightarrow> header list" where
  "response_headers resp = [(''Content-Type'', rs_content_type resp),
     (''Content-Length'', to_string (int (length (rs_body resp)))), (''Connection'', ''close'')]"

lemma serialize_response_text:
  "serialize_response resp = status_line (rs_status resp) @ crlf @ header_text (response_headers resp) @ crlf @ rs_body resp"
  by (simp add: serialize_response_def status_line_def response_headers_def)

lemma to_string_nat: "to_string (int n) = dec n"
  by (simp add: to_string_def)

definition response_ok :: "response \<Rightarrow> bool" where
  "response_ok resp \<longleftrightarrow> 0 \<le> rs_status resp \<and> rs_status resp < 2 ^ 31 \<and> CHR 0x0D \<notin> set (rs_content_type resp)"

lemma response_headers_ok: "response_ok resp \<Longrightarrow> \<forall>h\<in>set (response_headers resp). header_ok h"
  by (auto simp: response_headers_def response_ok_def header_ok_def to_string_nat dec_no_cr)

lemma status_line_parts:
  assumes "response_ok resp"
  shows "to_string (rs_status resp) = dec (nat (rs_status resp))" "CHR '' '' \<notin> set (to_string (rs_status resp))"
    "CHR 0x0D \<notin> set (status_line (rs_status resp))" "stoi (to_string (rs_status resp)) = Some (rs_status resp)"
proof -
  show d: "to_string (rs_status resp) = dec (nat (rs_status resp))" using assms by (simp add: response_ok_def to_string_def)
  show "CHR '' '' \<notin> set (to_string (rs_status resp))" unfolding d using dec_digits is_digit_neq(5) by blast
  show "CHR 0x0D \<notin> set (status_line (rs_status resp))"
    using dec_no_cr [of "nat (rs_status resp)"] by (simp add: status_line_def reason_phrase_def d)
  show "stoi (to_string (rs_status resp)) = Some (rs_status resp)"
    unfolding d using stoi_dec [of "nat (rs_status resp)"] assms by (simp add: response_ok_def nat_less_iff)
qed

text \<open>The client understands the server: whatever the sizes of the chunks in which the text that
  \<open>serialize_response\<close> produces arrives, \<open>recv_response_\<close> returns its status, its headers and exactly
  its body.\<close>

lemma client_reads_response:
  assumes "response_ok resp" "concat cs = serialize_response resp"
  shows "recv_response (map Data cs @ [Eof]) =
    Returned \<lparr>cr_status = rs_status resp, cr_headers = first_map (response_headers resp) Map.empty, cr_body = rs_body resp\<rparr>"
proof -
  let ?T = "serialize_response resp" and ?l = "status_line (rs_status resp)" and ?hs = "response_headers resp"
  let ?st = "to_string (rs_status resp)"
  let ?h = "?l @ crlf @ header_text ?hs @ crlf"
  note S = status_line_parts [OF assms(1)]
  have T: "?T = ?h @ rs_body resp" by (simp add: serialize_response_text)
  have f: "find_at (crlf @ crlf) ?T = Some (length (?l @ header_text ?hs))"
    using find_end [OF S(3) response_headers_ok [OF assms(1)]] by (simp add: serialize_response_text)
  have e: "find_at (crlf @ crlf) [] = None" by (simp add: find_at.simps crlf_def)
  have k: "length (?l @ header_text ?hs) + 4 = length ?h" by (simp add: crlf_def)
  have th: "take (length ?h) ?T = ?h" "drop (length ?h) ?T = rs_body resp"
    unfolding T by (rule take_drop_append)+
  obtain ds b where H: "header_loop [] 0 (map Data cs @ [Eof]) = Header_done ?h b (map Data ds @ [Eof])" "b @ concat ds = rs_body resp"
    using header_loop_chunks [OF f e, of cs "[Eof]"] assms(2) unfolding k th by auto
  have 1: "skip_to_space ?h 0 = Some (length ''HTTP/1.1'')"
    using skip_to_space_ok [of "''HTTP/1.1''" "[]"] by (simp add: status_line_def)
  have 2: "read_status ?h (Suc (length ''HTTP/1.1'')) [] = Some (length (''HTTP/1.1 '' @ ?st), ?st)"
    using read_status_ok [OF S(2), of "''HTTP/1.1 ''" "reason_phrase (rs_status resp) @ crlf @ header_text ?hs @ crlf" "[]"]
    by (simp add: status_line_def)
  have "CHR 0x0D \<notin> set ('' '' @ reason_phrase (rs_status resp))" by (simp add: reason_phrase_def)
  from find_from_append [OF this, of "''HTTP/1.1 '' @ ?st" "header_text ?hs @ crlf"]
  have 3: "find_from ?h crlf (length (''HTTP/1.1 '' @ ?st)) = Some (length ?l)" by (simp add: status_line_def)
  have p2: "length ?l + 2 = length (?l @ crlf)" by (simp add: crlf_def)
  have 4: "client_headers ?h (length (?l @ crlf)) Map.empty = Some (first_map ?hs Map.empty)"
    using client_headers_ok [OF response_headers_ok [OF assms(1)], of "?l @ crlf" "[]"] by simp
  show ?thesis
    unfolding recv_response_def H(1) header_result.case 1 option.case 2 prod.case S(4) 3 p2 4 body_loop_chunks body_result.case H(2) ..
qed

section \<open>Sending\<close>

definition client_headers_sent :: "rest_client \<Rightarrow> string \<Rightarrow> string \<Rightarrow> header list" where
  "client_headers_sent c body content_type =
     [(''Host'', rc_host c), (''Connection'', ''close'')] @
     (if body \<noteq> [] then [(''Content-Type'', content_type), (''Content-Length'', dec (length body))] else [])"

lemma client_request_text:
  "client_request c meth path body content_type = request_text meth path (client_headers_sent c body content_type) body"
  by (simp add: client_request_def Let_def request_text_def client_headers_sent_def to_string_nat)

lemma client_announces: "length body < 2 ^ 31 \<Longrightarrow> announces (client_headers_sent c body content_type) body"
  using stoi_dec [of "length body"] by (auto simp: announces_def client_headers_sent_def)

lemma client_request_ok:
  assumes "CHR '' '' \<notin> set meth" "CHR 0x0D \<notin> set meth" "CHR '' '' \<notin> set path" "CHR 0x0D \<notin> set path"
    "CHR 0x0D \<notin> set (rc_host c)" "CHR 0x0D \<notin> set content_type"
  shows "request_ok meth path (client_headers_sent c body content_type)"
  using assms dec_no_cr by (auto simp: request_ok_def client_headers_sent_def header_ok_def)

lemma send_loop_all: "Write_error \<notin> set ws \<Longrightarrow> n \<le> length req \<Longrightarrow> send_loop req n ws = (True, length req)"
proof (induction ws arbitrary: n)
  case (Cons r ws)
  show ?case
  proof (cases "n = length req")
    case False
    then show ?thesis using Cons by (cases r) auto
  qed simp
qed simp

text \<open>A server that closes the connection without an answer makes the client read outside its
  buffer: with nothing received, the scan for the first space runs past the terminator of an empty
  string.\<close>

theorem empty_response_undefined: "recv_response [Eof] = Undefined"
  by (simp add: recv_response_def skip_to_space.simps char_at_def)

text \<open>When \<open>::connect\<close> fails, the descriptor is closed but stays in \<open>fd_\<close>, so the destructor closes
  it a second time.\<close>

theorem failed_connect_closes_twice:
  "case client_connect True 5 False (RestClient_new host prt) of
     (ok, c, fds) \<Rightarrow> \<not> ok \<and> fds @ client_destroy c = [5, 5]"
  by (simp add: client_connect_def RestClient_new_def client_destroy_def Let_def)

end
