(* ===== verification/Simulator.thy ===== *)
theory Simulator
  imports Handlers Rest_Client
begin

text \<open>
  The exchange simulator of \<open>sim/main.cpp\<close>: one market, three routes and the event loop. The state the
  handlers share is the registry and the readings of the clock. The chapter ends with the round trip
  of an order from the client to the matching engine and back.
\<close>

section \<open>The program\<close>

record sim =
  sim_registry :: market_registry
  sim_clock :: "nat \<Rightarrow> u64"
  sim_now :: nat

definition status_handler :: "sim handler" where
\<open>status_handler req s = Some (\<lparr>rs_status = 200, rs_content_type = ''application/json'', rs_body = ''{"status": "ok"}''\<rparr>, s)\<close>

definition balance_handler :: "sim handler" where
\<open>balance_handler req s = Some (\<lparr>rs_status = 200, rs_content_type = ''application/json'', rs_body = ''{"balance": 10000}''\<rparr>, s)\<close>

definition orders_handler :: "'d order_json \<Rightarrow> sim handler" where
  "orders_handler sj req s = do {
     (resp, reg) \<leftarrow> handle_place_order sj (sim_clock s (sim_now s)) req (sim_registry s);
     Some (resp, s\<lparr>sim_registry := reg, sim_now := Suc (sim_now s)\<rparr>)
   }"




section \<open>The simulator keeps running\<close>

definition sim_routes :: "'d order_json \<Rightarrow> string \<Rightarrow> sim handler option" where
  "sim_routes sj = [''GET /exchange/status'' \<mapsto> status_handler, ''GET /portfolio/balance'' \<mapsto> balance_handler,
     ''POST /portfolio/orders'' \<mapsto> orders_handler sj]"

definition sim_ok :: "nat \<Rightarrow> sim \<Rightarrow> bool" where
  "sim_ok n s \<longleftrightarrow> registry_ok (sim_registry s) \<and> ids_within n (sim_registry s)"

































section \<open>An order from the client to the engine and back\<close>

lemma client_sends:
  assumes "Write_error \<notin> set wr"
  shows "client_post c path body ct wr rd = (client_request c ''POST'' path body ct, recv_response rd)"
  using send_loop_all [OF assms, of 0] by (simp add: client_post_def send_request_def Let_def)

definition client_ok :: "rest_client \<Rightarrow> string \<Rightarrow> string \<Rightarrow> bool" where
  "client_ok c body ct \<longleftrightarrow> CHR 0x0D \<notin> set (rc_host c) \<and> CHR 0x0D \<notin> set ct \<and> length body < 2 ^ 31 \<and>
     small (client_request c ''POST'' ''/portfolio/orders'' body ct)"

text \<open>(C1) An order placed with \<open>RestClient::post\<close> comes out of the matching engine as specified, and the client
  learns exactly what happened. The bytes the client writes reach the server in any pieces; one event
  of the server answers them; the bytes the server writes reach the client in any pieces; the call of
  the client returns status 200 and a body from which the order id, the resting quantity and all the
  fills of the specified result can be read; and the market's book is the specified one.\<close>

theorem order_end_to_end:
  assumes c: "client_ok c body ct" "Write_error \<notin> set wr"
    and o: "order_of sj body = Some (ticker, sd, price, qty)"
    and w: "routes w = sim_routes sj" "sim_ok n (app w)" "n < 2 ^ 64 - 1" "get_engine ticker (sim_registry (app w)) = Some e"
    and f: "connections w f = None" "sent w f = []" "Write_error \<notin> set (writes w f)"
    and arrives: "reads w f = map Data cs @ rest" "[] \<notin> set cs" "concat cs = fst (client_post c ''/portfolio/orders'' body ct wr [])"
  shows "\<exists>result e' r' w'.
    (result, book_of e') = place_spec (next_order_id e) (sim_clock (app w) (sim_now (app w))) 1 sd price qty (book_of e) \<and>
    on_connection_event sys f ev (r, w) = Some (r', w') \<and> get_engine ticker (sim_registry (app w')) = Some e' \<and>
    (\<forall>ds. concat ds = sent w' f \<longrightarrow>
      (\<exists>resp. snd (client_post c ''/portfolio/orders'' body ct wr (map Data ds @ [Eof])) = Returned resp \<and>
        cr_status resp = 200 \<and> decode_reply (cr_body resp) =
          Some (unat (res_order_id result), unat (qty_resting result), accepted result, map fill_numbers (res_fills result))))"
proof -
  let ?hs = "client_headers_sent c body ct" and ?p = "''/portfolio/orders''"
  let ?req = "\<lparr>rq_method = ''POST'', rq_path = ?p, rq_headers = header_map ?hs Map.empty, rq_body = body\<rparr>"
  let ?ts = "sim_clock (app w) (sim_now (app w))" and ?reg = "sim_registry (app w)"
  have T: "request_ok ''POST'' ?p ?hs" "small (request_text ''POST'' ?p ?hs body)" "announces ?hs body"
    using c(1) by (auto simp: client_ok_def client_request_text intro!: client_request_ok client_announces)
  have full: "in_buffer w f @ concat cs = request_text ''POST'' ?p ?hs body"
    using arrives(3) f(1) by (simp add: client_sends [OF c(2)] client_request_text in_buffer_def)
  then have ne: "cs \<noteq> []" using f(1) by (auto simp: request_text_def in_buffer_def)
  have reg: "registry_ok ?reg" "ids_within n ?reg" and od: "order_of sj (rq_body ?req) = Some (ticker, sd, price, qty)"
    using w(2) o by (simp_all add: sim_ok_def)
  obtain result e' where P: "handle_place_order sj ?ts ?req ?reg =
      Some (\<lparr>rs_status = 200, rs_content_type = ''application/json'', rs_body = place_body result\<rparr>, set_engine ticker e' ?reg)"
    "(result, book_of e') = place_spec (next_order_id e) ?ts 1 sd price qty (book_of e)"
    using handle_order_total [OF reg w(3) od w(4), of ?ts] by metis
  let ?resp = "\<lparr>rs_status = 200, rs_content_type = ''application/json'', rs_body = place_body result\<rparr>"
  let ?h = "(app w)\<lparr>sim_registry := set_engine ticker e' ?reg, sim_now := Suc (sim_now (app w))\<rparr>"
  have a: "answer (routes w) ?req (app w) = Some (?resp, ?h)"
    using P(1) by (simp add: w(1) answer_def sim_routes_def orders_handler_def)
  obtain r' w' where S: "on_connection_event sys f ev (r, w) = Some (r', w')" "served sys f ?resp ?h (r, w) (r', w')"
    using connection_serves [OF T arrives(1) ne arrives(2) a f(3) full, of sys ev r] by auto
  have s: "sent w' f = serialize_response ?resp" "get_engine ticker (sim_registry (app w')) = Some e'"
    using S(2) f(2) by (auto simp: served_def get_engine_def set_engine_def)
  have ok: "response_ok ?resp" by (simp add: response_ok_def)
  show ?thesis
    using P(2) S(1) s client_reads_response [OF ok] decode_place_body [of result] by (auto simp: client_sends [OF c(2)])
qed

theorem order_end_to_end_witness:
  "\<exists>r' w'. on_connection_event demo_os 7 1 (demo_reactor,
       RestServer_new 8443 (\<lambda>_. Accept_again)
         ((\<lambda>_. [])(7 := map Data [fst (client_post (RestClient_new ''sim'' ''8443'') ''/portfolio/orders'' ''{}'' ''json'' [] [])]))
         (\<lambda>_. [Wrote 3]) \<lparr>sim_registry = demo_registry, sim_clock = (\<lambda>_. 7), sim_now = 0\<rparr>\<lparr>routes := sim_routes demo_order_json\<rparr>) = Some (r', w') \<and>
     (\<exists>resp. snd (client_post (RestClient_new ''sim'' ''8443'') ''/portfolio/orders'' ''{}'' ''json'' [] (map Data [sent w' 7] @ [Eof])) = Returned resp \<and>
       decode_reply (cr_body resp) = Some (1, 10, True, []))"
proof -
  let ?c = "RestClient_new ''sim'' ''8443''"
  let ?w = "RestServer_new 8443 (\<lambda>_. Accept_again)
         ((\<lambda>_. [])(7 := map Data [fst (client_post ?c ''/portfolio/orders'' ''{}'' ''json'' [] [])]))
         (\<lambda>_. [Wrote 3]) \<lparr>sim_registry = demo_registry, sim_clock = (\<lambda>_. 7), sim_now = 0\<rparr>\<lparr>routes := sim_routes demo_order_json\<rparr>"
  have d: "dec (Suc (Suc 0)) = ''2''" by code_simp
  have c: "client_ok ?c ''{}'' ''json''" by (simp add: client_ok_def RestClient_new_def client_request_text small_def request_text_def client_headers_sent_def d crlf_def)
  have od: "order_of demo_order_json ''{}'' = Some (''DEMO-1'', YES, 40, 10)" by (simp add: demo_order)
  have s: "sim_ok 1 (app ?w)" using demo_registry_ok by (simp add: sim_ok_def RestServer_new_def)
  have e: "get_engine ''DEMO-1'' (sim_registry (app ?w)) = Some demo_engine" by (simp add: RestServer_new_def get_engine_def demo_registry_def)
  have r: "reads ?w 7 = map Data [fst (client_post ?c ''/portfolio/orders'' ''{}'' ''json'' [] [])] @ []" by (simp add: RestServer_new_def)
  have ne: "[] \<notin> set [fst (client_post ?c ''/portfolio/orders'' ''{}'' ''json'' [] [])]"
    by (simp add: client_sends client_request_def Let_def)
  obtain result e' r' w' where R: "(result, book_of e') = place_spec 1 7 1 YES 40 10 (\<lambda>w p. [])"
    "on_connection_event demo_os 7 1 (demo_reactor, ?w) = Some (r', w')"
    "\<forall>ds. concat ds = sent w' 7 \<longrightarrow> (\<exists>resp. snd (client_post ?c ''/portfolio/orders'' ''{}'' ''json'' [] (map Data ds @ [Eof])) = Returned resp \<and>
        cr_status resp = 200 \<and> decode_reply (cr_body resp) =
          Some (unat (res_order_id result), unat (qty_resting result), accepted result, map fill_numbers (res_fills result)))"
    using order_end_to_end [OF c _ od _ s _ e _ _ _ r ne, of "[]" demo_os 1 demo_reactor] by (auto simp: RestServer_new_def demo_book)
  then have "result = \<lparr>res_order_id = 1, res_fills = [], qty_resting = 10, accepted = True\<rparr>"
    using empty_place [of 40 10 1 7 1 YES] by simp
  then show ?thesis using R(2) R(3) [rule_format, of "[sent w' 7]"] by auto
qed

end
