(* ===== verification/Worker_Interface.thy ===== *)
theory Worker_Interface
  imports Feed_Parser "HOL-Library.Monad_Syntax"
begin

text \<open>
  The contract of what a consumer does with each order book delta: from a state that is good after
  \<open>k\<close> messages, an admissible message takes it to one that is good after \<open>k + 1\<close>, without undefined
  behaviour, up to a limit.
\<close>

fun work_all :: "(orderbook_delta \<Rightarrow> 's \<Rightarrow> (string list \<times> 's) option) \<Rightarrow> orderbook_delta list \<Rightarrow> 's \<Rightarrow> (string list \<times> 's) option" where
  "work_all work [] s = Some ([], s)"
| "work_all work (d # ds) s = do {
     (ts, s) \<leftarrow> work d s;
     (ts', s) \<leftarrow> work_all work ds s;
     Some (ts @ ts', s)
   }"

lemma work_all_append:
  "work_all work (ds @ es) s = do { (ts, s) \<leftarrow> work_all work ds s; (ts', s) \<leftarrow> work_all work es s; Some (ts @ ts', s) }"
proof (induction ds arbitrary: s)
  case Nil
  show ?case by (cases "work_all work es s") auto
next
  case (Cons d ds)
  show ?case
  proof (cases "work d s")
    case (Some x)
    then show ?thesis using Cons by (cases x; cases "work_all work ds (snd x)") (auto split: bind_splits)
  qed simp
qed

locale message_worker =
  fixes good :: "nat \<Rightarrow> 's \<Rightarrow> bool"
    and admissible :: "orderbook_delta \<Rightarrow> bool"
    and work :: "orderbook_delta \<Rightarrow> 's \<Rightarrow> (string list \<times> 's) option"
    and limit :: nat
  assumes work_returns: "good k s \<Longrightarrow> admissible d \<Longrightarrow> k < limit \<Longrightarrow> \<exists>ts s'. work d s = Some (ts, s') \<and> good (Suc k) s'"
begin

lemma work_all_returns:
  "good k s \<Longrightarrow> \<forall>d\<in>set ds. admissible d \<Longrightarrow> k + length ds \<le> limit \<Longrightarrow>
    \<exists>ts s'. work_all work ds s = Some (ts, s') \<and> good (k + length ds) s'"
proof (induction ds arbitrary: k s)
  case (Cons d ds)
  obtain ts s1 where "work d s = Some (ts, s1)" "good (Suc k) s1" using work_returns [of k s d] Cons.prems by auto
  then show ?case using Cons.IH [of "Suc k" s1] Cons.prems by auto
qed simp

end

end
