(* ===== verification/Hot_Path.thy ===== *)
theory Hot_Path
  imports Serialize Worker_Interface
begin

text \<open>
  The hot path that the programs under \<open>bench/\<close> drive: the payloads they generate, and for every
  message parse, book, signal, order manager and serialiser in one step. \<open>bench/bench_hotpath.cpp\<close> runs
  it in one thread. \<open>None\<close> is undefined behaviour: an index outside an array, a signed overflow or a
  write outside a buffer. Readings of the time stamp counter are arguments.
\<close>

section \<open>Payloads\<close>

definition N_PAYLOADS :: nat where "N_PAYLOADS = 1024"

text \<open>\<open>Xorshift64\<close>: its state is the word itself.\<close>

definition xorshift_next :: "u64 \<Rightarrow> u64" where
  "xorshift_next s =
    (let s = s XOR push_bit 13 s;
         s = s XOR drop_bit 7 s
     in s XOR push_bit 17 s)"

definition xorshift_range :: "u32 \<Rightarrow> u32 \<Rightarrow> u64 \<Rightarrow> u32 \<times> u64" where
  "xorshift_range lo hi s =
    (let s = xorshift_next s
     in (lo + ucast (s mod ucast (hi - lo + 1)), s))"

text \<open>
  The operands of the product that makes \<open>delta\<close> are two calls of the generator, which C++ may make
  in either order: \<open>left_first\<close> says which one it takes.
\<close>

definition draw_delta :: "bool \<Rightarrow> u64 \<Rightarrow> int \<times> u64" where
  "draw_delta left_first s =
    (if left_first then
       let (m, s) = xorshift_range 1 50 s; s = xorshift_next s
       in (uint m * (if s AND 1 \<noteq> 0 then 1 else - 1), s)
     else
       let s = xorshift_next s; g = (if s AND 1 \<noteq> 0 then 1 else - 1); (m, s) = xorshift_range 1 50 s
       in (uint m * g, s))"

text \<open>The text that \<open>snprintf\<close> prints.\<close>

definition payload_text :: "string \<Rightarrow> u64 \<Rightarrow> u32 \<Rightarrow> int \<Rightarrow> string \<Rightarrow> u64 \<Rightarrow> string" where
\<open>payload_text ticker seq price delta sd ts =
    ''{"type":"orderbook_delta","sid":1,"seq":'' @ dec (unat seq) @
    '',"msg":{"market_ticker":"'' @ ticker @ ''","price":'' @ dec (unat price) @
    '',"delta":'' @ to_string delta @ '',"side":"'' @ sd @ ''","ts":'' @ dec (unat ts) @ ''}}''\<close>

definition one_payload :: "bool \<Rightarrow> string \<Rightarrow> nat \<Rightarrow> u64 \<Rightarrow> string \<times> u64" where
  "one_payload lf ticker i s =
    (let (price, s) = xorshift_range 1 99 s;
         (delta, s) = draw_delta lf s;
         s = xorshift_next s;
         sd = (if s AND 1 \<noteq> 0 then ''yes'' else ''no'');
         s = xorshift_next s;
         ts = 1700000000000 + s mod 1000000;
         seq = of_nat (i + 1)
     in (payload_text ticker seq price delta sd ts, s))"

fun payload_loop :: "bool \<Rightarrow> string \<Rightarrow> nat list \<Rightarrow> u64 \<Rightarrow> string list" where
  "payload_loop lf ticker [] s = []"
| "payload_loop lf ticker (i # is) s =
    (let (p, s) = one_payload lf ticker i s in p # payload_loop lf ticker is s)"

definition kTicker :: string where "kTicker = ''DEMO-1''"

definition build_payload_pool :: "bool \<Rightarrow> string list" where
  "build_payload_pool lf = payload_loop lf kTicker [0..<N_PAYLOADS] 0xDEADBEEFCAFEBABE"

section \<open>One message\<close>

record pipeline =
  pl_book :: feed_book
  pl_om :: order_manager
  pl_out :: "char list"

definition pipeline_new :: "char list \<Rightarrow> pipeline" where
  "pipeline_new out = \<lparr>pl_book = Book_new, pl_om = OrderManager_new, pl_out = out\<rparr>"

text \<open>The loop over the actions of a bundle: what each round leaves in \<open>outbuf[0..n)\<close>.\<close>

fun emit_loop :: "action_bundle \<Rightarrow> char list \<Rightarrow> nat list \<Rightarrow> char list \<Rightarrow> (string list \<times> char list) option" where
  "emit_loop bundle ticker [] out = Some ([], out)"
| "emit_loop bundle ticker (k # ks) out =
    (if k < length (actions bundle) then do {
       (n, out) \<leftarrow> serialize_action (actions bundle ! k) ticker out 256;
       (ts, out') \<leftarrow> emit_loop bundle ticker ks out;
       Some (take n out # ts, out')
     }
     else None)"

definition emit_actions :: "action_bundle \<Rightarrow> char list \<Rightarrow> char list \<Rightarrow> (string list \<times> char list) option" where
  "emit_actions bundle ticker out = emit_loop bundle ticker [0..<unat (cnt bundle)] out"

definition hot_step :: "char list \<Rightarrow> orderbook_delta \<Rightarrow> pipeline \<Rightarrow> (string list \<times> pipeline) option" where
  "hot_step ticker d s = do {
     book \<leftarrow> book_apply d (pl_book s);
     let tq = evaluate book;
     (bundle, om) \<leftarrow> reconcile tq (pl_om s);
     (texts, out) \<leftarrow> emit_actions bundle ticker (pl_out s);
     Some (texts, \<lparr>pl_book = book, pl_om = om, pl_out = out\<rparr>)
   }"

section \<open>The single-threaded program\<close>

text \<open>\<open>kTicker\<close> as a C string.\<close>

definition c_ticker :: "char list" where "c_ticker = kTicker @ [CHR 0x00]"

text \<open>A structure declared without initialiser has the contents \<open>junk i\<close>.\<close>

fun warmup_loop ::
    "('d, 'o) simdjson \<Rightarrow> string list \<Rightarrow> (nat \<Rightarrow> orderbook_delta) \<Rightarrow> nat list \<Rightarrow> pipeline \<Rightarrow> (string list \<times> pipeline) option" where
  "warmup_loop sj pool junk [] s = Some ([], s)"
| "warmup_loop sj pool junk (i # is) s =
    (if i mod N_PAYLOADS < length pool then do {
       let d = snd (parse_orderbook_delta sj (pool ! (i mod N_PAYLOADS)) (junk i));
       (ts, s) \<leftarrow> hot_step c_ticker d s;
       (ts', s) \<leftarrow> warmup_loop sj pool junk is s;
       Some (ts @ ts', s)
     }
     else None)"

text \<open>The measured loop also reads the counter before and after and records the difference.\<close>

fun measure_loop ::
    "('d, 'o) simdjson \<Rightarrow> string list \<Rightarrow> (nat \<Rightarrow> orderbook_delta) \<Rightarrow> (nat \<Rightarrow> u64 \<times> u64) \<Rightarrow> nat list \<Rightarrow>
      pipeline \<times> u64 list \<Rightarrow> (string list \<times> pipeline \<times> u64 list) option" where
  "measure_loop sj pool junk tsc [] s = Some ([], s)"
| "measure_loop sj pool junk tsc (i # is) (s, cycles) =
    (if i mod N_PAYLOADS < length pool then do {
       let d = snd (parse_orderbook_delta sj (pool ! (i mod N_PAYLOADS)) (junk i));
       (ts, s) \<leftarrow> hot_step c_ticker d s;
       (if i < length cycles then do {
          (ts', s) \<leftarrow> measure_loop sj pool junk tsc is (s, cycles[i := snd (tsc i) - fst (tsc i)]);
          Some (ts @ ts', s)
        }
        else None)
     }
     else None)"

text \<open>\<open>main\<close> from the payload pool to the end of the measurement, with the constants \<open>N_WARMUP\<close> and
  \<open>N_MEASURE\<close> of the program.\<close>

definition N_WARMUP :: nat where "N_WARMUP = 5000"
definition N_MEASURE :: nat where "N_MEASURE = 100000"

definition bench_hotpath ::
    "('d, 'o) simdjson \<Rightarrow> bool \<Rightarrow> (nat \<Rightarrow> orderbook_delta) \<Rightarrow> (nat \<Rightarrow> orderbook_delta) \<Rightarrow> (nat \<Rightarrow> u64 \<times> u64) \<Rightarrow> char list \<Rightarrow>
      (string list \<times> pipeline \<times> u64 list) option" where
  "bench_hotpath sj lf junk1 junk2 tsc out = do {
     let pool = build_payload_pool lf;
     let cycles = replicate N_MEASURE 0;
     (ts1, s) \<leftarrow> warmup_loop sj pool junk1 [0..<N_WARMUP] (pipeline_new out);
     (ts2, s, cycles) \<leftarrow> measure_loop sj pool junk2 tsc [0..<N_MEASURE] (s, cycles);
     Some (ts1 @ ts2, s, cycles)
   }"

text \<open>
  \<open>print_histogram\<close>: the loop \<open>while (v >>= 1) ++b\<close>, the bucket of a sample, and the loop that counts.
\<close>

lemma drop_bit_1_less: "drop_bit 1 v \<noteq> 0 \<Longrightarrow> unat (drop_bit 1 v) < unat (v :: u64)"
proof -
  assume "drop_bit 1 v \<noteq> 0"
  then have "unat (drop_bit 1 v) \<noteq> 0" by (metis unsigned_eq_0_iff)
  moreover have "unat (drop_bit 1 v) = unat v div 2" by (simp add: unat_drop_bit_eq drop_bit_eq_div unat_div)
  ultimately show ?thesis by simp
qed

function bucket_loop :: "u64 \<Rightarrow> nat \<Rightarrow> nat" where
  "bucket_loop v b = (let v = drop_bit 1 v in if v \<noteq> 0 then bucket_loop v (Suc b) else b)"
  by pat_completeness auto
termination
  by (relation "measure (\<lambda>(v, b). unat v)") (auto simp del: One_nat_def dest: drop_bit_1_less)

declare bucket_loop.simps [simp del]

definition N_BUCKETS :: nat where "N_BUCKETS = 24"

definition bucket :: "u64 \<Rightarrow> nat" where
  "bucket c = (let b = bucket_loop (drop_bit 7 c) 0 in if b \<ge> N_BUCKETS then N_BUCKETS - 1 else b)"

definition histogram :: "u64 list \<Rightarrow> u64 list" where
  "histogram cycles = foldl (\<lambda>bs c. bs[bucket c := bs ! bucket c + 1]) (replicate N_BUCKETS 0) cycles"

text \<open>The range that the table prints for a bucket.\<close>

definition bucket_lo :: "nat \<Rightarrow> u64" where "bucket_lo i = push_bit i 128"

definition bucket_hi :: "nat \<Rightarrow> u64" where "bucket_hi i = push_bit 1 (bucket_lo i)"

section \<open>What one message does\<close>

text \<open>The reference: book, target and the list of actions, without bundles and buffers.\<close>

fun run_strategy :: "orderbook_delta list \<Rightarrow> feed_book \<times> order_manager \<Rightarrow> (action list \<times> feed_book \<times> order_manager) option" where
  "run_strategy [] x = Some ([], x)"
| "run_strategy (d # ds) (b, om) = do {
     b \<leftarrow> book_apply d b;
     (as, x) \<leftarrow> run_strategy ds (b, reconciled om (evaluate b));
     Some (reconcile_actions om (evaluate b) @ as, x)
   }"

text \<open>Levels may become negative in the benchmark, so only their size is bounded.\<close>

definition book_sane :: "int \<Rightarrow> feed_book \<Rightarrow> bool" where
  "book_sane m b \<longleftrightarrow> (\<forall>s. length (side_levels b s) = 100 \<and> (\<forall>i<100. \<bar>side_levels b s ! i\<bar> \<le> m) \<and> unat (side_best b s) < 100)"

lemma book_sane_new: "book_sane 0 Book_new"
  by (auto simp: book_sane_def Book_new_def side_levels_def side_best_def split: feed_side.splits)

lemma rescan_returns:
  "unat best < length ls \<Longrightarrow> \<exists>r. rescan ls best = Some r \<and> unat r < length ls"
proof (induction ls best rule: rescan.induct)
  case (1 ls best)
  show ?case
  proof (cases "best \<noteq> 0 \<and> ls ! unat best = 0")
    case True
    then have "unat (best - 1) < length ls" using unat_step_down [of best 0] 1(2) by auto
    then show ?thesis using 1 True by (subst rescan.simps) auto
  next
    case False
    then show ?thesis using 1(2) by (subst rescan.simps) auto
  qed
qed

lemma apply_sane:
  assumes "book_sane m b" "delta_wf d" "m + \<bar>d_delta d\<bar> \<le> INT32_MAX"
  shows "\<exists>b'. book_apply d b = Some b' \<and> book_sane (m + \<bar>d_delta d\<bar>) b'"
proof -
  let ?s = "d_side d" and ?i = "unat (d_price d)" and ?x = "d_delta d"
  let ?ls = "side_levels b ?s"
  let ?ls' = "?ls[?i := ?ls ! ?i + ?x]"
  have i: "?i < 100" using assms(2) by (simp add: delta_wf_def word_le_nat_alt)
  have ls: "length ?ls = 100" "\<And>j. j < 100 \<Longrightarrow> \<bar>?ls ! j\<bar> \<le> m" "unat (side_best b ?s) < 100" using assms(1) by (auto simp: book_sane_def)
  have "\<bar>?ls ! ?i\<bar> \<le> m" using ls(2) i by simp
  then have v: "\<not> (?ls ! ?i + ?x < INT32_MIN \<or> ?ls ! ?i + ?x > INT32_MAX)" "\<bar>?ls ! ?i + ?x\<bar> \<le> m + \<bar>?x\<bar>"
    using assms(3) by (auto simp: INT32_MIN_def INT32_MAX_def)
  have new: "\<bar>?ls' ! j\<bar> \<le> m + \<bar>?x\<bar>" if "j < 100" for j
    using ls(1) ls(2) [OF that] v(2) that by (cases "j = ?i") (auto simp: order_trans)
  have old: "\<bar>side_levels b s ! j\<bar> \<le> m + \<bar>?x\<bar>" if "j < 100" for s j
  proof -
    have "\<bar>side_levels b s ! j\<bar> \<le> m" using assms(1) that by (simp add: book_sane_def)
    then show ?thesis by simp
  qed
  have sane: "book_sane (m + \<bar>?x\<bar>) (set_side ?s ?ls' best b)" if "unat best < 100" for best
    using assms(1) that new old ls(1) by (auto simp: book_sane_def)
  obtain r where r: "rescan ?ls' (side_best b ?s) = Some r" "unat r < 100" using rescan_returns [of "side_best b ?s" ?ls'] ls by auto
  show ?thesis
    using sane [OF i] sane [OF r(2)] sane [OF ls(3)] r(1) v(1) ls(1) i by (auto simp: book_apply_def Let_def)
qed

lemma reconcile_prices:
  assumes "a \<in> set (reconcile_actions om (evaluate b))" "a_kind a = PLACE"
  shows "a_price a < 100"
proof -
  have act: "tq_active (evaluate b)" "a_price a = yes_price (evaluate b) \<or> a_price a = no_price (evaluate b)"
    using assms by (auto simp: reconcile_actions_def side_actions_def places_def split: if_splits)
  have "unat (side_best b FYes) + unat (side_best b FNo) \<le> 97" using act(1) by (simp add: evaluate_active)
  then have "unat (side_best b FYes + 1) < 100" "unat (side_best b FNo + 1) < 100" by (simp_all add: unat_word_ariths)
  then show ?thesis using act evaluate_prices [OF act(1)] by (auto simp: word_less_nat_alt)
qed

lemma emit_loop_ok:
  assumes t: "terminated t"
  shows "\<forall>k\<in>set ks. k < length (actions b) \<and> (a_kind (actions b ! k) = PLACE \<longrightarrow> a_price (actions b ! k) < 100) \<Longrightarrow> length out = 256 \<Longrightarrow>
    \<exists>out'. emit_loop b t ks out = Some (map (\<lambda>k. action_text (actions b ! k) (c_string t)) ks, out') \<and> length out' = 256"
proof (induction ks arbitrary: out)
  case (Cons k ks)
  let ?x = "action_text (actions b ! k) (c_string t)"
  have l: "length ?x \<le> 136" using length_action_text t by (simp add: terminated_def)
  have "serialize_action (actions b ! k) t out 256 = Some (length ?x, ?x @ drop (length ?x) out)"
    using serialize_writes [OF t, of out 256 "actions b ! k"] Cons.prems by (simp add: wrote_def)
  then show ?case using Cons.IH [of "?x @ drop (length ?x) out"] Cons.prems l by auto
qed simp

lemma hot_step_trade:
  assumes "book_sane m (pl_book s)" "length (pl_out s) = 256" "delta_wf d" "m + \<bar>d_delta d\<bar> \<le> INT32_MAX" "terminated t"
  obtains b out where "book_apply d (pl_book s) = Some b" "book_sane (m + \<bar>d_delta d\<bar>) b" "length out = 256"
    "hot_step t d s = Some (map (\<lambda>a. action_text a (c_string t)) (reconcile_actions (pl_om s) (evaluate b)),
       \<lparr>pl_book = b, pl_om = reconciled (pl_om s) (evaluate b), pl_out = out\<rparr>)"
proof -
  obtain b where b: "book_apply d (pl_book s) = Some b" "book_sane (m + \<bar>d_delta d\<bar>) b" using apply_sane [OF assms(1,3,4)] by blast
  obtain bu where bu: "reconcile (evaluate b) (pl_om s) = Some (bu, reconciled (pl_om s) (evaluate b))" "bundle_ok bu"
    "bundle_actions bu = reconcile_actions (pl_om s) (evaluate b)" using reconcile_ok by blast
  have n: "unat (cnt bu) \<le> length (actions bu)" using bu(2) by (simp add: bundle_ok_def)
  have as: "map (\<lambda>k. actions bu ! k) [0..<unat (cnt bu)] = reconcile_actions (pl_om s) (evaluate b)"
    unfolding bu(3) [symmetric] bundle_actions_def using n by (simp add: list_eq_iff_nth_eq)
  have "k < length (actions bu) \<and> (a_kind (actions bu ! k) = PLACE \<longrightarrow> a_price (actions bu ! k) < 100)" if "k \<in> set [0..<unat (cnt bu)]" for k
  proof -
    have "actions bu ! k \<in> set (reconcile_actions (pl_om s) (evaluate b))" unfolding as [symmetric] using that by simp
    then show ?thesis using reconcile_prices n that by auto
  qed
  then obtain out where "emit_actions bu t (pl_out s) = Some (map (\<lambda>k. action_text (actions bu ! k) (c_string t)) [0..<unat (cnt bu)], out)"
    "length out = 256"
    using emit_loop_ok [OF assms(5), of "[0..<unat (cnt bu)]" bu "pl_out s"] assms(2) unfolding emit_actions_def by blast
  moreover have "map (\<lambda>k. action_text (actions bu ! k) (c_string t)) [0..<unat (cnt bu)] =
      map (\<lambda>a. action_text a (c_string t)) (reconcile_actions (pl_om s) (evaluate b))"
    unfolding as [symmetric] by simp
  ultimately show thesis using that [OF b, of out] b(1) bu(1) by (simp add: hot_step_def)
qed

section \<open>The payloads\<close>

definition payload_fields :: "u32 \<Rightarrow> int \<Rightarrow> string \<Rightarrow> u64 \<Rightarrow> bool" where
  "payload_fields price delta sd ts \<longleftrightarrow> 1 \<le> price \<and> price \<le> 99 \<and> 1 \<le> \<bar>delta\<bar> \<and> \<bar>delta\<bar> \<le> 50 \<and>
     (sd = ''yes'' \<or> sd = ''no'') \<and> 1700000000000 \<le> ts \<and> ts < 1700001000000"

definition payload_ok :: "string \<Rightarrow> string \<Rightarrow> bool" where
  "payload_ok ticker p \<longleftrightarrow> (\<exists>seq price delta sd ts. p = payload_text ticker seq price delta sd ts \<and> payload_fields price delta sd ts)"

lemma xorshift_range_ok:
  assumes "lo \<le> hi" "unat hi - unat lo + 1 < 2 ^ 32"
  shows "lo \<le> fst (xorshift_range lo hi s)" "fst (xorshift_range lo hi s) \<le> hi"
proof -
  let ?n = "hi - lo + 1" and ?s = "xorshift_next s"
  have h: "unat lo \<le> unat hi" using assms(1) by (simp add: word_le_nat_alt)
  then have "unat (hi - lo) = unat hi - unat lo" using assms(1) by (simp add: unat_sub)
  then have n: "unat ?n = unat hi - unat lo + 1" using assms(2) by (simp add: unat_word_ariths)
  then have "unat (ucast ?n :: u64) = unat hi - unat lo + 1" using assms(2) by (simp add: unsigned_ucast_eq take_bit_eq_mod)
  then have "unat (?s mod ucast ?n) < unat hi - unat lo + 1" by (simp add: unat_mod)
  moreover have hb: "unat hi < 2 ^ 32" using unsigned_less [of hi, where ?'a = nat] by simp
  ultimately have "unat (ucast (?s mod ucast ?n) :: u32) < unat hi - unat lo + 1"
    by (simp add: unsigned_ucast_eq take_bit_eq_mod)
  then have "unat (lo + ucast (?s mod ucast ?n)) = unat lo + unat (ucast (?s mod ucast ?n) :: u32)"
    "unat lo + unat (ucast (?s mod ucast ?n) :: u32) \<le> unat hi"
    using h hb by (simp_all add: unat_word_ariths)
  then show "lo \<le> fst (xorshift_range lo hi s)" "fst (xorshift_range lo hi s) \<le> hi"
    by (simp_all add: xorshift_range_def Let_def word_le_nat_alt)
qed

lemma draw_delta_ok: "1 \<le> \<bar>fst (draw_delta lf s)\<bar>" "\<bar>fst (draw_delta lf s)\<bar> \<le> 50"
proof -
  have r: "1 \<le> uint (fst (xorshift_range 1 50 s))" "uint (fst (xorshift_range 1 50 s)) \<le> 50" for s
    using xorshift_range_ok [of 1 50 s] by (simp_all add: word_le_def)
  then show "1 \<le> \<bar>fst (draw_delta lf s)\<bar>" "\<bar>fst (draw_delta lf s)\<bar> \<le> 50"
    using r [of s] r [of "xorshift_next s"] by (simp_all add: draw_delta_def Let_def split_beta)
qed

lemma one_payload_ok: "payload_ok ticker (fst (one_payload lf ticker i s))"
proof -
  let ?p = "xorshift_range 1 99 s"
  let ?d = "draw_delta lf (snd ?p)"
  let ?s1 = "xorshift_next (snd ?d)"
  let ?s2 = "xorshift_next ?s1"
  let ?sd = "if ?s1 AND 1 \<noteq> 0 then ''yes'' else ''no''"
  have "unat (?s2 mod 1000000) < 1000000" by (simp add: unat_mod)
  then have "1700000000000 \<le> 1700000000000 + ?s2 mod 1000000 \<and> 1700000000000 + ?s2 mod 1000000 < 1700001000000"
    by (simp add: word_le_nat_alt word_less_nat_alt unat_word_ariths)
  then have "payload_fields (fst ?p) (fst ?d) ?sd (1700000000000 + ?s2 mod 1000000)"
    using xorshift_range_ok [of 1 99 s] draw_delta_ok [of lf "snd ?p"] by (simp add: payload_fields_def)
  moreover have "fst (one_payload lf ticker i s) =
      payload_text ticker (of_nat (i + 1)) (fst ?p) (fst ?d) ?sd (1700000000000 + ?s2 mod 1000000)"
    by (simp add: one_payload_def Let_def split_beta)
  ultimately show ?thesis unfolding payload_ok_def by blast
qed

lemma payload_loop_ok: "length (payload_loop lf ticker is s) = length is \<and> (\<forall>p\<in>set (payload_loop lf ticker is s). payload_ok ticker p)"
proof (induction "is" arbitrary: s)
  case (Cons i "is")
  then show ?case using one_payload_ok [of ticker lf i s] by (simp add: split_beta)
qed simp

text \<open>The texts fit the buffer of 256 characters that \<open>snprintf\<close> is given.\<close>

lemma payload_fits:
  assumes "payload_ok ticker p" "length ticker \<le> 31"
  shows "length p < 256"
proof -
  obtain seq price delta sd ts where p: "p = payload_text ticker seq price delta sd ts" "payload_fields price delta sd ts"
    using assms(1) by (auto simp: payload_ok_def)
  have "nat \<bar>delta\<bar> < 10 ^ 2" using p(2) by (simp add: payload_fields_def nat_less_iff)
  from length_dec [OF this] have "length (to_string delta) \<le> 3" by (auto simp: to_string_def)
  moreover have "length sd \<le> 3" using p(2) by (auto simp: payload_fields_def)
  ultimately show ?thesis
    using assms(2) length_dec_u64 [of seq] length_dec_u64 [of ts] length_dec_u32 [of price] by (simp add: p(1) payload_text_def)
qed

text \<open>
  What the programs rely on in \<open>simdjson\<close>: the lookups return the values that stand in the document.
\<close>

definition reads_payloads :: "('d, 'o) simdjson \<Rightarrow> string \<Rightarrow> bool" where
  "reads_payloads sj ticker \<longleftrightarrow>
    (\<forall>seq price delta sd ts. payload_fields price delta sd ts \<longrightarrow>
      (\<exists>doc msg. sj_iterate sj (payload_text ticker seq price delta sd ts) = Some doc \<and>
         doc_u64 sj doc ''sid'' = Some 1 \<and> doc_u64 sj doc ''seq'' = Some seq \<and> doc_object sj doc ''msg'' = Some msg \<and>
         obj_string sj msg ''market_ticker'' = Some ticker \<and> obj_u64 sj msg ''price'' = Some (ucast price) \<and>
         obj_i64 sj msg ''delta'' = Some delta \<and> obj_i64 sj msg ''ts'' = Some (uint ts) \<and> obj_string sj msg ''side'' = Some sd))"

lemma message_of_payload:
  assumes "reads_payloads sj ticker" "payload_fields price delta sd ts" "length ticker \<le> 31"
  shows "message_of sj (payload_text ticker seq price delta sd ts) =
    Some (1, seq, ticker, ucast price, delta, uint ts, if sd = ''yes'' then FYes else FNo)"
proof -
  obtain doc msg where L: "sj_iterate sj (payload_text ticker seq price delta sd ts) = Some doc"
      "doc_u64 sj doc ''sid'' = Some 1" "doc_u64 sj doc ''seq'' = Some seq" "doc_object sj doc ''msg'' = Some msg"
      "obj_string sj msg ''market_ticker'' = Some ticker" "obj_u64 sj msg ''price'' = Some (ucast price)"
      "obj_i64 sj msg ''delta'' = Some delta" "obj_i64 sj msg ''ts'' = Some (uint ts)" "obj_string sj msg ''side'' = Some sd"
    using assms(1,2) unfolding reads_payloads_def by blast
  have "unat (ucast price :: u64) = unat price"
    using unsigned_less [of price, where ?'a = nat] by (simp add: unsigned_ucast_eq take_bit_eq_mod)
  then have "1 \<le> (ucast price :: u64)" "(ucast price :: u64) \<le> 99" "INT32_MIN \<le> delta" "delta \<le> INT32_MAX" "sd = ''yes'' \<or> sd = ''no''"
    using assms(2) by (auto simp: payload_fields_def word_le_nat_alt INT32_MIN_def INT32_MAX_def)
  then show ?thesis using assms(3) unfolding message_of_def L bind.bind_lunit by auto
qed

lemma parse_payload:
  assumes "reads_payloads sj ticker" "payload_ok ticker p" "length ticker \<le> 31" "CHR 0x00 \<notin> set ticker" "length (d_ticker out) = 32"
  shows "\<exists>d. parse_orderbook_delta sj p out = (True, d) \<and> delta_wf d \<and> \<bar>d_delta d\<bar> \<le> 50 \<and> c_string (d_ticker d) = ticker"
proof -
  obtain seq price delta sd ts where p: "p = payload_text ticker seq price delta sd ts" "payload_fields price delta sd ts"
    using assms(2) by (auto simp: payload_ok_def)
  have c: "unat (ucast price :: u64) = unat price"
    using unsigned_less [of price, where ?'a = nat] by (simp add: unsigned_ucast_eq take_bit_eq_mod)
  then have "(ucast price :: u64) \<le> 99" using p(2) by (simp add: payload_fields_def word_le_nat_alt)
  from to_uint8_id [OF this] have u: "unat (to_uint8 (ucast price)) = unat price" using c by simp
  show ?thesis
    using parse_Some [OF message_of_payload [OF assms(1) p(2) assms(3)], of seq out] p u assms(3-5)
    by (auto simp: delta_wf_def copy_ticker_length copy_ticker_nul copy_ticker_string payload_fields_def word_le_nat_alt INT32_MIN_def INT32_MAX_def)
qed

section \<open>The single-threaded program computes the reference\<close>

definition deltas :: "('d, 'o) simdjson \<Rightarrow> string list \<Rightarrow> (nat \<Rightarrow> orderbook_delta) \<Rightarrow> nat list \<Rightarrow> orderbook_delta list" where
  "deltas sj pool junk is = map (\<lambda>i. snd (parse_orderbook_delta sj (pool ! (i mod N_PAYLOADS)) (junk i))) is"

abbreviation texts_of :: "action list \<Rightarrow> string list" where
  "texts_of as \<equiv> map (\<lambda>a. action_text a kTicker) as"

lemma trade_append:
  "run_strategy (ds @ es) x = do { (as, y) \<leftarrow> run_strategy ds x; (bs, z) \<leftarrow> run_strategy es y; Some (as @ bs, z) }"
proof (induction ds arbitrary: x)
  case Nil
  show ?case by (cases "run_strategy es x") auto
next
  case (Cons d ds)
  obtain b om where x: "x = (b, om)" by fastforce
  show ?case
  proof (cases "book_apply d b")
    case (Some b1)
    then show ?thesis using x Cons by (cases "run_strategy ds (b1, reconciled om (evaluate b1))") (auto split: bind_splits)
  qed (simp add: x)
qed

lemma kTicker_ok: "length kTicker \<le> 31" "CHR 0x00 \<notin> set kTicker" "terminated c_ticker" "c_string c_ticker = kTicker"
  by (simp_all add: kTicker_def c_ticker_def terminated_def c_string_def)

definition pool_ok :: "('d, 'o) simdjson \<Rightarrow> string list \<Rightarrow> (nat \<Rightarrow> orderbook_delta) \<Rightarrow> bool" where
  "pool_ok sj pool junk \<longleftrightarrow> length pool = N_PAYLOADS \<and> (\<forall>p\<in>set pool. payload_ok kTicker p) \<and> reads_payloads sj kTicker \<and>
     (\<forall>i. length (d_ticker (junk i)) = 32)"

lemma pool_delta:
  assumes "pool_ok sj pool junk"
  shows "i mod N_PAYLOADS < length pool" "delta_wf (snd (parse_orderbook_delta sj (pool ! (i mod N_PAYLOADS)) (junk i)))"
    "\<bar>d_delta (snd (parse_orderbook_delta sj (pool ! (i mod N_PAYLOADS)) (junk i)))\<bar> \<le> 50"
proof -
  show i: "i mod N_PAYLOADS < length pool" using assms by (simp add: pool_ok_def N_PAYLOADS_def)
  then have "payload_ok kTicker (pool ! (i mod N_PAYLOADS))" using assms by (simp add: pool_ok_def)
  from parse_payload [OF _ this kTicker_ok(1,2), of sj "junk i"] assms
  show "delta_wf (snd (parse_orderbook_delta sj (pool ! (i mod N_PAYLOADS)) (junk i)))"
    "\<bar>d_delta (snd (parse_orderbook_delta sj (pool ! (i mod N_PAYLOADS)) (junk i)))\<bar> \<le> 50"
    by (auto simp: pool_ok_def)
qed

lemma book_sane_mono: "book_sane m b \<Longrightarrow> m \<le> n \<Longrightarrow> book_sane n b"
  unfolding book_sane_def by (meson order_trans)

text \<open>At 50 contracts a message the levels stay within 32 bits for forty million messages.\<close>

lemma work_trade:
  "book_sane (50 * int k) (pl_book s) \<Longrightarrow> length (pl_out s) = 256 \<Longrightarrow> \<forall>d\<in>set ds. delta_wf d \<and> \<bar>d_delta d\<bar> \<le> 50 \<Longrightarrow>
    k + length ds \<le> 40000000 \<Longrightarrow>
    \<exists>as b om out. run_strategy ds (pl_book s, pl_om s) = Some (as, b, om) \<and>
      work_all (hot_step c_ticker) ds s = Some (texts_of as, \<lparr>pl_book = b, pl_om = om, pl_out = out\<rparr>) \<and>
      book_sane (50 * int (k + length ds)) b \<and> length out = 256"
proof (induction ds arbitrary: s k)
  case Nil
  then show ?case by (cases s) simp
next
  case (Cons d ds)
  have D: "delta_wf d" "\<bar>d_delta d\<bar> \<le> 50" using Cons.prems(3) by simp_all
  have m: "50 * int k + \<bar>d_delta d\<bar> \<le> INT32_MAX" using D(2) Cons.prems(4) by (simp add: INT32_MAX_def)
  obtain b out where B: "book_apply d (pl_book s) = Some b" "book_sane (50 * int k + \<bar>d_delta d\<bar>) b" "length out = 256"
    "hot_step c_ticker d s = Some (texts_of (reconcile_actions (pl_om s) (evaluate b)),
       \<lparr>pl_book = b, pl_om = reconciled (pl_om s) (evaluate b), pl_out = out\<rparr>)"
    using hot_step_trade [OF Cons.prems(1,2) D(1) m kTicker_ok(3)] kTicker_ok(4) by metis
  let ?s = "\<lparr>pl_book = b, pl_om = reconciled (pl_om s) (evaluate b), pl_out = out\<rparr>"
  have "book_sane (50 * int (Suc k)) (pl_book ?s)" using book_sane_mono [OF B(2)] D(2) by simp
  from Cons.IH [OF this] Cons.prems(3,4) B(3)
  obtain as b' om' out' where "run_strategy ds (b, pl_om ?s) = Some (as, b', om')"
    "work_all (hot_step c_ticker) ds ?s = Some (texts_of as, \<lparr>pl_book = b', pl_om = om', pl_out = out'\<rparr>)"
    "book_sane (50 * int (Suc k + length ds)) b'" "length out' = 256" by auto
  then show ?case using B(1,4) by simp
qed

lemma warmup_work:
  assumes "pool_ok sj pool junk"
  shows "warmup_loop sj pool junk is s = work_all (hot_step c_ticker) (deltas sj pool junk is) s"
  using pool_delta(1) [OF assms] by (induction "is" arbitrary: s) (simp_all add: deltas_def Let_def)

lemma warmup_trade:
  assumes "pool_ok sj pool junk" "book_sane (50 * int k) (pl_book s)" "length (pl_out s) = 256" "k + length is \<le> 40000000"
  shows "\<exists>as b om out. run_strategy (deltas sj pool junk is) (pl_book s, pl_om s) = Some (as, b, om) \<and>
      warmup_loop sj pool junk is s = Some (texts_of as, \<lparr>pl_book = b, pl_om = om, pl_out = out\<rparr>) \<and>
      book_sane (50 * int (k + length is)) b \<and> length out = 256"
proof -
  have "\<forall>d\<in>set (deltas sj pool junk is). delta_wf d \<and> \<bar>d_delta d\<bar> \<le> 50" "length (deltas sj pool junk is) = length is"
    using pool_delta(2,3) [OF assms(1)] by (auto simp: deltas_def)
  then show ?thesis using work_trade [OF assms(2,3), of "deltas sj pool junk is"] assms(4) by (simp add: warmup_work [OF assms(1)])
qed

lemma measure_warmup:
  "\<forall>i\<in>set is. i < length cycles \<Longrightarrow> measure_loop sj pool junk tsc is (s, cycles) =
    map_option (\<lambda>(ts, s'). (ts, s', foldl (\<lambda>cs i. cs[i := snd (tsc i) - fst (tsc i)]) cycles is)) (warmup_loop sj pool junk is s)"
proof (induction "is" arbitrary: s cycles)
  case (Cons i "is")
  then show ?case by (simp add: Let_def option.map_comp split: bind_split option.split)
qed simp

lemma foldl_update: "foldl (\<lambda>cs i. cs[i := f i]) cs [0..<n] = map f [0..<n] @ drop n cs" if "n \<le> length cs"
  using that
proof (induction n)
  case (Suc n)
  then have "(map f [0..<n] @ drop n cs)[n := f n] = map f [0..<n] @ (drop n cs)[0 := f n]" by (simp add: list_update_append)
  also have "(drop n cs)[0 := f n] = f n # drop (Suc n) cs" using Suc.prems by (simp add: Cons_nth_drop_Suc [symmetric])
  finally show ?case using Suc by simp
qed simp

text \<open>(C17) The single-threaded program is free of undefined behaviour and emits the right text. If the JSON
  library returns the values that stand in a document, every generated payload parses; through all
  105000 messages no index leaves the book, no level overflows, every bundle fits its array and
  every text its buffer; the texts are those of the actions that the reference computes, each can be
  decoded, and the table of cycle counts is completely filled.\<close>

theorem bench_hotpath_refines:
  assumes "reads_payloads sj kTicker" "\<And>i. length (d_ticker (junk1 i)) = 32" "\<And>i. length (d_ticker (junk2 i)) = 32" "length out = 256"
  shows "\<exists>as b om out'.
    run_strategy (deltas sj (build_payload_pool lf) junk1 [0..<N_WARMUP] @ deltas sj (build_payload_pool lf) junk2 [0..<N_MEASURE])
      (Book_new, OrderManager_new) = Some (as, b, om) \<and>
    bench_hotpath sj lf junk1 junk2 tsc out =
      Some (map (\<lambda>a. action_text a kTicker) as, \<lparr>pl_book = b, pl_om = om, pl_out = out'\<rparr>,
        map (\<lambda>i. snd (tsc i) - fst (tsc i)) [0..<N_MEASURE]) \<and>
    map (\<lambda>a. decode_action (action_text a kTicker)) as = map (\<lambda>a. Some (wire_of a kTicker)) as"
proof -
  let ?pool = "build_payload_pool lf"
  have P: "pool_ok sj ?pool junk1" "pool_ok sj ?pool junk2"
    using payload_loop_ok [of lf kTicker "[0..<N_PAYLOADS]"] assms(1-3) by (simp_all add: pool_ok_def build_payload_pool_def)
  have s0: "book_sane (50 * int 0) (pl_book (pipeline_new out))" "length (pl_out (pipeline_new out)) = 256"
    using book_sane_new assms(4) by (simp_all add: pipeline_new_def)
  obtain as1 b1 om1 out1 where W: "run_strategy (deltas sj ?pool junk1 [0..<N_WARMUP]) (Book_new, OrderManager_new) = Some (as1, b1, om1)"
    "warmup_loop sj ?pool junk1 [0..<N_WARMUP] (pipeline_new out) = Some (texts_of as1, \<lparr>pl_book = b1, pl_om = om1, pl_out = out1\<rparr>)"
    "book_sane (50 * int N_WARMUP) b1" "length out1 = 256"
    using warmup_trade [OF P(1) s0, of "[0..<N_WARMUP]"] by (auto simp: N_WARMUP_def pipeline_new_def)
  let ?s1 = "\<lparr>pl_book = b1, pl_om = om1, pl_out = out1\<rparr>"
  obtain as2 b2 om2 out2 where M: "run_strategy (deltas sj ?pool junk2 [0..<N_MEASURE]) (b1, om1) = Some (as2, b2, om2)"
    "warmup_loop sj ?pool junk2 [0..<N_MEASURE] ?s1 = Some (texts_of as2, \<lparr>pl_book = b2, pl_om = om2, pl_out = out2\<rparr>)"
    using warmup_trade [OF P(2), of N_WARMUP ?s1 "[0..<N_MEASURE]"] W(3,4) by (auto simp: N_WARMUP_def N_MEASURE_def)
  have "measure_loop sj ?pool junk2 tsc [0..<N_MEASURE] (?s1, replicate N_MEASURE 0) =
      Some (texts_of as2, \<lparr>pl_book = b2, pl_om = om2, pl_out = out2\<rparr>, map (\<lambda>i. snd (tsc i) - fst (tsc i)) [0..<N_MEASURE])"
    using measure_warmup [of "[0..<N_MEASURE]" "replicate N_MEASURE 0" sj ?pool junk2 tsc ?s1] M(2)
      foldl_update [of N_MEASURE "replicate N_MEASURE (0::u64)" "\<lambda>i. snd (tsc i) - fst (tsc i)"] by simp
  moreover have \<open>CHR 0x22 \<notin> set kTicker\<close> by (simp add: kTicker_def)
  ultimately show ?thesis
    using W(1,2) M(1) decode_action_text [of kTicker] by (simp add: bench_hotpath_def Let_def trade_append)
qed

section \<open>A reader of the payloads\<close>

text \<open>An instance of the JSON library that reads exactly these documents, to apply the properties to.\<close>

definition read_int :: "string \<Rightarrow> (int \<times> string) option" where
  "read_int s = (case strip ''-'' s of
     Some r \<Rightarrow> map_option (\<lambda>(n, r). (- int n, r)) (read_dec r)
   | None \<Rightarrow> map_option (\<lambda>(n, r). (int n, r)) (read_dec s))"

type_synonym payload = "u64 \<times> string \<times> u64 \<times> int \<times> string \<times> int"

definition decode_payload :: "string \<Rightarrow> payload option" where
\<open>decode_payload s = do {
    r \<leftarrow> strip ''{"type":"orderbook_delta","sid":1,"seq":'' s; (seq, r) \<leftarrow> read_dec r;
    r \<leftarrow> strip '',"msg":{"market_ticker":"'' r; let (t, r) = read_quoted r;
    r \<leftarrow> strip ''","price":'' r; (price, r) \<leftarrow> read_dec r;
    r \<leftarrow> strip '',"delta":'' r; (delta, r) \<leftarrow> read_int r;
    r \<leftarrow> strip '',"side":"'' r; let (sd, r) = read_quoted r;
    r \<leftarrow> strip ''","ts":'' r; (ts, r) \<leftarrow> read_dec r;
    if r = ''}}'' then Some (of_nat seq, t, of_nat price, delta, sd, int ts) else None
  }\<close>

definition payload_json :: "(payload, payload) simdjson" where
  "payload_json = \<lparr>sj_iterate = decode_payload,
     doc_u64 = (\<lambda>(seq, _) k. if k = ''sid'' then Some 1 else if k = ''seq'' then Some seq else None),
     doc_object = (\<lambda>doc k. if k = ''msg'' then Some doc else None),
     obj_string = (\<lambda>(_, t, _, _, sd, _) k. if k = ''market_ticker'' then Some t else if k = ''side'' then Some sd else None),
     obj_u64 = (\<lambda>(_, _, price, _) k. if k = ''price'' then Some price else None),
     obj_i64 = (\<lambda>(_, _, _, delta, _, ts) k. if k = ''delta'' then Some delta else if k = ''ts'' then Some ts else None)\<rparr>"

lemma read_int_then:
  assumes "s \<noteq> []" "\<not> is_digit (hd s)"
  shows "read_int (to_string d @ s) = Some (d, s)"
proof (cases "d < 0")
  case True
  then show ?thesis by (simp add: read_int_def to_string_def strip_def read_dec_then [OF assms])
next
  case False
  obtain c cs where "dec (nat d) = c # cs" "is_digit c" using dec_digits [of "nat d"] by (cases "dec (nat d)") auto
  then have "strip ''-'' (dec (nat d) @ s) = None" using is_digit_neq(1) by (auto simp: strip_def)
  then show ?thesis using False by (simp add: read_int_def to_string_def read_dec_then [OF assms])
qed

lemma read_quoted_then: \<open>CHR 0x22 \<notin> set t \<Longrightarrow> s \<noteq> [] \<Longrightarrow> hd s = CHR 0x22 \<Longrightarrow> read_quoted (t @ s) = (t, s)\<close>
  by (cases s) (simp_all add: read_quoted_append)

lemma decode_payload_text:
  assumes \<open>CHR 0x22 \<notin> set t\<close> \<open>CHR 0x22 \<notin> set sd\<close>
  shows "decode_payload (payload_text t seq price delta sd ts) = Some (seq, t, ucast price, delta, sd, uint ts)"
proof -
  let ?r6 = "''}}''"
  let ?r5 = \<open>''","ts":'' @ dec (unat ts) @ ?r6\<close>
  let ?r4 = \<open>'',"side":"'' @ sd @ ?r5\<close>
  let ?r3 = \<open>'',"delta":'' @ to_string delta @ ?r4\<close>
  let ?r2 = \<open>''","price":'' @ dec (unat price) @ ?r3\<close>
  let ?r1 = \<open>'',"msg":{"market_ticker":"'' @ t @ ?r2\<close>
  have p: "payload_text t seq price delta sd ts = ''{\"type\":\"orderbook_delta\",\"sid\":1,\"seq\":'' @ dec (unat seq) @ ?r1"
    by (simp add: payload_text_def)
  have d: "read_dec (dec n @ ?r1) = Some (n, ?r1)" "read_dec (dec n @ ?r3) = Some (n, ?r3)" "read_dec (dec n @ ?r6) = Some (n, ?r6)" for n
    by (rule read_dec_then; simp add: not_digits)+
  have i: "read_int (to_string delta @ ?r4) = Some (delta, ?r4)" by (rule read_int_then; simp add: not_digits)
  have q: "read_quoted (t @ ?r2) = (t, ?r2)" "read_quoted (sd @ ?r5) = (sd, ?r5)" by (rule read_quoted_then; simp add: assms)+
  have u: "of_nat (unat price) = (ucast price :: u64)" by (simp add: unsigned_ucast_eq word_eq_iff_unsigned take_bit_eq_mod unsigned_of_nat)
  show ?thesis
    unfolding decode_payload_def p strip_append bind.bind_lunit d prod.case q Let_def i by (simp add: u)
qed

lemma payload_json_reads: "reads_payloads payload_json kTicker"
proof -
  have \<open>CHR 0x22 \<notin> set kTicker\<close> by (simp add: kTicker_def)
  then have "decode_payload (payload_text kTicker seq price delta sd ts) = Some (seq, kTicker, ucast price, delta, sd, uint ts)"
    if "payload_fields price delta sd ts" for seq price delta sd ts
    using that by (intro decode_payload_text) (auto simp: payload_fields_def)
  then show ?thesis by (simp add: reads_payloads_def payload_json_def)
qed

theorem bench_hotpath_refines_witness:
  "\<exists>as b om out'. bench_hotpath payload_json True (\<lambda>_. blank_delta) (\<lambda>_. blank_delta) (\<lambda>i. (5, 25)) (replicate 256 (CHR 0x00)) =
     Some (map (\<lambda>a. action_text a kTicker) as, \<lparr>pl_book = b, pl_om = om, pl_out = out'\<rparr>, map (\<lambda>i. 20) [0..<N_MEASURE])"
  using bench_hotpath_refines [OF payload_json_reads, of "\<lambda>_. blank_delta" "\<lambda>_. blank_delta" "replicate 256 (CHR 0x00)" True "\<lambda>i. (5, 25)"]
  by (auto simp: blank_delta_def)

section \<open>The histogram\<close>

lemma bucket_loop_ok:
  "unat v < 2 ^ 64 \<Longrightarrow> v \<noteq> 0 \<Longrightarrow> \<exists>k. bucket_loop v b = b + k \<and> 2 ^ k \<le> unat v \<and> unat v < 2 ^ Suc k"
proof (induction v b rule: bucket_loop.induct)
  case (1 v b)
  let ?v = "drop_bit 1 v"
  have u: "unat ?v = unat v div 2" by (simp add: unat_drop_bit_eq drop_bit_eq_div unat_div)
  show ?case
  proof (cases "?v = 0")
    case True
    then have "unat v div 2 = 0" using u by simp
    moreover have "unat v \<noteq> 0" using 1(3) by (metis unsigned_eq_0_iff)
    ultimately have "unat v = 1" by simp
    then show ?thesis using True by (subst bucket_loop.simps) (simp add: Let_def)
  next
    case False
    then obtain k where k: "bucket_loop ?v (Suc b) = Suc b + k" "2 ^ k \<le> unat ?v" "unat ?v < 2 ^ Suc k"
      using 1(1) [OF refl] unsigned_less [of ?v, where ?'a = nat] by auto
    then have "2 ^ Suc k \<le> unat v" "unat v < 2 ^ Suc (Suc k)" unfolding u by simp_all
    then show ?thesis using k(1) False by (subst bucket_loop.simps) (auto simp: Let_def intro!: exI [of _ "Suc k"])
  qed
qed

text \<open>The bucket a sample belongs to by the printed table: the last one is open above, the first one
  takes everything below.\<close>

definition in_bucket :: "nat \<Rightarrow> u64 \<Rightarrow> bool" where
  "in_bucket i c \<longleftrightarrow> (i = 0 \<or> bucket_lo i \<le> c) \<and> (i = N_BUCKETS - 1 \<or> c < bucket_hi i)"

lemma unat_bucket_lo: "i < 24 \<Longrightarrow> unat (bucket_lo i) = 2 ^ (i + 7)" "i < 24 \<Longrightarrow> unat (bucket_hi i) = 2 ^ (i + 8)"
proof -
  assume i: "i < 24"
  have p: "push_bit k (2 ^ j :: u64) = 2 ^ (j + k)" for j k by (simp add: push_bit_eq_mult power_add)
  have e: "(128 :: u64) = 2 ^ 7" by simp
  have "bucket_lo i = 2 ^ (7 + i)" "bucket_hi i = 2 ^ (8 + i)"
    unfolding bucket_hi_def bucket_lo_def e p by (simp_all add: push_bit_eq_mult power_add)
  moreover have "unat (2 ^ k :: u64) = 2 ^ k" if "k < 64" for k
  proof -
    have "(2 :: nat) ^ k < 2 ^ 64" using that by (rule power_strict_increasing) simp
    moreover have "unat (of_nat m :: u64) = m" if "m < 2 ^ 64" for m using that by (simp add: unat_of_nat)
    ultimately have "unat (of_nat (2 ^ k) :: u64) = 2 ^ k" by blast
    then show ?thesis by simp
  qed
  ultimately show "unat (bucket_lo i) = 2 ^ (i + 7)" "unat (bucket_hi i) = 2 ^ (i + 8)" using i by (simp_all add: add.commute)
qed

lemma bucket_in: "bucket c < N_BUCKETS \<and> in_bucket (bucket c) c"
proof (cases "drop_bit 7 c = 0")
  case True
  have "unat (drop_bit 7 c) = unat c div 128" by (simp add: unat_drop_bit_eq drop_bit_eq_div unat_div)
  then have "unat c < 128" using True by (simp add: div_eq_0_iff)
  moreover have "bucket c = 0" using True by (simp add: bucket_def N_BUCKETS_def bucket_loop.simps [of 0])
  ultimately show ?thesis using unat_bucket_lo(2) [of 0] by (simp add: in_bucket_def N_BUCKETS_def word_less_nat_alt)
next
  case False
  have u: "unat (drop_bit 7 c) = unat c div 128" by (simp add: unat_drop_bit_eq drop_bit_eq_div unat_div)
  obtain k where k: "bucket_loop (drop_bit 7 c) 0 = k" "2 ^ k \<le> unat c div 128" "unat c div 128 < 2 ^ Suc k"
    using bucket_loop_ok [OF _ False, of 0] unsigned_less [of "drop_bit 7 c", where ?'a = nat] u by auto
  then have c: "2 ^ (k + 7) \<le> unat c" "unat c < 2 ^ (k + 8)"
    by (simp_all add: power_add div_less_iff_less_mult less_eq_div_iff_mult_less_eq)
  show ?thesis
  proof (cases "k \<ge> N_BUCKETS")
    case True
    have "(2 :: nat) ^ 30 \<le> 2 ^ (k + 7)" using True by (intro power_increasing) (simp_all add: N_BUCKETS_def)
    then have "2 ^ (23 + 7) \<le> unat c" using c(1) by simp
    then show ?thesis using True k(1) unat_bucket_lo(1) [of 23] by (simp add: bucket_def Let_def in_bucket_def N_BUCKETS_def word_le_nat_alt)
  next
    case False
    then show ?thesis
      using k(1) c unat_bucket_lo [of k] by (simp add: bucket_def Let_def in_bucket_def N_BUCKETS_def word_le_nat_alt word_less_nat_alt)
  qed
qed

lemma in_bucket_unique:
  assumes "in_bucket i c" "in_bucket j c" "i < N_BUCKETS" "j < N_BUCKETS"
  shows "i = j"
proof -
  have "\<not> i < j" if "in_bucket i c" "in_bucket j c" "j < 24" for i j
  proof
    assume "i < j"
    then have "unat c < 2 ^ (i + 8)" "2 ^ (j + 7) \<le> unat c"
      using that unat_bucket_lo [of i] unat_bucket_lo [of j] by (auto simp: in_bucket_def N_BUCKETS_def word_le_nat_alt word_less_nat_alt)
    moreover have "(2 :: nat) ^ (i + 8) \<le> 2 ^ (j + 7)" using \<open>i < j\<close> by (intro power_increasing) simp_all
    ultimately show False by linarith
  qed
  then show ?thesis using assms by (metis N_BUCKETS_def nat_neq_iff)
qed

lemma histogram_count:
  fixes hs :: "u64 list"
  assumes "length hs = N_BUCKETS" "i < N_BUCKETS"
  shows "foldl (\<lambda>bs c. bs[bucket c := bs ! bucket c + 1]) hs cs ! i = hs ! i + of_nat (length (filter (\<lambda>c. bucket c = i) cs))"
  using assms(1)
proof (induction cs arbitrary: hs)
  case (Cons c cs)
  have "bucket c < length hs" using bucket_in Cons.prems by simp
  then show ?case using Cons assms(2) by (simp add: nth_list_update add.assoc)
qed simp

text \<open>The histogram is exact: for every list of fewer than \<open>2^64\<close> samples the shift loop sorts each sample
  into the one bucket whose printed range contains it (the first bucket also takes what is below its
  range, the last one what is above), and every bucket counts its samples.\<close>

theorem histogram_exact:
  assumes "length cycles < 2 ^ 64" "i < N_BUCKETS"
  shows "unat (histogram cycles ! i) = length (filter (in_bucket i) cycles) \<and> (\<exists>!k. k < N_BUCKETS \<and> in_bucket k c)"
proof -
  have e: "bucket c = i \<longleftrightarrow> in_bucket i c" for c using bucket_in [of c] in_bucket_unique [OF _ _ _ assms(2), of "bucket c" c] by blast
  have "length (filter (\<lambda>c. bucket c = i) cycles) < 2 ^ 64" using length_filter_le [of _ cycles] assms(1) by (rule le_less_trans)
  then have "unat (of_nat (length (filter (\<lambda>c. bucket c = i) cycles)) :: u64) = length (filter (\<lambda>c. bucket c = i) cycles)"
    by (simp add: unat_of_nat)
  then have "unat (histogram cycles ! i) = length (filter (\<lambda>c. bucket c = i) cycles)"
    using histogram_count [of "replicate N_BUCKETS 0" i cycles] assms(2) by (simp add: histogram_def)
  moreover have "\<exists>!k. k < N_BUCKETS \<and> in_bucket k c" using bucket_in [of c] in_bucket_unique [of _ c] by blast
  ultimately show ?thesis unfolding e by simp
qed

theorem histogram_exact_witness:
  "unat (histogram [100, 130, 300, 5000000000] ! 0) = 2 \<and> unat (histogram [100, 130, 300, 5000000000] ! 23) = 1"
proof -
  have b: "bucket_hi 0 = 256" "bucket_lo 23 = 1073741824" by (simp_all add: bucket_hi_def bucket_lo_def push_bit_eq_mult)
  show ?thesis
    using histogram_exact [of "[100, 130, 300, 5000000000]" 0] histogram_exact [of "[100, 130, 300, 5000000000]" 23]
    by (simp add: in_bucket_def N_BUCKETS_def b)
qed

text \<open>(C32) Every generated payload is well formed: the pool has 1024 texts, none is cut off by the buffer of
  256 characters, and each parses to a delta for the ticker with a price of 1 to 99 and between 1 and
  50 contracts, in which every field has the range of its type.\<close>

theorem payload_pool_wf:
  assumes "reads_payloads sj kTicker" "length (d_ticker out) = 32" "i < 1024"
  shows "length (build_payload_pool lf) = 1024 \<and> length (build_payload_pool lf ! i) < 256 \<and>
    (\<exists>d. parse_orderbook_delta sj (build_payload_pool lf ! i) out = (True, d) \<and> delta_wf d \<and>
      \<bar>d_delta d\<bar> \<le> 50 \<and> c_string (d_ticker d) = kTicker)"
proof -
  have l: "length (build_payload_pool lf) = 1024" and p: "payload_ok kTicker (build_payload_pool lf ! i)"
    using payload_loop_ok [of lf kTicker "[0..<N_PAYLOADS]" "0xDEADBEEFCAFEBABE"] assms(3) by (simp_all add: build_payload_pool_def N_PAYLOADS_def)
  show ?thesis using l payload_fits [OF p kTicker_ok(1)] parse_payload [OF assms(1) p kTicker_ok(1,2) assms(2)] by blast
qed

theorem payload_pool_wf_witness:
  "\<exists>d. parse_orderbook_delta payload_json (build_payload_pool True ! 7) blank_delta = (True, d) \<and> delta_wf d"
  using payload_pool_wf [OF payload_json_reads, of blank_delta 7 True] by (auto simp: blank_delta_def)

end
