(* ===== verification/Hot_Pipe.thy ===== *)
theory Hot_Pipe
  imports Hot_Path Spsc_Queue
begin

text \<open>
  The two-threaded benchmark \<open>bench/bench_hotpath_pipe.cpp\<close>: a producer parses payloads and pushes
  them through the ring buffer, a consumer runs the hot path on them, and the main thread arms the
  allocation counter once both have warmed up. The three threads are a step relation; an operation
  of the queue is one step (its accesses are interleaved in \<open>Spsc_Queue\<close>). What the consumer does
  with a message is a parameter with a contract (\<open>message_worker\<close>), because the benchmarks differ in it.
\<close>

section \<open>The threads\<close>

record hot_msg =
  hm_delta :: orderbook_delta
  hm_tsc :: u64

text \<open>Where a worker is: at the head of its loop, spinning at the barrier, or spinning at the queue; and
  where \<open>main\<close> is: waiting for the workers to warm up, waiting for them to end, or past that.\<close>

datatype thread_pc = At_head | At_barrier | At_queue

datatype main_pc = M_spin | M_join | M_done

record 's pipe =
  pq :: "hot_msg spsc"
  p_pc :: thread_pc
  p_i :: nat
  p_msg :: hot_msg
  c_pc :: thread_pc
  c_i :: nat
  c_work :: "(string list \<times> 's) option"
  g_latencies :: "u64 list"
  threads_ready :: nat
  alloc_armed :: bool
  m_pc :: main_pc

text \<open>The program: its JSON library, its payloads and which of them a message is read from, its work, and
  the constants \<open>N_WARMUP\<close>, \<open>N_TOTAL\<close> and \<open>QUEUE_CAP\<close>.\<close>

record ('d, 'o, 's) pipe_program =
  pp_sj :: "('d, 'o) simdjson"
  pp_pool :: "string list"
  pp_index :: "nat \<Rightarrow> nat"
  pp_work :: "orderbook_delta \<Rightarrow> 's \<Rightarrow> (string list \<times> 's) option"
  n_warmup :: nat
  n_total :: nat
  queue_cap :: u64

definition may_pass :: "('d, 'o, 's) pipe_program \<Rightarrow> thread_pc \<Rightarrow> nat \<Rightarrow> bool \<Rightarrow> bool" where
  "may_pass pp pc i armed \<longleftrightarrow> i < n_total pp \<and> (pc = At_head \<and> i \<noteq> n_warmup pp \<or> pc = At_barrier \<and> armed)"

text \<open>What the consumer does with a message it has taken; \<open>None\<close> once undefined behaviour has occurred.\<close>

definition take_work ::
    "(orderbook_delta \<Rightarrow> 's \<Rightarrow> (string list \<times> 's) option) \<Rightarrow> hot_msg \<Rightarrow> (string list \<times> 's) option \<Rightarrow> (string list \<times> 's) option" where
  "take_work work m r = do {
     (ts, w) \<leftarrow> r;
     (ts', w) \<leftarrow> work (hm_delta m) w;
     Some (ts @ ts', w)
   }"

inductive producer_step :: "('d, 'o, 's) pipe_program \<Rightarrow> 's pipe \<Rightarrow> 's pipe \<Rightarrow> bool" for pp where
  p_arrive: "p_pc s = At_head \<Longrightarrow> p_i s < n_total pp \<Longrightarrow> p_i s = n_warmup pp \<Longrightarrow>
    producer_step pp s (s\<lparr>threads_ready := threads_ready s + 1, p_pc := At_barrier\<rparr>)"
| p_parse: "may_pass pp (p_pc s) (p_i s) (alloc_armed s) \<Longrightarrow> pp_index pp (p_i s) < length (pp_pool pp) \<Longrightarrow>
    d = snd (parse_orderbook_delta (pp_sj pp) (pp_pool pp ! pp_index pp (p_i s)) (hm_delta (p_msg s))) \<Longrightarrow>
    producer_step pp s (s\<lparr>p_msg := \<lparr>hm_delta = d, hm_tsc = t0\<rparr>, p_pc := At_queue\<rparr>)"
| p_push: "p_pc s = At_queue \<Longrightarrow> try_push (queue_cap pp) (p_msg s) (pq s) = (True, q) \<Longrightarrow>
    producer_step pp s (s\<lparr>pq := q, p_i := Suc (p_i s), p_pc := At_head\<rparr>)"
| p_spin: "p_pc s = At_queue \<Longrightarrow> try_push (queue_cap pp) (p_msg s) (pq s) = (False, q) \<Longrightarrow> producer_step pp s (s\<lparr>pq := q\<rparr>)"

inductive consumer_step :: "('d, 'o, 's) pipe_program \<Rightarrow> 's pipe \<Rightarrow> 's pipe \<Rightarrow> bool" for pp where
  c_arrive: "c_pc s = At_head \<Longrightarrow> c_i s < n_total pp \<Longrightarrow> c_i s = n_warmup pp \<Longrightarrow>
    consumer_step pp s (s\<lparr>threads_ready := threads_ready s + 1, c_pc := At_barrier\<rparr>)"
| c_enter: "may_pass pp (c_pc s) (c_i s) (alloc_armed s) \<Longrightarrow> consumer_step pp s (s\<lparr>c_pc := At_queue\<rparr>)"
| c_take: "c_pc s = At_queue \<Longrightarrow> try_pop (queue_cap pp) (pq s) = (Some m, q) \<Longrightarrow>
    (timed \<longleftrightarrow> n_warmup pp \<le> c_i s) \<Longrightarrow> j = c_i s - n_warmup pp \<Longrightarrow>
    r = (if timed \<and> length (g_latencies s) \<le> j then None else take_work (pp_work pp) m (c_work s)) \<Longrightarrow>
    consumer_step pp s (s\<lparr>pq := q, c_work := r, g_latencies := if timed then (g_latencies s)[j := end_tsc - hm_tsc m] else g_latencies s,
      c_i := Suc (c_i s), c_pc := At_head\<rparr>)"
| c_spin: "c_pc s = At_queue \<Longrightarrow> try_pop (queue_cap pp) (pq s) = (None, q) \<Longrightarrow> consumer_step pp s (s\<lparr>pq := q\<rparr>)"

inductive main_step :: "('d, 'o, 's) pipe_program \<Rightarrow> 's pipe \<Rightarrow> 's pipe \<Rightarrow> bool" for pp where
  m_arm: "m_pc s = M_spin \<Longrightarrow> 2 \<le> threads_ready s \<Longrightarrow> main_step pp s (s\<lparr>alloc_armed := True, m_pc := M_join\<rparr>)"
| m_finish: "m_pc s = M_join \<Longrightarrow> p_i s = n_total pp \<Longrightarrow> c_i s = n_total pp \<Longrightarrow>
    main_step pp s (s\<lparr>alloc_armed := False, m_pc := M_done\<rparr>)"

inductive pipe_step :: "('d, 'o, 's) pipe_program \<Rightarrow> 's pipe \<Rightarrow> 's pipe \<Rightarrow> bool" for pp where
  prod: "producer_step pp s s' \<Longrightarrow> pipe_step pp s s'"
| cons: "consumer_step pp s s' \<Longrightarrow> pipe_step pp s s'"
| main: "main_step pp s s' \<Longrightarrow> pipe_step pp s s'"

definition pipe_start :: "hot_msg list \<Rightarrow> hot_msg \<Rightarrow> 's \<Rightarrow> u64 list \<Rightarrow> 's pipe" where
  "pipe_start data msg w lat = \<lparr>pq = SPSCQueue_new data, p_pc = At_head, p_i = 0, p_msg = msg, c_pc = At_head, c_i = 0,
     c_work = Some ([], w), g_latencies = lat, threads_ready = 0, alloc_armed = False, m_pc = M_spin\<rparr>"

inductive pipe_reach :: "('d, 'o, 's) pipe_program \<Rightarrow> 's pipe \<Rightarrow> 's pipe \<Rightarrow> bool" for pp s0 where
  start: "pipe_reach pp s0 s0"
| step: "pipe_reach pp s0 s \<Longrightarrow> pipe_step pp s s' \<Longrightarrow> pipe_reach pp s0 s'"

text \<open>The constants and the work of \<open>bench_hotpath_pipe\<close>.\<close>

definition bench_hotpath_pipe :: "('d, 'o) simdjson \<Rightarrow> bool \<Rightarrow> ('d, 'o, pipeline) pipe_program" where
  "bench_hotpath_pipe sj lf = \<lparr>pp_sj = sj, pp_pool = build_payload_pool lf,
     pp_index = (\<lambda>i. i mod N_PAYLOADS), pp_work = hot_step c_ticker, n_warmup = 10000, n_total = 1010000, queue_cap = 1024\<rparr>"

section \<open>Invariant\<close>

text \<open>The delta that message \<open>n - 1\<close> carries: the structure is reused, so each parse starts from the last one.\<close>

fun delta_at :: "('d, 'o, 's) pipe_program \<Rightarrow> orderbook_delta \<Rightarrow> nat \<Rightarrow> orderbook_delta" where
  "delta_at pp d 0 = d"
| "delta_at pp d (Suc n) = snd (parse_orderbook_delta (pp_sj pp) (pp_pool pp ! pp_index pp n) (delta_at pp d n))"

definition messages :: "('d, 'o, 's) pipe_program \<Rightarrow> orderbook_delta \<Rightarrow> nat \<Rightarrow> orderbook_delta list" where
  "messages pp d n = map (\<lambda>i. delta_at pp d (Suc i)) [0..<n]"

definition arrived :: "('d, 'o, 's) pipe_program \<Rightarrow> thread_pc \<Rightarrow> nat \<Rightarrow> bool" where
  "arrived pp pc i \<longleftrightarrow> n_warmup pp < i \<or> i = n_warmup pp \<and> pc \<noteq> At_head"

definition passed :: "('d, 'o, 's) pipe_program \<Rightarrow> thread_pc \<Rightarrow> nat \<Rightarrow> bool" where
  "passed pp pc i \<longleftrightarrow> n_warmup pp < i \<or> i = n_warmup pp \<and> pc = At_queue"

text \<open>The data that flows, with the list of all messages pushed so far.\<close>

definition flow_ok :: "('d, 'o, 's) pipe_program \<Rightarrow> orderbook_delta \<Rightarrow> 's \<Rightarrow> 's pipe \<Rightarrow> hot_msg list \<Rightarrow> bool" where
  "flow_ok pp d0 w0 s ms \<longleftrightarrow> sq_ok (queue_cap pp) (pq s) \<and> sq_contents (queue_cap pp) (pq s) = drop (c_i s) ms \<and>
     length ms = p_i s \<and> c_i s \<le> p_i s \<and> p_i s \<le> n_total pp \<and> map hm_delta ms = messages pp d0 (p_i s) \<and>
     hm_delta (p_msg s) = delta_at pp d0 (if p_pc s = At_queue then Suc (p_i s) else p_i s) \<and>
     c_work s = work_all (pp_work pp) (messages pp d0 (c_i s)) w0 \<and> length (g_latencies s) = n_total pp - n_warmup pp"

text \<open>One worker and the barrier, and the barrier with the counter.\<close>

definition thread_ok :: "('d, 'o, 's) pipe_program \<Rightarrow> thread_pc \<Rightarrow> nat \<Rightarrow> main_pc \<Rightarrow> bool" where
  "thread_ok pp pc i m \<longleftrightarrow> (pc \<noteq> At_head \<longrightarrow> i < n_total pp) \<and> (pc = At_barrier \<longrightarrow> i = n_warmup pp) \<and>
     (m = M_spin \<longrightarrow> \<not> passed pp pc i) \<and> (m \<noteq> M_spin \<longrightarrow> arrived pp pc i) \<and> (m = M_done \<longrightarrow> i = n_total pp)"

definition sync_ok :: "('d, 'o, 's) pipe_program \<Rightarrow> 's pipe \<Rightarrow> bool" where
  "sync_ok pp s \<longleftrightarrow>
     threads_ready s = of_bool (arrived pp (p_pc s) (p_i s)) + of_bool (arrived pp (c_pc s) (c_i s)) \<and>
     thread_ok pp (p_pc s) (p_i s) (m_pc s) \<and> thread_ok pp (c_pc s) (c_i s) (m_pc s) \<and> (alloc_armed s \<longleftrightarrow> m_pc s = M_join)"

lemma thread_arrive:
  assumes "thread_ok pp At_head i m" "i = n_warmup pp" "n_warmup pp < n_total pp"
  shows "thread_ok pp At_barrier i m" "\<not> arrived pp At_head i" "arrived pp At_barrier i"
  using assms by (auto simp: thread_ok_def arrived_def passed_def)

lemma thread_pass:
  assumes "thread_ok pp pc i m" "may_pass pp pc i (m = M_join)"
  shows "thread_ok pp At_queue i m" "arrived pp At_queue i = arrived pp pc i"
  using assms by (auto simp: thread_ok_def arrived_def passed_def may_pass_def)

lemma thread_next:
  assumes "thread_ok pp At_queue i m"
  shows "thread_ok pp At_head (Suc i) m" "arrived pp At_head (Suc i) = arrived pp At_queue i"
  using assms by (auto simp: thread_ok_def arrived_def passed_def)

lemma sync_producer:
  assumes step: "producer_step pp s s'" and I: "sync_ok pp s" and warm: "n_warmup pp < n_total pp"
  shows "sync_ok pp s'"
  using step
proof cases
  case p_arrive
  then show ?thesis using thread_arrive [of pp "p_i s" "m_pc s"] I warm by (simp add: sync_ok_def)
next
  case (p_parse d t0)
  then show ?thesis using thread_pass [of pp "p_pc s" "p_i s" "m_pc s"] I by (simp add: sync_ok_def)
next
  case (p_push q)
  then show ?thesis using thread_next [of pp "p_i s" "m_pc s"] I by (simp add: sync_ok_def)
qed (use I in \<open>simp_all add: sync_ok_def\<close>)

lemma sync_consumer:
  assumes step: "consumer_step pp s s'" and I: "sync_ok pp s" and warm: "n_warmup pp < n_total pp"
  shows "sync_ok pp s'"
  using step
proof cases
  case c_arrive
  then show ?thesis using thread_arrive [of pp "c_i s" "m_pc s"] I warm by (simp add: sync_ok_def)
next
  case c_enter
  then show ?thesis using thread_pass [of pp "c_pc s" "c_i s" "m_pc s"] I by (simp add: sync_ok_def)
next
  case (c_take m q timed j r end_tsc)
  then show ?thesis using thread_next [of pp "c_i s" "m_pc s"] I by (simp add: sync_ok_def)
qed (use I in \<open>simp_all add: sync_ok_def\<close>)

lemma sync_main:
  assumes step: "main_step pp s s'" and I: "sync_ok pp s" and warm: "n_warmup pp < n_total pp"
  shows "sync_ok pp s'"
  using step
proof cases
  case m_arm
  then have "arrived pp (p_pc s) (p_i s)" "arrived pp (c_pc s) (c_i s)" using I by (auto simp: sync_ok_def of_bool_def split: if_splits)
  then show ?thesis using I m_arm by (simp add: sync_ok_def thread_ok_def)
next
  case m_finish
  then show ?thesis using I by (auto simp: sync_ok_def thread_ok_def)
qed

lemma sync_step: "pipe_step pp s s' \<Longrightarrow> sync_ok pp s \<Longrightarrow> n_warmup pp < n_total pp \<Longrightarrow> sync_ok pp s'"
  by (erule pipe_step.cases) (auto intro: sync_producer sync_consumer sync_main)

lemma messages_Suc: "messages pp d (Suc n) = messages pp d n @ [delta_at pp d (Suc n)]"
  by (simp add: messages_def)

lemma length_messages [simp]: "length (messages pp d n) = n"
  by (simp add: messages_def)

lemma messages_nth: "i < n \<Longrightarrow> messages pp d n ! i = delta_at pp d (Suc i)"
  by (simp add: messages_def)

lemma work_all_snoc: "work_all work (ds @ [hm_delta m]) s = take_work work m (work_all work ds s)"
  by (simp add: work_all_append take_work_def)

lemma pop_None:
  assumes "sq_ok cap q" "try_pop cap q = (None, q')"
  shows "sq_contents cap q = []" "sq_ok cap q'" "sq_contents cap q' = []"
proof -
  show e: "sq_contents cap q = []"
  proof (cases "sq_contents cap q")
    case (Cons x xs)
    then show ?thesis using sq.pop_item [OF assms(1) Cons] assms(2) by simp
  qed
  show "sq_ok cap q'" "sq_contents cap q' = []" using sq.pop_inv [OF assms(1)] sq.pop_empty [OF assms(1) e] assms(2) by simp_all
qed

lemma pop_Some:
  assumes "sq_ok cap q" "try_pop cap q = (Some x, q')"
  shows "sq_contents cap q = x # sq_contents cap q'" "sq_ok cap q'"
proof -
  show "sq_contents cap q = x # sq_contents cap q'"
  proof (cases "sq_contents cap q")
    case Nil
    then show ?thesis using sq.pop_empty [OF assms(1) Nil] assms(2) by simp
  next
    case (Cons y ys)
    then show ?thesis using sq.pop_item [OF assms(1) Cons] assms(2) by simp
  qed
  show "sq_ok cap q'" using sq.pop_inv [OF assms(1)] assms(2) by simp
qed

lemma push_cases:
  assumes "sq_ok cap q" "try_push cap x q = (ok, q')"
  shows "sq_ok cap q'" "sq_contents cap q' = sq_contents cap q @ (if ok then [x] else [])" "\<not> ok \<Longrightarrow> length (sq_contents cap q) = unat cap"
  using sq.push_inv [OF assms(1), of x] sq.push_full [OF assms(1), of x] sq.push_room [OF assms(1), of x] sq.bounded [OF assms(1)] assms(2)
  by (cases "length (sq_contents cap q) = unat cap"; auto)+

lemma flow_producer:
  assumes "producer_step pp s s'" "flow_ok pp d0 w0 s ms" "sync_ok pp s"
  shows "\<exists>ms'. flow_ok pp d0 w0 s' ms'"
  using assms(1)
proof cases
  case (p_push q)
  have l: "p_i s < n_total pp" using assms(3) p_push by (simp add: sync_ok_def thread_ok_def)
  have q: "sq_ok (queue_cap pp) q" "sq_contents (queue_cap pp) q = drop (c_i s) (ms @ [p_msg s])"
    using push_cases [OF _ p_push(3)] assms(2) by (auto simp: flow_ok_def)
  then have "flow_ok pp d0 w0 s' (ms @ [p_msg s])"
    using assms(2) p_push l by (auto simp: flow_ok_def messages_Suc simp del: delta_at.simps)
  then show ?thesis by blast
next
  case (p_spin q)
  then have "flow_ok pp d0 w0 s' ms" using assms(2) push_cases [OF _ p_spin(3)] by (auto simp: flow_ok_def)
  then show ?thesis by blast
next
  case (p_parse d t0)
  then have "flow_ok pp d0 w0 s' ms" using assms(2) by (auto simp: flow_ok_def may_pass_def)
  then show ?thesis by blast
qed (rule exI [of _ ms], use assms(2) in \<open>simp add: flow_ok_def\<close>)+

lemma flow_consumer:
  assumes "consumer_step pp s s'" "flow_ok pp d0 w0 s ms" "sync_ok pp s"
  shows "\<exists>ms'. flow_ok pp d0 w0 s' ms'"
  using assms(1)
proof cases
  case (c_take m q timed j r end_tsc)
  have l: "c_i s < n_total pp" using assms(3) c_take by (simp add: sync_ok_def thread_ok_def)
  have q: "drop (c_i s) ms = m # sq_contents (queue_cap pp) q" "sq_ok (queue_cap pp) q"
    using pop_Some [OF _ c_take(3)] assms(2) by (auto simp: flow_ok_def)
  have lt: "c_i s < length ms" using q(1) by (metis drop_eq_Nil2 list.discI not_le)
  then have m: "m = ms ! c_i s" "sq_contents (queue_cap pp) q = drop (Suc (c_i s)) ms"
    using q(1) by (simp_all add: Cons_nth_drop_Suc [symmetric])
  have md: "map hm_delta ms = messages pp d0 (p_i s)" "length ms = p_i s" using assms(2) by (auto simp: flow_ok_def)
  have "hm_delta m = map hm_delta ms ! c_i s" using m(1) lt by simp
  then have hm: "hm_delta m = delta_at pp d0 (Suc (c_i s))" using md lt by (simp only: messages_nth)
  have lat: "\<not> (timed \<and> length (g_latencies s) \<le> j)" using assms(2) c_take(4,5) l by (auto simp: flow_ok_def)
  have "work_all (pp_work pp) (messages pp d0 (Suc (c_i s))) w0 = take_work (pp_work pp) m (c_work s)"
    unfolding messages_Suc hm [symmetric] work_all_snoc using assms(2) by (simp add: flow_ok_def)
  then have "flow_ok pp d0 w0 s' ms"
    using assms(2) c_take q(2) m(2) lat lt by (auto simp: flow_ok_def)
  then show ?thesis by blast
next
  case (c_spin q)
  then have "flow_ok pp d0 w0 s' ms" using assms(2) pop_None [OF _ c_spin(3)] by (auto simp: flow_ok_def)
  then show ?thesis by blast
qed (rule exI [of _ ms], use assms(2) in \<open>simp add: flow_ok_def\<close>)+

lemma flow_step:
  assumes "pipe_step pp s s'" "flow_ok pp d0 w0 s ms" "sync_ok pp s"
  shows "\<exists>ms'. flow_ok pp d0 w0 s' ms'"
  using assms(1)
proof cases
  case prod
  then show ?thesis by (rule flow_producer [OF _ assms(2,3)])
next
  case cons
  then show ?thesis by (rule flow_consumer [OF _ assms(2,3)])
next
  case main
  then have "flow_ok pp d0 w0 s' ms" using assms(2) by cases (simp_all add: flow_ok_def)
  then show ?thesis by blast
qed

lemma pipe_invariant:
  assumes "pipe_reach pp (pipe_start data msg w0 lat) s" "cap_ok (queue_cap pp)" "length data = unat (queue_cap pp)"
    "n_warmup pp < n_total pp" "length lat = n_total pp - n_warmup pp"
  shows "sync_ok pp s" "\<exists>ms. flow_ok pp (hm_delta msg) w0 s ms"
proof -
  have "sync_ok pp s \<and> (\<exists>ms. flow_ok pp (hm_delta msg) w0 s ms)"
    using assms(1)
  proof (induction rule: pipe_reach.induct)
    case start
    have "sync_ok pp (pipe_start data msg w0 lat)" using assms(4) by (simp add: pipe_start_def sync_ok_def thread_ok_def arrived_def passed_def)
    moreover have "flow_ok pp (hm_delta msg) w0 (pipe_start data msg w0 lat) []"
      using sq_new_ok [OF assms(2,3)] assms(5) by (simp add: flow_ok_def pipe_start_def messages_def)
    ultimately show ?case by blast
  next
    case (step s s')
    then show ?case using sync_step [OF step(2) _ assms(4)] flow_step [OF step(2)] by blast
  qed
  then show "sync_ok pp s" "\<exists>ms. flow_ok pp (hm_delta msg) w0 s ms" by blast+
qed

section \<open>Progress\<close>

definition pc_rank :: "thread_pc \<Rightarrow> nat" where
  "pc_rank pc = (case pc of At_head \<Rightarrow> 0 | At_barrier \<Rightarrow> 1 | At_queue \<Rightarrow> 2)"

definition main_rank :: "main_pc \<Rightarrow> nat" where
  "main_rank pc = (case pc of M_spin \<Rightarrow> 0 | M_join \<Rightarrow> 1 | M_done \<Rightarrow> 2)"

text \<open>How far the program has come.\<close>

definition progress :: "'s pipe \<Rightarrow> nat" where
  "progress s = 3 * p_i s + pc_rank (p_pc s) + 3 * c_i s + pc_rank (c_pc s) + main_rank (m_pc s)"

lemma progress_mono:
  assumes "pipe_step pp s s'"
  shows "progress s \<le> progress s'"
  using assms
proof cases
  case prod
  then show ?thesis by cases (auto simp: progress_def pc_rank_def may_pass_def)
next
  case cons
  then show ?thesis by cases (auto simp: progress_def pc_rank_def may_pass_def)
next
  case main
  then show ?thesis by cases (auto simp: progress_def main_rank_def)
qed

lemma rank_bound: "(pc \<noteq> At_head \<longrightarrow> i < n) \<Longrightarrow> i \<le> n \<Longrightarrow> 3 * i + pc_rank pc \<le> 3 * n"
  by (cases pc) (simp_all add: pc_rank_def)

lemma progress_bound:
  assumes "sync_ok pp s" "flow_ok pp d0 w0 s ms"
  shows "progress s \<le> 6 * n_total pp + 2"
proof -
  have "3 * p_i s + pc_rank (p_pc s) \<le> 3 * n_total pp" "3 * c_i s + pc_rank (c_pc s) \<le> 3 * n_total pp"
    using assms by (intro rank_bound; simp add: sync_ok_def thread_ok_def flow_ok_def)+
  moreover have "main_rank (m_pc s) \<le> 2" by (simp add: main_rank_def split: main_pc.split)
  ultimately show ?thesis by (simp add: progress_def)
qed

lemma advance:
  "producer_step pp s s' \<Longrightarrow> progress s < progress s' \<Longrightarrow> \<exists>s'. pipe_step pp s s' \<and> progress s < progress s'"
  "consumer_step pp s s' \<Longrightarrow> progress s < progress s' \<Longrightarrow> \<exists>s'. pipe_step pp s s' \<and> progress s < progress s'"
  "main_step pp s s' \<Longrightarrow> progress s < progress s' \<Longrightarrow> \<exists>s'. pipe_step pp s s' \<and> progress s < progress s'"
  by (blast intro: pipe_step.intros)+

text \<open>A waiting message gets the consumer on, and so does every place other than an empty queue or a
  closed barrier.\<close>

lemma consumer_advances:
  assumes "sync_ok pp s" "flow_ok pp d0 w0 s ms" "c_i s < p_i s" "m_pc s = M_spin \<Longrightarrow> c_pc s \<noteq> At_barrier"
  shows "\<exists>s'. pipe_step pp s s' \<and> progress s < progress s'"
proof (cases "c_pc s")
  case At_head
  have l: "c_i s < n_total pp" using assms(2,3) by (simp add: flow_ok_def)
  show ?thesis
  proof (cases "c_i s = n_warmup pp")
    case True
    from consumer_step.c_arrive [OF At_head l True] show ?thesis by (rule advance(2)) (simp add: progress_def pc_rank_def At_head)
  next
    case False
    then have "may_pass pp (c_pc s) (c_i s) (alloc_armed s)" using l At_head by (simp add: may_pass_def)
    from consumer_step.c_enter [OF this] show ?thesis by (rule advance(2)) (simp add: progress_def pc_rank_def At_head)
  qed
next
  case At_barrier
  then have "m_pc s = M_join" using assms(1,3,4) assms(2) by (cases "m_pc s") (auto simp: sync_ok_def thread_ok_def)
  then have "may_pass pp (c_pc s) (c_i s) (alloc_armed s)" using assms(1) At_barrier by (simp add: may_pass_def sync_ok_def thread_ok_def)
  from consumer_step.c_enter [OF this] show ?thesis by (rule advance(2)) (simp add: progress_def pc_rank_def At_barrier)
next
  case At_queue
  have "sq_contents (queue_cap pp) (pq s) \<noteq> []" using assms(2,3) by (auto simp: flow_ok_def)
  then obtain m q where "try_pop (queue_cap pp) (pq s) = (Some m, q)"
    using pop_None(1) [of "queue_cap pp" "pq s"] assms(2) by (cases "try_pop (queue_cap pp) (pq s)"; cases "fst (try_pop (queue_cap pp) (pq s))") (auto simp: flow_ok_def)
  from consumer_step.c_take [OF At_queue this refl refl refl] show ?thesis by (rule advance(2)) (simp add: progress_def pc_rank_def At_queue)
qed

lemma producer_advances:
  assumes "sync_ok pp s" "flow_ok pp d0 w0 s ms" "p_i s < n_total pp" "m_pc s = M_spin \<Longrightarrow> p_pc s \<noteq> At_barrier"
    "\<And>i. pp_index pp i < length (pp_pool pp)" "p_pc s = At_queue \<Longrightarrow> length (sq_contents (queue_cap pp) (pq s)) < unat (queue_cap pp)"
  shows "\<exists>s'. pipe_step pp s s' \<and> progress s < progress s'"
proof -
  have i: "pp_index pp (p_i s) < length (pp_pool pp)" by (rule assms(5))
  show ?thesis
  proof (cases "p_pc s")
    case At_head
    show ?thesis
    proof (cases "p_i s = n_warmup pp")
      case True
      from producer_step.p_arrive [OF At_head assms(3) True] show ?thesis by (rule advance(1)) (simp add: progress_def pc_rank_def At_head)
    next
      case False
      then have "may_pass pp (p_pc s) (p_i s) (alloc_armed s)" using assms(3) At_head by (simp add: may_pass_def)
      from producer_step.p_parse [OF this i refl] show ?thesis by (rule advance(1)) (simp add: progress_def pc_rank_def At_head)
    qed
  next
    case At_barrier
    then have "m_pc s = M_join" using assms(1,3,4) by (cases "m_pc s") (auto simp: sync_ok_def thread_ok_def)
    then have "may_pass pp (p_pc s) (p_i s) (alloc_armed s)" using assms(1) At_barrier by (simp add: may_pass_def sync_ok_def thread_ok_def)
    from producer_step.p_parse [OF this i refl] show ?thesis by (rule advance(1)) (simp add: progress_def pc_rank_def At_barrier)
  next
    case At_queue
    obtain ok q where t: "try_push (queue_cap pp) (p_msg s) (pq s) = (ok, q)" by fastforce
    then have ok using push_cases(3) [OF _ t] assms(2,6) At_queue by (auto simp: flow_ok_def)
    then have "try_push (queue_cap pp) (p_msg s) (pq s) = (True, q)" using t by simp
    from producer_step.p_push [OF At_queue this] show ?thesis by (rule advance(1)) (simp add: progress_def pc_rank_def At_queue)
  qed
qed

lemma never_stuck:
  assumes I: "sync_ok pp s" "flow_ok pp d0 w0 s ms" and cap: "0 < unat (queue_cap pp)"
    and pool: "\<And>i. pp_index pp i < length (pp_pool pp)" and run: "m_pc s \<noteq> M_done" and warm: "n_warmup pp < n_total pp"
  shows "\<exists>s'. pipe_step pp s s' \<and> progress s < progress s'"
proof -
  have le: "c_i s \<le> p_i s" "p_i s \<le> n_total pp" using I(2) by (simp_all add: flow_ok_def)
  have P: "thread_ok pp (p_pc s) (p_i s) (m_pc s)" and C: "thread_ok pp (c_pc s) (c_i s) (m_pc s)" using I(1) by (simp_all add: sync_ok_def)
  show ?thesis
  proof (cases "c_i s < p_i s \<and> (m_pc s = M_spin \<longrightarrow> c_pc s \<noteq> At_barrier)")
  case True
  then show ?thesis using consumer_advances [OF I] by blast
next
  case False
  show ?thesis
  proof (cases "p_i s < n_total pp \<and> (m_pc s = M_spin \<longrightarrow> p_pc s \<noteq> At_barrier)")
    case True
    have "length (sq_contents (queue_cap pp) (pq s)) < unat (queue_cap pp)" if q: "p_pc s = At_queue"
    proof -
      have "p_i s \<le> n_warmup pp" if "m_pc s = M_spin" using I(1) that by (simp add: sync_ok_def thread_ok_def passed_def)
      then have "c_i s = p_i s" using False C le by (auto simp: thread_ok_def)
      then show ?thesis using I(2) cap by (simp add: flow_ok_def)
    qed
    then show ?thesis using producer_advances [OF I _ _ pool] True by blast
  next
    case stuck: False
    show ?thesis
    proof (cases "m_pc s = M_spin")
      case True
      have p: "p_pc s = At_barrier" "p_i s = n_warmup pp" using P True stuck warm by (auto simp: thread_ok_def passed_def)
      have "\<not> n_warmup pp < c_i s" using I(1) True by (simp add: sync_ok_def thread_ok_def passed_def)
      then have c: "c_i s = n_warmup pp" "c_pc s \<noteq> At_queue" using False p C True le by (auto simp: thread_ok_def passed_def)
      show ?thesis
      proof (cases "c_pc s = At_head")
        case True
        have "c_i s < n_total pp" using c(1) warm by simp
        from consumer_step.c_arrive [OF True this c(1)] show ?thesis by (rule advance(2)) (simp add: progress_def pc_rank_def True)
      next
        case False
        then have "c_pc s = At_barrier" using c(2) by (cases "c_pc s") simp_all
        then have "2 \<le> threads_ready s" using I(1) p c(1) by (simp add: sync_ok_def thread_ok_def arrived_def)
        from main_step.m_arm [OF True this] show ?thesis by (rule advance(3)) (simp add: progress_def main_rank_def True)
      qed
    next
      case join: False
      then have "m_pc s = M_join" using run by (cases "m_pc s") simp_all
      moreover have "p_i s = n_total pp" "c_i s = n_total pp" using stuck False join le by auto
      ultimately have "main_step pp s (s\<lparr>alloc_armed := False, m_pc := M_done\<rparr>)" by (rule main_step.m_finish)
      then show ?thesis by (rule advance(3)) (simp add: progress_def main_rank_def \<open>m_pc s = M_join\<close>)
    qed
  qed
qed
qed

context message_worker
begin

text \<open>In every interleaving the consumer has done its work on the messages in the order in which they
  were produced, and none of it was undefined.\<close>

lemma pipe_works:
  assumes "sync_ok pp s" "flow_ok pp d0 w0 s ms" "pp_work pp = work" "good 0 w0" "n_total pp \<le> limit"
    "\<And>i. admissible (delta_at pp d0 (Suc i))"
  shows "\<exists>ts w. c_work s = Some (ts, w) \<and> work_all work (messages pp d0 (c_i s)) w0 = Some (ts, w) \<and> good (c_i s) w"
proof -
  have "c_i s \<le> limit" "c_work s = work_all work (messages pp d0 (c_i s)) w0" using assms(2,3,5) by (simp_all add: flow_ok_def)
  moreover have "\<forall>d\<in>set (messages pp d0 (c_i s)). admissible d" using assms(6) by (auto simp: messages_def simp del: delta_at.simps)
  ultimately show ?thesis using work_all_returns [OF assms(4), of "messages pp d0 (c_i s)"] by auto
qed

end

interpretation hot: message_worker "\<lambda>k s. book_sane (50 * int k) (pl_book s) \<and> length (pl_out s) = 256"
  "\<lambda>d. delta_wf d \<and> \<bar>d_delta d\<bar> \<le> 50" "hot_step c_ticker" 40000000
proof
  fix k and s :: pipeline and d
  assume "book_sane (50 * int k) (pl_book s) \<and> length (pl_out s) = 256" "delta_wf d \<and> \<bar>d_delta d\<bar> \<le> 50" "k < 40000000"
  then show "\<exists>ts s'. hot_step c_ticker d s = Some (ts, s') \<and> book_sane (50 * int (Suc k)) (pl_book s') \<and> length (pl_out s') = 256"
    using work_trade [of k s "[d]"] by (auto split: bind_splits)
qed

lemma delta_at_ok:
  assumes "reads_payloads sj kTicker" "length (d_ticker d0) = 32" "pp_pool pp = build_payload_pool lf" "pp_sj pp = sj"
    "\<And>i. pp_index pp i < N_PAYLOADS"
  shows "delta_wf (delta_at pp d0 (Suc n)) \<and> \<bar>d_delta (delta_at pp d0 (Suc n))\<bar> \<le> 50"
proof -
  have p: "payload_ok kTicker (pp_pool pp ! pp_index pp n)" for n
    using payload_loop_ok [of lf kTicker "[0..<N_PAYLOADS]" "0xDEADBEEFCAFEBABE"] assms(5) [of n]
    by (simp add: assms(3) build_payload_pool_def)
  have l: "length (d_ticker (delta_at pp d0 n)) = 32" for n
  proof (induction n)
    case (Suc n)
    then show ?case using parse_payload [OF assms(1) p kTicker_ok(1,2) Suc, of n] assms(4) by (auto simp: delta_wf_def)
  qed (simp add: assms(2))
  show ?thesis using parse_payload [OF assms(1) p kTicker_ok(1,2) l, of n n] assms(4) by auto
qed

text \<open>The start of the program and what is assumed of its environment.\<close>

definition pipe_run :: "('d, 'o) simdjson \<Rightarrow> bool \<Rightarrow> hot_msg \<Rightarrow> pipeline pipe \<Rightarrow> bool" where
  "pipe_run sj lf msg s \<longleftrightarrow> reads_payloads sj kTicker \<and> length (d_ticker (hm_delta msg)) = 32 \<and>
     (\<exists>data out. length data = 1024 \<and> length out = 256 \<and>
       pipe_reach (bench_hotpath_pipe sj lf) (pipe_start data msg (pipeline_new out) (replicate 1000000 0)) s)"

lemma pipe_program_sel:
  "pp_index (bench_hotpath_pipe sj lf) i < N_PAYLOADS"
  "pp_pool (bench_hotpath_pipe sj lf) = build_payload_pool lf" "pp_sj (bench_hotpath_pipe sj lf) = sj"
  "pp_work (bench_hotpath_pipe sj lf) = hot_step c_ticker" "n_warmup (bench_hotpath_pipe sj lf) = 10000"
  "n_total (bench_hotpath_pipe sj lf) = 1010000" "queue_cap (bench_hotpath_pipe sj lf) = 1024"
  by (simp_all add: bench_hotpath_pipe_def N_PAYLOADS_def)

lemma cap_ok_1024: "cap_ok 1024"
  by (simp add: cap_ok_def)

lemma pipe_run_inv:
  assumes "pipe_run sj lf msg s"
  obtains out ms where "sync_ok (bench_hotpath_pipe sj lf) s" "length out = 256"
    "flow_ok (bench_hotpath_pipe sj lf) (hm_delta msg) (pipeline_new out) s ms"
  using assms pipe_invariant [of "bench_hotpath_pipe sj lf" _ msg _ "replicate 1000000 0" s] cap_ok_1024
  unfolding pipe_run_def by (fastforce simp: bench_hotpath_pipe_def)

text \<open>(C7) The two-threaded pipeline is equivalent to sequential processing: in every interleaving of the
  producer, the consumer and the main thread, whatever the clock readings, the texts the consumer has
  emitted and its book and order manager after any number of messages are exactly those that the
  sequential reference computes from the messages in the order of the payload pool; in particular no
  message is lost, duplicated or reordered and nothing undefined happens.\<close>

theorem pipe_equivalent:
  assumes "pipe_run sj lf msg s"
  shows "\<exists>as b om out. run_strategy (messages (bench_hotpath_pipe sj lf) (hm_delta msg) (c_i s)) (Book_new, OrderManager_new) = Some (as, b, om) \<and>
    c_work s = Some (map (\<lambda>a. action_text a kTicker) as, \<lparr>pl_book = b, pl_om = om, pl_out = out\<rparr>)"
proof -
  let ?pp = "bench_hotpath_pipe sj lf" and ?d = "hm_delta msg"
  obtain out ms where I: "sync_ok ?pp s" "length out = 256" "flow_ok ?pp ?d (pipeline_new out) s ms" using pipe_run_inv [OF assms] .
  have "reads_payloads sj kTicker" "length (d_ticker ?d) = 32" using assms by (simp_all add: pipe_run_def)
  from delta_at_ok [OF this, of ?pp lf] have "\<forall>d\<in>set (messages ?pp ?d (c_i s)). delta_wf d \<and> \<bar>d_delta d\<bar> \<le> 50"
    by (auto simp: messages_def pipe_program_sel simp del: delta_at.simps)
  moreover have "c_i s \<le> 1010000" "c_work s = work_all (hot_step c_ticker) (messages ?pp ?d (c_i s)) (pipeline_new out)"
    using I(3) by (simp_all add: flow_ok_def bench_hotpath_pipe_def)
  moreover have "book_sane (50 * int 0) (pl_book (pipeline_new out))" "length (pl_out (pipeline_new out)) = 256"
    using book_sane_new I(2) by (simp_all add: pipeline_new_def)
  ultimately show ?thesis using work_trade [of 0 "pipeline_new out" "messages ?pp ?d (c_i s)"] by (auto simp: pipeline_new_def)
qed

lemma pipe_run_start:
  "pipe_run payload_json True \<lparr>hm_delta = blank_delta, hm_tsc = 0\<rparr>
     (pipe_start (replicate 1024 \<lparr>hm_delta = blank_delta, hm_tsc = 0\<rparr>) \<lparr>hm_delta = blank_delta, hm_tsc = 0\<rparr>
       (pipeline_new (replicate 256 (CHR 0x00))) (replicate 1000000 0))"
proof -
  let ?m = "\<lparr>hm_delta = blank_delta, hm_tsc = 0\<rparr>"
  have "length (replicate 1024 ?m) = 1024" "length (replicate 256 (CHR 0x00)) = 256" "length (d_ticker (hm_delta ?m)) = 32"
    by (simp_all add: blank_delta_def)
  then show ?thesis unfolding pipe_run_def using payload_json_reads pipe_reach.start by blast
qed

theorem pipe_equivalent_witness:
  "\<exists>s as b om out. pipe_run payload_json True \<lparr>hm_delta = blank_delta, hm_tsc = 0\<rparr> s \<and>
     run_strategy (messages (bench_hotpath_pipe payload_json True) blank_delta (c_i s)) (Book_new, OrderManager_new) = Some (as, b, om) \<and>
     c_work s = Some (map (\<lambda>a. action_text a kTicker) as, \<lparr>pl_book = b, pl_om = om, pl_out = out\<rparr>)"
  using pipe_equivalent [OF pipe_run_start] pipe_run_start by (metis hot_msg.select_convs(1))

text \<open>The measured window is exact: the allocation counter is armed only after both threads have
  completed their warm-up, from the first measured message on it stays armed until both threads have
  ended, and every latency is stored inside its table.\<close>

theorem pipe_measured_window:
  assumes "pipe_run sj lf msg s"
  shows "(alloc_armed s \<longrightarrow> 10000 \<le> p_i s \<and> 10000 \<le> c_i s) \<and>
    (10000 < p_i s \<or> 10000 < c_i s \<longrightarrow> alloc_armed s \<or> p_i s = 1010000 \<and> c_i s = 1010000) \<and>
    length (g_latencies s) = 1000000 \<and> c_work s \<noteq> None"
proof -
  let ?pp = "bench_hotpath_pipe sj lf" and ?d = "hm_delta msg"
  obtain out ms where I: "sync_ok ?pp s" "length out = 256" "flow_ok ?pp ?d (pipeline_new out) s ms" using pipe_run_inv [OF assms] .
  have P: "thread_ok ?pp (p_pc s) (p_i s) (m_pc s)" and C: "thread_ok ?pp (c_pc s) (c_i s) (m_pc s)" and A: "alloc_armed s \<longleftrightarrow> m_pc s = M_join"
    using I(1) by (simp_all add: sync_ok_def)
  have D: "reads_payloads sj kTicker" "length (d_ticker ?d) = 32" using assms by (simp_all add: pipe_run_def)
  have "c_work s \<noteq> None"
    using hot.pipe_works [OF I(1,3)] delta_at_ok [OF D, of ?pp lf] book_sane_new I(2)
    by (simp add: pipe_program_sel pipeline_new_def del: delta_at.simps) blast
  moreover have "10000 \<le> p_i s \<and> 10000 \<le> c_i s" if "m_pc s = M_join"
    using P C that by (auto simp: thread_ok_def arrived_def pipe_program_sel)
  moreover have "m_pc s = M_join \<or> p_i s = 1010000 \<and> c_i s = 1010000" if "10000 < p_i s \<or> 10000 < c_i s"
    using P C that by (cases "m_pc s") (auto simp: thread_ok_def passed_def pipe_program_sel)
  moreover have "length (g_latencies s) = 1000000" using I(3) by (simp add: flow_ok_def pipe_program_sel)
  ultimately show ?thesis using A by blast
qed

theorem pipe_measured_window_witness:
  "\<exists>s. pipe_run payload_json True \<lparr>hm_delta = blank_delta, hm_tsc = 0\<rparr> s \<and> \<not> alloc_armed s \<and> length (g_latencies s) = 1000000 \<and> c_work s \<noteq> None"
proof -
  have "\<not> alloc_armed (pipe_start d m w l)" for d m l and w :: pipeline by (simp add: pipe_start_def)
  then show ?thesis using pipe_measured_window [OF pipe_run_start] pipe_run_start by blast
qed

text \<open>(C23) The three threads always finish: from every reachable state that is not the end some thread can
  take a step that makes progress, no step of any thread undoes progress, and six million and sixty
  thousand and two such steps are the most there can be. So neither the barrier nor the bounded queue
  can deadlock, although the producer waits at the barrier for messages in the queue to be consumed.\<close>

theorem pipe_never_stuck:
  assumes "pipe_run sj lf msg s"
  shows "(m_pc s = M_done \<or> (\<exists>s'. pipe_step (bench_hotpath_pipe sj lf) s s' \<and> progress s < progress s')) \<and>
    (pipe_step (bench_hotpath_pipe sj lf) s s1 \<longrightarrow> progress s \<le> progress s1) \<and> progress s \<le> 6060002"
proof -
  let ?pp = "bench_hotpath_pipe sj lf"
  obtain out ms where I: "sync_ok ?pp s" "length out = 256" "flow_ok ?pp (hm_delta msg) (pipeline_new out) s ms" using pipe_run_inv [OF assms] .
  have l: "pp_index ?pp i < length (pp_pool ?pp)" for i
    using payload_loop_ok [of lf kTicker "[0..<N_PAYLOADS]" "0xDEADBEEFCAFEBABE"] by (simp add: pipe_program_sel build_payload_pool_def)
  have "m_pc s = M_done \<or> (\<exists>s'. pipe_step ?pp s s' \<and> progress s < progress s')"
    using never_stuck [OF I(1,3) _ l] by (auto simp: pipe_program_sel)
  then show ?thesis using progress_mono [of ?pp s s1] progress_bound [OF I(1,3)] by (simp add: pipe_program_sel)
qed

theorem pipe_never_stuck_witness:
  "\<exists>s s'. pipe_run payload_json True \<lparr>hm_delta = blank_delta, hm_tsc = 0\<rparr> s \<and>
     pipe_step (bench_hotpath_pipe payload_json True) s s' \<and> progress s < progress s'"
proof -
  have "m_pc (pipe_start d m w l) \<noteq> M_done" for d m l and w :: pipeline by (simp add: pipe_start_def)
  then show ?thesis using pipe_never_stuck [OF pipe_run_start] pipe_run_start by blast
qed

end
