(* ===== verification/Ticker_Hash.thy ===== *)
theory Ticker_Hash
  imports Cpp_String Feed_Parser Flat_Hash_Map
begin

text \<open>
  The keys of the ticker dispatch in \<open>bench/bench_hotpath_multi.cpp\<close>: the FNV-1a hash of a ticker and
  the names that the benchmark registers. No key is the sentinel of the hash map, and the names that
  are registered have different keys.
\<close>

unbundle bit_operations_syntax

section \<open>The functions\<close>

definition fnv_step :: "u64 \<Rightarrow> char \<Rightarrow> u64" where
  "fnv_step h c = (h XOR of_char c) * 0x100000001b3"

definition hash_ticker :: "char list \<Rightarrow> nat \<Rightarrow> u64" where
  "hash_ticker s len =
    (let h = foldl fnv_step 0xcbf29ce484222325 (take len s)
     in if h = NOT 0 then h XOR 1 else h)"

function strnlen_loop :: "char list \<Rightarrow> nat \<Rightarrow> nat \<Rightarrow> nat" where
  "strnlen_loop s max_len i = (if i < max_len then if s ! i = CHR 0x00 then i else strnlen_loop s max_len (Suc i) else max_len)"
  by pat_completeness auto
termination
  by (relation "measure (\<lambda>(s, n, i). n - i)") auto

declare strnlen_loop.simps [simp del]

definition ticker_strnlen :: "char list \<Rightarrow> nat \<Rightarrow> nat" where
  "ticker_strnlen s max_len = strnlen_loop s max_len 0"

text \<open>The number as \<open>%03d\<close> prints it, and the name of a ticker.\<close>

definition pad3 :: "nat \<Rightarrow> string" where
  "pad3 n = replicate (3 - length (dec n)) (CHR ''0'') @ dec n"

definition ticker_name :: "nat \<Rightarrow> string" where
  "ticker_name i = ''MKT-'' @ pad3 i"

definition N_TICKERS :: nat where "N_TICKERS = 256"

section \<open>The keys\<close>

abbreviation ticker_key :: "string \<Rightarrow> u64" where
  "ticker_key t \<equiv> hash_ticker t (length t)"

lemma hash_valid: "hash_ticker s n \<noteq> EMPTY"
proof -
  have "(NOT 0 :: u64) XOR 1 \<noteq> EMPTY" by (simp add: EMPTY_def)
  then show ?thesis by (auto simp: hash_ticker_def Let_def EMPTY_def)
qed

lemma strnlen_take: "strnlen_loop s (length s) i = i + length (c_string (drop i s))" if "i \<le> length s"
  using that
proof (induction s "length s" i rule: strnlen_loop.induct)
  case (1 s i)
  show ?case
  proof (cases "i < length s")
    case True
    then have d: "drop i s = s ! i # drop (Suc i) s" by (simp add: Cons_nth_drop_Suc)
    show ?thesis using 1 True by (subst strnlen_loop.simps) (simp add: d c_string_def)
  next
    case False
    then show ?thesis using 1(2) by (subst strnlen_loop.simps) (simp add: c_string_def)
  qed
qed

lemma dispatch_key: "hash_ticker s (ticker_strnlen s (length s)) = ticker_key (c_string s)"
proof -
  have "take (length (c_string s)) s = c_string s" unfolding c_string_def by (rule takeWhile_eq_take [symmetric])
  then show ?thesis by (simp add: hash_ticker_def ticker_strnlen_def strnlen_take)
qed

text \<open>
  The 256 names have 256 keys. They share the first four characters, so there are three states of the
  hash after the first digit and 26 after the second. Multiplication by the odd prime can be undone,
  and two digits differ in their low four bits only, so it is enough that these 26 states differ above
  those bits.
\<close>

lemma digit_zero: "digit 0 = CHR ''0''"
  by code_simp

lemma pad3_digits:
  assumes "n < 1000"
  shows "pad3 n = [digit (n div 100), digit (n div 10 mod 10), digit (n mod 10)]"
proof -
  consider "n < 10" | "10 \<le> n" "n < 100" | "100 \<le> n" by linarith
  then show ?thesis
  proof cases
    case 1
    then show ?thesis by (simp add: pad3_def dec.simps [of n] digit_zero numeral_2_eq_2)
  next
    case 2
    then have "dec n = [digit (n div 10), digit (n mod 10)]" by (simp add: dec.simps [of n] dec.simps [of "n div 10"])
    then show ?thesis using 2 by (simp add: pad3_def digit_zero)
  next
    case 3
    have "\<not> n div 10 < 10" "n div 100 < 10" using div_le_mono [OF 3, of 10] less_mult_imp_div_less [of n 10 100] assms by simp_all
    moreover have "n div 10 div 10 = n div 100" by (simp add: div_mult2_eq [symmetric])
    ultimately have "dec n = [digit (n div 100), digit (n div 10 mod 10), digit (n mod 10)]"
      using 3 assms by (simp add: dec.simps [of n] dec.simps [of "n div 10"] dec.simps [of "n div 100"])
    then show ?thesis by (simp add: pad3_def)
  qed
qed

definition prefix_state :: "nat \<Rightarrow> u64" where
  "prefix_state j = fnv_step (if j < 10 then 0x97c387e2f723640a else if j < 20 then 0x97c388e2f72365bd else 0x97c385e2f72360a4) (digit (j mod 10))"

lemma prefix_states:
  "foldl fnv_step 0xcbf29ce484222325 (''MKT-'' @ [digit 0]) = 0x97c387e2f723640a"
  "foldl fnv_step 0xcbf29ce484222325 (''MKT-'' @ [digit 1]) = 0x97c388e2f72365bd"
  "foldl fnv_step 0xcbf29ce484222325 (''MKT-'' @ [digit 2]) = 0x97c385e2f72360a4"
  by code_simp+

lemma prefix_distinct: "distinct ((0x3169afa850096a8 XOR 3) # map (\<lambda>j. drop_bit 4 (prefix_state j)) [0..<26])"
  by code_simp

lemma name_hash:
  assumes "i < 256"
  shows "foldl fnv_step 0xcbf29ce484222325 (ticker_name i) = fnv_step (prefix_state (i div 10)) (digit (i mod 10))"
proof -
  have n: "ticker_name i = (''MKT-'' @ [digit (i div 100)]) @ [digit (i div 10 mod 10), digit (i mod 10)]"
    using pad3_digits [of i] assms by (simp add: ticker_name_def)
  consider "i div 100 = 0" "i div 10 < 10" | "i div 100 = 1" "10 \<le> i div 10" "i div 10 < 20" | "i div 100 = 2" "20 \<le> i div 10"
    using assms by linarith
  then have "foldl fnv_step 0xcbf29ce484222325 (''MKT-'' @ [digit (i div 100)]) =
      (if i div 10 < 10 then 0x97c387e2f723640a else if i div 10 < 20 then 0x97c388e2f72365bd else 0x97c385e2f72360a4)"
    by cases (simp_all only: prefix_states, simp_all)
  then show ?thesis unfolding n foldl_append by (simp add: prefix_state_def)
qed

lemma fnv_step_undo: "fnv_step h c * 0xce965057aff6957b = h XOR of_char c"
proof -
  have "(0x100000001b3 :: u64) * 0xce965057aff6957b = 1" by simp
  then show ?thesis by (simp only: fnv_step_def mult.assoc mult_1_right)
qed

lemma digit_high: "d < 10 \<Longrightarrow> drop_bit 4 (of_char (digit d) :: u64) = 3"
proof -
  have "list_all (\<lambda>d. drop_bit 4 (of_char (digit d) :: u64) = 3) [0..<10]" by code_simp
  then have "\<forall>d\<in>{0..<10}. drop_bit 4 (of_char (digit d) :: u64) = 3" by (simp only: list_all_iff set_upt)
  then show "d < 10 \<Longrightarrow> drop_bit 4 (of_char (digit d) :: u64) = 3" by (simp only: Ball_def atLeastLessThan_iff) blast
qed

lemma fnv_step_high:
  assumes "fnv_step h (digit d) = x" "d < 10"
  shows "drop_bit 4 h = drop_bit 4 (x * 0xce965057aff6957b) XOR 3"
proof -
  have "drop_bit 4 (x * 0xce965057aff6957b) = drop_bit 4 h XOR 3"
    unfolding assms(1) [symmetric] fnv_step_undo drop_bit_xor digit_high [OF assms(2)] ..
  then show ?thesis by (simp add: xor.assoc)
qed

lemma name_key: "i < 256 \<Longrightarrow> ticker_key (ticker_name i) = fnv_step (prefix_state (i div 10)) (digit (i mod 10))"
proof -
  assume i: "i < 256"
  let ?h = "fnv_step (prefix_state (i div 10)) (digit (i mod 10))"
  have "i div 10 < 26" using i by linarith
  have "?h \<noteq> NOT 0"
  proof
    assume "?h = NOT 0"
    moreover have "drop_bit 4 (NOT 0 * 0xce965057aff6957b :: u64) = 0x3169afa850096a8" by code_simp
    ultimately have "drop_bit 4 (prefix_state (i div 10)) = 0x3169afa850096a8 XOR 3" using fnv_step_high [of _ "i mod 10" "NOT 0"] by simp
    moreover have "drop_bit 4 (prefix_state (i div 10)) \<in> (\<lambda>j. drop_bit 4 (prefix_state j)) ` set [0..<26]"
      using \<open>i div 10 < 26\<close> by (intro imageI) (simp only: set_upt atLeastLessThan_iff le0 simp_thms)
    ultimately show False using prefix_distinct by (simp only: distinct.simps set_map simp_thms)
  qed
  then show ?thesis using name_hash [OF i] by (simp add: hash_ticker_def)
qed

lemma inj_keys: "inj_on (\<lambda>i. ticker_key (ticker_name i)) {..<256}"
proof (rule inj_onI)
  fix i j assume ij: "i \<in> {..<256}" "j \<in> {..<256}" and k: "ticker_key (ticker_name i) = ticker_key (ticker_name j)"
  have b: "i div 10 \<in> set [0..<26]" "j div 10 \<in> set [0..<26]" using ij by auto
  have e: "fnv_step (prefix_state (i div 10)) (digit (i mod 10)) = fnv_step (prefix_state (j div 10)) (digit (j mod 10))"
    using k name_key [of i] name_key [of j] ij by simp
  have p: "drop_bit 4 (prefix_state (i div 10)) = drop_bit 4 (prefix_state (j div 10))"
    using fnv_step_high [OF e] fnv_step_high [OF refl, of "j mod 10" "prefix_state (j div 10)"] by simp
  have "inj_on (\<lambda>j. drop_bit 4 (prefix_state j)) (set [0..<26])" using prefix_distinct by (simp only: distinct.simps distinct_map)
  then have q: "i div 10 = j div 10" using p b by (rule inj_onD)
  have x: "of_char c = h XOR (fnv_step h c * 0xce965057aff6957b)" for h c unfolding fnv_step_undo by (simp add: xor.assoc [symmetric])
  have "(of_char (digit (i mod 10)) :: u64) = of_char (digit (j mod 10))"
    using x [of "digit (i mod 10)" "prefix_state (i div 10)"] x [of "digit (j mod 10)" "prefix_state (j div 10)"] e q by simp
  then have w: "of_nat (of_char (digit (i mod 10))) = (of_nat (of_char (digit (j mod 10))) :: u64)" by (simp only: of_nat_of_char)
  have u: "unat (of_nat m :: u64) = m" if "m < 100" for m using that by (simp add: unat_of_nat)
  have "of_char (digit (i mod 10)) = 48 + i mod 10" "of_char (digit (j mod 10)) = 48 + j mod 10" by (simp_all add: of_digit)
  then have "48 + i mod 10 = 48 + j mod 10" using arg_cong [OF w, of unat] u [of "48 + i mod 10"] u [of "48 + j mod 10"] by simp
  then have "i mod 10 = j mod 10" by simp
  then show "i = j" using q by (metis div_mult_mod_eq)
qed

end
