(* ===== verification/Hot_Multi.thy ===== *)
theory Hot_Multi
  imports Hot_Pipe Ticker_Hash Pool_Alloc
begin

text \<open>
  The benchmark with many markets, \<open>bench/bench_hotpath_multi.cpp\<close>: the state of each market is a
  block of a \<open>Pool\<close>, found through a \<open>FlatHashMap\<close> keyed on the hash of the ticker. The two threads
  are those of \<open>Hot_Pipe\<close>; the work on a message is different. \<open>None\<close> is \<open>abort\<close> or undefined
  behaviour. \<open>sizeof(MarketState)\<close> is the argument \<open>bs\<close>.
\<close>

section \<open>Tickers and markets\<close>

definition MAP_CAP :: u64 where "MAP_CAP = 1024"
definition POOL_CAP :: nat where "POOL_CAP = 256"

record market_state =
  ms_book :: feed_book
  ms_om :: order_manager

record markets =
  g_market_pool :: "market_state pool"
  g_markets :: "ptr flat_hash_map"

fun register_loop :: "nat list \<Rightarrow> markets \<Rightarrow> markets option" where
  "register_loop [] g = Some g"
| "register_loop (i # is) g =
    (let key = hash_ticker (ticker_name i) (length (ticker_name i))
     in do {
       (m, pool) \<leftarrow> allocate (g_market_pool g);
       (if m = 0 then None
        else
          let pool = store_obj m \<lparr>ms_book = Book_new, ms_om = OrderManager_new\<rparr> pool
          in case fhm_insert MAP_CAP (g_markets g) key m of
               (mp, ok) \<Rightarrow> if \<not> ok then None else register_loop is \<lparr>g_market_pool = pool, g_markets = mp\<rparr>)
     })"

definition register_markets :: "markets \<Rightarrow> markets option" where
  "register_markets g = register_loop [0..<N_TICKERS] g"

text \<open>The consumer's work: dispatch on the ticker, then the hot path on the market found.\<close>

definition multi_work :: "orderbook_delta \<Rightarrow> markets \<times> char list \<Rightarrow> (string list \<times> markets \<times> char list) option" where
  "multi_work d = (\<lambda>(g, outbuf).
    let tlen = ticker_strnlen (d_ticker d) (length (d_ticker d));
        key = hash_ticker (d_ticker d) tlen
    in do {
      m \<leftarrow> fhm_get MAP_CAP (g_markets g) key;
      st \<leftarrow> load_obj (g_market_pool g) m;
      (texts, s) \<leftarrow> hot_step (d_ticker d) d \<lparr>pl_book = ms_book st, pl_om = ms_om st, pl_out = outbuf\<rparr>;
      Some (texts, g\<lparr>g_market_pool := store_obj m \<lparr>ms_book = pl_book s, ms_om = pl_om s\<rparr> (g_market_pool g)\<rparr>, pl_out s)
    })"

text \<open>The payloads: as before, after a ticker has been drawn.\<close>

fun multi_payload_loop :: "bool \<Rightarrow> nat list \<Rightarrow> u64 \<Rightarrow> string list" where
  "multi_payload_loop lf [] s = []"
| "multi_payload_loop lf (i # is) s =
    (let (tid, s) = xorshift_range 0 (of_nat (N_TICKERS - 1)) s;
         (p, s) = one_payload lf (ticker_name (unat tid)) i s
     in p # multi_payload_loop lf is s)"

definition build_multi_pool :: "bool \<Rightarrow> string list" where
  "build_multi_pool lf = multi_payload_loop lf [0..<N_PAYLOADS] 0xDEADBEEFCAFEBABE"

definition bench_hotpath_multi :: "('d, 'o) simdjson \<Rightarrow> bool \<Rightarrow> ('d, 'o, markets \<times> char list) pipe_program" where
  "bench_hotpath_multi sj lf = \<lparr>pp_sj = sj, pp_pool = build_multi_pool lf,
     pp_index = (\<lambda>i. i mod N_PAYLOADS), pp_work = multi_work, n_warmup = 10000, n_total = 1010000, queue_cap = 1024\<rparr>"

section \<open>The table of markets\<close>

text \<open>The state of a market by its ticker.\<close>

definition market :: "markets \<Rightarrow> string \<Rightarrow> market_state option" where
  "market g t = do { m \<leftarrow> fhm_get MAP_CAP (g_markets g) (ticker_key t); load_obj (g_market_pool g) m }"

definition market_ptr :: "markets \<Rightarrow> string \<Rightarrow> ptr" where
  "market_ptr g t = the (fhm_abs (g_markets g) (ticker_key t))"

definition markets_ok :: "nat \<Rightarrow> string set \<Rightarrow> nat \<Rightarrow> markets \<Rightarrow> bool" where
  "markets_ok bs T k g \<longleftrightarrow> fhm_inv MAP_CAP (g_markets g) \<and> pool_inv POOL_CAP bs (g_market_pool g) \<and>
     dom (fhm_abs (g_markets g)) = ticker_key ` T \<and> inj_on ticker_key T \<and> inj_on (market_ptr g) T \<and>
     (\<forall>t\<in>T. market_ptr g t \<in> set (pool_blocks POOL_CAP bs (g_market_pool g)) - set (free_list POOL_CAP (g_market_pool g)) \<and>
        (\<exists>st. load_obj (g_market_pool g) (market_ptr g t) = Some st \<and> book_sane (50 * int k) (ms_book st)))"

lemma markets_okD:
  assumes "markets_ok bs T k g" "t \<in> T"
  shows "fhm_get MAP_CAP (g_markets g) (ticker_key t) = Some (market_ptr g t)"
    "market g t = load_obj (g_market_pool g) (market_ptr g t)"
    "\<exists>st. market g t = Some st \<and> book_sane (50 * int k) (ms_book st)"
proof -
  have "ticker_key t \<in> dom (fhm_abs (g_markets g))" using assms by (simp add: markets_ok_def)
  then have a: "fhm_abs (g_markets g) (ticker_key t) = Some (market_ptr g t)" by (auto simp: market_ptr_def)
  show f: "fhm_get MAP_CAP (g_markets g) (ticker_key t) = Some (market_ptr g t)"
    using fhm_get_abs [of MAP_CAP "g_markets g" "ticker_key t"] a assms(1) hash_valid by (simp add: markets_ok_def)
  then show "market g t = load_obj (g_market_pool g) (market_ptr g t)" by (simp add: market_def)
  then show "\<exists>st. market g t = Some st \<and> book_sane (50 * int k) (ms_book st)" using assms by (simp add: markets_ok_def)
qed

lemma register_one:
  assumes g: "markets_ok bs T 0 g" and t: "t \<notin> T" "inj_on ticker_key (insert t T)"
    and room: "free_list POOL_CAP (g_market_pool g) = p # ps" "finite T" "card T < 1024"
  shows "\<exists>pool mp. allocate (g_market_pool g) = Some (p, pool) \<and> p \<noteq> 0 \<and> fhm_insert MAP_CAP (g_markets g) (ticker_key t) p = (mp, True) \<and>
    (let st = \<lparr>ms_book = Book_new, ms_om = OrderManager_new\<rparr>;
         g' = \<lparr>g_market_pool = store_obj p st pool, g_markets = mp\<rparr>
     in markets_ok bs (insert t T) 0 g' \<and> free_list POOL_CAP (g_market_pool g') = ps \<and> market g' t = Some st \<and>
        (\<forall>u\<in>T. market g' u = market g u))"
proof -
  let ?st = "\<lparr>ms_book = Book_new, ms_om = OrderManager_new\<rparr>" and ?B = "pool_blocks POOL_CAP bs" and ?F = "free_list POOL_CAP"
  have inv: "fhm_inv MAP_CAP (g_markets g)" "pool_inv POOL_CAP bs (g_market_pool g)" and D: "dom (fhm_abs (g_markets g)) = ticker_key ` T"
    using g by (simp_all add: markets_ok_def)
  obtain pool where P: "allocate (g_market_pool g) = Some (p, pool)" "pool_inv POOL_CAP bs pool" "set (?B pool) = set (?B (g_market_pool g))"
      "?F pool = ps" "load_obj pool = load_obj (g_market_pool g)"
    using pl.alloc_block [OF inv(2) room(1)] by blast
  have fb: "distinct (p # ps)" "set (p # ps) \<subseteq> set (?B (g_market_pool g))" using pl.free_blocks [OF inv(2)] room(1) by simp_all
  have "p \<in> set (?B (g_market_pool g))" using fb(2) by simp
  then have p: "p \<in> set (?B pool) - set (?F pool)" "p \<noteq> 0"
    using fb(1) P(3,4) pl.null_not_block [OF inv(2)] by (simp, metis)
  define pool' where "pool' = store_obj p ?st pool"
  have S: "pool_inv POOL_CAP bs pool'" "set (?B pool') = set (?B pool)" "?F pool' = ps" "load_obj pool' = (load_obj pool)(p \<mapsto> ?st)"
    using pl.store_live [OF P(2) p(1), of ?st] P(4) by (simp_all add: pool'_def)
  have "card (dom (fhm_abs (g_markets g))) < unat MAP_CAP" using D card_image_le [OF room(2), of ticker_key] room(3) by (simp add: MAP_CAP_def)
  then obtain mp where M: "fhm_insert MAP_CAP (g_markets g) (ticker_key t) p = (mp, True)" "fhm_inv MAP_CAP mp"
      "fhm_abs mp = (fhm_abs (g_markets g))(ticker_key t \<mapsto> p)"
    using fhm.insert_abs [OF inv(1) hash_valid] by blast
  let ?g = "\<lparr>g_market_pool = pool', g_markets = mp\<rparr>"
  have ptr: "market_ptr ?g t = p" "\<And>u. u \<in> T \<Longrightarrow> market_ptr ?g u = market_ptr g u"
    using M(3) t by (auto simp: market_ptr_def inj_on_def)
  have old: "market_ptr g u \<in> set (?B (g_market_pool g)) - set (p # ps)" "market_ptr g u \<noteq> p" if "u \<in> T" for u
    using g that room(1) by (auto simp: markets_ok_def)
  have live: "market_ptr ?g u \<in> set (?B pool') - set ps \<and>
      (\<exists>st. load_obj pool' (market_ptr ?g u) = Some st \<and> book_sane (50 * int 0) (ms_book st))" if "u \<in> insert t T" for u
  proof (cases "u = t")
    case True
    then show ?thesis using ptr(1) p(1) S P(4) book_sane_new by simp
  next
    case False
    then have u: "u \<in> T" using that by simp
    then show ?thesis using ptr(2) [OF u] old [OF u] S P(3,5) g by (auto simp: markets_ok_def)
  qed
  have "inj_on (market_ptr ?g) T" using g ptr(2) by (simp add: markets_ok_def cong: inj_on_cong)
  moreover have "market_ptr ?g t \<notin> market_ptr ?g ` T" using ptr old(2) by (metis imageE)
  ultimately have "inj_on (market_ptr ?g) (insert t T)" using t(1) by (simp add: inj_on_insert)
  then have ok: "markets_ok bs (insert t T) 0 ?g"
    using M S t(2) D live by (simp add: markets_ok_def)
  moreover have "market ?g t = Some ?st" using markets_okD(2) [OF ok, of t] ptr(1) S(4) by simp
  moreover have "market ?g u = market g u" if "u \<in> T" for u
    using markets_okD(2) [OF ok, of u] markets_okD(2) [OF g that] ptr(2) [OF that] old(2) [OF that] that S(4) P(5) by simp
  ultimately show ?thesis using P(1) p(2) M(1) S(3) by (simp add: Let_def pool'_def)
qed

lemma register_all:
  "markets_ok bs T 0 g \<Longrightarrow> finite T \<Longrightarrow> distinct (map ticker_name is) \<Longrightarrow> T \<inter> ticker_name ` set is = {} \<Longrightarrow>
    inj_on ticker_key (T \<union> ticker_name ` set is) \<Longrightarrow> length is \<le> length (free_list POOL_CAP (g_market_pool g)) \<Longrightarrow> card T + length is \<le> 1024 \<Longrightarrow>
    \<exists>g'. register_loop is g = Some g' \<and> markets_ok bs (T \<union> ticker_name ` set is) 0 g' \<and>
      (\<forall>t\<in>T. market g' t = market g t) \<and>
      (\<forall>i\<in>set is. market g' (ticker_name i) = Some \<lparr>ms_book = Book_new, ms_om = OrderManager_new\<rparr>)"
proof (induction "is" arbitrary: g T)
  case Nil
  then show ?case by simp
next
  case (Cons i "is")
  let ?t = "ticker_name i"
  obtain p ps where F: "free_list POOL_CAP (g_market_pool g) = p # ps" using Cons.prems(6) by (cases "free_list POOL_CAP (g_market_pool g)") auto
  have t: "?t \<notin> T" "inj_on ticker_key (insert ?t T)" using Cons.prems(4,5) by (auto intro: inj_on_subset)
  have c: "card T < 1024" using Cons.prems(7) by simp
  obtain pool mp where R: "allocate (g_market_pool g) = Some (p, pool)" "p \<noteq> 0" "fhm_insert MAP_CAP (g_markets g) (ticker_key ?t) p = (mp, True)"
    and G: "let st = \<lparr>ms_book = Book_new, ms_om = OrderManager_new\<rparr>; g' = \<lparr>g_market_pool = store_obj p st pool, g_markets = mp\<rparr>
     in markets_ok bs (insert ?t T) 0 g' \<and> free_list POOL_CAP (g_market_pool g') = ps \<and> market g' ?t = Some st \<and> (\<forall>u\<in>T. market g' u = market g u)"
    using register_one [OF Cons.prems(1) t F Cons.prems(2) c] by blast
  define g1 where "g1 = \<lparr>g_market_pool = store_obj p \<lparr>ms_book = Book_new, ms_om = OrderManager_new\<rparr> pool, g_markets = mp\<rparr>"
  have G1: "markets_ok bs (insert ?t T) 0 g1" "free_list POOL_CAP (g_market_pool g1) = ps"
      "market g1 ?t = Some \<lparr>ms_book = Book_new, ms_om = OrderManager_new\<rparr>" "\<And>u. u \<in> T \<Longrightarrow> market g1 u = market g u"
    using G by (simp_all add: g1_def Let_def)
  have U: "insert ?t T \<union> ticker_name ` set is = T \<union> ticker_name ` set (i # is)" by auto
  have d: "distinct (map ticker_name is)" "insert ?t T \<inter> ticker_name ` set is = {}" using Cons.prems(3,4) by auto
  have l: "length is \<le> length (free_list POOL_CAP (g_market_pool g1))" "card (insert ?t T) + length is \<le> 1024"
    using Cons.prems(2,6,7) F G1(2) t(1) by simp_all
  obtain g' where "register_loop is g1 = Some g'" "markets_ok bs (insert ?t T \<union> ticker_name ` set is) 0 g'"
      "\<forall>t\<in>insert ?t T. market g' t = market g1 t"
      "\<forall>i\<in>set is. market g' (ticker_name i) = Some \<lparr>ms_book = Book_new, ms_om = OrderManager_new\<rparr>"
    using Cons.IH [OF G1(1) _ d _ l] Cons.prems(2,5) unfolding U by (metis finite_insert)
  then show ?case using R G1(3,4) unfolding U by (simp add: g1_def [symmetric] Let_def)
qed

lemma names_ok:
  assumes "i < N_TICKERS"
  shows "length (ticker_name i) \<le> 31" "CHR 0x00 \<notin> set (ticker_name i)" \<open>CHR 0x22 \<notin> set (ticker_name i)\<close>
proof -
  have d: "digit k \<noteq> CHR 0x00" \<open>digit k \<noteq> CHR 0x22\<close> if "k < 10" for k
  proof -
    have \<open>list_all (\<lambda>d. digit d \<noteq> CHR 0x00 \<and> digit d \<noteq> CHR 0x22) [0..<10]\<close> by code_simp
    then have \<open>\<forall>d\<in>{0..<10}. digit d \<noteq> CHR 0x00 \<and> digit d \<noteq> CHR 0x22\<close> by (simp only: list_all_iff set_upt)
    with that show "digit k \<noteq> CHR 0x00" \<open>digit k \<noteq> CHR 0x22\<close> by (simp_all only: Ball_def atLeastLessThan_iff) blast+
  qed
  have "i div 100 < 10" "i div 10 mod 10 < 10" "i mod 10 < 10" "i < 1000" using assms by (simp_all add: N_TICKERS_def)
  then show "length (ticker_name i) \<le> 31" "CHR 0x00 \<notin> set (ticker_name i)" \<open>CHR 0x22 \<notin> set (ticker_name i)\<close>
    using d [symmetric] by (simp_all add: ticker_name_def pad3_digits)
qed

definition tickers :: "string set" where "tickers = ticker_name ` {..<N_TICKERS}"

text \<open>The start of the program: the pool and the map are constructed and the markets registered.\<close>

definition multi_start :: "nat \<Rightarrow> (ptr \<times> (ptr \<Rightarrow> market_state block)) option \<Rightarrow> ptr slot list option \<Rightarrow> markets option" where
  "multi_start bs mapping mem = do {
     pool \<leftarrow> Pool_new POOL_CAP bs mapping;
     mp \<leftarrow> FlatHashMap_new mem;
     register_markets \<lparr>g_market_pool = pool, g_markets = mp\<rparr>
   }"

lemma multi_start_ok:
  assumes "0 < bs" "0 < base" "length slots = 1024"
  shows "\<exists>g. multi_start bs (Some (base, mem)) (Some slots) = Some g \<and> markets_ok bs tickers 0 g \<and>
    (\<forall>i<N_TICKERS. market g (ticker_name i) = Some \<lparr>ms_book = Book_new, ms_om = OrderManager_new\<rparr>)"
proof -
  obtain pool where P: "Pool_new POOL_CAP bs (Some (base, mem)) = Some pool" by (simp add: Pool_new_def Let_def)
  have I: "pool_inv POOL_CAP bs pool" "free_list POOL_CAP pool = pool_blocks POOL_CAP bs pool"
    using Pool_new_inv [OF P _ assms(1,2)] by (simp_all add: POOL_CAP_def)
  obtain mp where M: "FlatHashMap_new (Some slots) = Some mp" "fhm_inv MAP_CAP mp" "fhm_abs mp = Map.empty"
    using FlatHashMap_new_inv [of MAP_CAP slots] cap_ok_1024 assms(3) by (auto simp: MAP_CAP_def)
  let ?g = "\<lparr>g_market_pool = pool, g_markets = mp\<rparr>"
  have ok: "markets_ok bs {} 0 ?g" using I M by (simp add: markets_ok_def)
  have inj: "inj_on ticker_name {..<256}" "inj_on ticker_key (ticker_name ` {..<256})"
    using inj_keys inj_on_imageI [of ticker_key ticker_name "{..<256}"] inj_on_imageI2 [of ticker_key ticker_name "{..<256}"]
    by (simp_all add: comp_def)
  have N: "set [0..<N_TICKERS] = {..<256}" "length [0..<N_TICKERS] = 256" by (simp_all add: N_TICKERS_def lessThan_atLeast0 del: upt_Suc)
  have D: "distinct (map ticker_name [0..<N_TICKERS])" using inj(1) N by (simp add: distinct_map del: upt_Suc set_upt)
  have L: "length [0..<N_TICKERS] \<le> length (free_list POOL_CAP (g_market_pool ?g))" "card ({} :: string set) + length [0..<N_TICKERS] \<le> 1024"
    using I(2) N(2) by (simp_all add: pool_blocks_def POOL_CAP_def N_TICKERS_def)
  obtain g where "register_loop [0..<N_TICKERS] ?g = Some g" "markets_ok bs ({} \<union> ticker_name ` {..<256}) 0 g"
      "\<forall>i\<in>{..<256}. market g (ticker_name i) = Some \<lparr>ms_book = Book_new, ms_om = OrderManager_new\<rparr>"
    using register_all [OF ok _ D _ _ L] inj(2) unfolding N by auto
  then show ?thesis using P M(1) by (simp add: multi_start_def register_markets_def tickers_def N_TICKERS_def)
qed

section \<open>The work on a message\<close>

lemma multi_step:
  assumes g: "markets_ok bs T k g" and out: "length out = 256" and d: "delta_wf d" "\<bar>d_delta d\<bar> \<le> 50" "k < 40000000"
    and t: "c_string (d_ticker d) = t" "t \<in> T" "market g t = Some st"
  shows "\<exists>b g' out'. book_apply d (ms_book st) = Some b \<and>
    multi_work d (g, out) = Some (map (\<lambda>a. action_text a t) (reconcile_actions (ms_om st) (evaluate b)), g', out') \<and>
    length out' = 256 \<and> markets_ok bs T (Suc k) g' \<and>
    market g' t = Some \<lparr>ms_book = b, ms_om = reconciled (ms_om st) (evaluate b)\<rparr> \<and>
    (\<forall>u\<in>T. u \<noteq> t \<longrightarrow> market g' u = market g u)"
proof -
  let ?p = "market_ptr g t" and ?s = "\<lparr>pl_book = ms_book st, pl_om = ms_om st, pl_out = out\<rparr>"
  have sane: "book_sane (50 * int k) (pl_book ?s)" using markets_okD(3) [OF g t(2)] t(3) by simp
  have m: "50 * int k + \<bar>d_delta d\<bar> \<le> INT32_MAX" using d(2,3) by (simp add: INT32_MAX_def)
  have "length (takeWhile (\<lambda>c. c \<noteq> CHR 0x00) (d_ticker d)) \<noteq> length (d_ticker d)"
    using d(1) takeWhile_eq_take [of "\<lambda>c. c \<noteq> CHR 0x00" "d_ticker d"] by (auto simp: delta_wf_def)
  then have "length (c_string (d_ticker d)) < 32"
    using length_takeWhile_le [of "\<lambda>c. c \<noteq> CHR 0x00" "d_ticker d"] d(1) by (simp add: delta_wf_def c_string_def)
  then have tm: "terminated (d_ticker d)" using d(1) by (simp add: delta_wf_def terminated_def)
  obtain b out' where B: "book_apply d (ms_book st) = Some b" "book_sane (50 * int k + \<bar>d_delta d\<bar>) b" "length out' = 256"
    "hot_step (d_ticker d) d ?s = Some (map (\<lambda>a. action_text a t) (reconcile_actions (ms_om st) (evaluate b)),
       \<lparr>pl_book = b, pl_om = reconciled (ms_om st) (evaluate b), pl_out = out'\<rparr>)"
    using hot_step_trade [OF sane _ d(1) m tm] out t(1) by auto
  define st' where "st' = \<lparr>ms_book = b, ms_om = reconciled (ms_om st) (evaluate b)\<rparr>"
  let ?g = "g\<lparr>g_market_pool := store_obj ?p st' (g_market_pool g)\<rparr>"
  have inv: "pool_inv POOL_CAP bs (g_market_pool g)" and live: "?p \<in> set (pool_blocks POOL_CAP bs (g_market_pool g)) - set (free_list POOL_CAP (g_market_pool g))"
    using g t(2) by (simp_all add: markets_ok_def)
  note S = pl.store_live [OF inv live, of st']
  have ptr: "market_ptr ?g = market_ptr g" by (simp add: market_ptr_def fun_eq_iff)
  have other: "market_ptr g u \<noteq> ?p" if "u \<in> T" "u \<noteq> t" for u using g t(2) that by (auto simp: markets_ok_def inj_on_def)
  have bk: "book_sane (50 * int (Suc k)) b" using book_sane_mono [OF B(2)] d(2) by simp
  have up: "\<exists>st. load_obj (g_market_pool ?g) (market_ptr g u) = Some st \<and> book_sane (50 * int (Suc k)) (ms_book st)" if "u \<in> T" for u
  proof (cases "u = t")
    case True
    then show ?thesis using S bk by (simp add: st'_def)
  next
    case False
    obtain su where "load_obj (g_market_pool g) (market_ptr g u) = Some su" "book_sane (50 * int k) (ms_book su)"
      using markets_okD(2,3) [OF g \<open>u \<in> T\<close>] by auto
    then show ?thesis using S other [OF that False] book_sane_mono [of "50 * int k" "ms_book su" "50 * int (Suc k)"] by simp
  qed
  have ok: "markets_ok bs T (Suc k) ?g" using g S up unfolding markets_ok_def ptr by simp
  have "load_obj (g_market_pool g) ?p = Some st" using markets_okD(2) [OF g t(2)] t(3) by simp
  then have "multi_work d (g, out) = Some (map (\<lambda>a. action_text a t) (reconcile_actions (ms_om st) (evaluate b)), ?g, out')"
    using markets_okD(1) [OF g t(2)] t(1) B(4) by (simp add: multi_work_def Let_def dispatch_key st'_def)
  moreover have "market ?g t = Some st'" using markets_okD(2) [OF ok t(2)] S by (simp add: ptr)
  moreover have "market ?g u = market g u" if "u \<in> T" "u \<noteq> t" for u
    using markets_okD(2) [OF ok that(1)] markets_okD(2) [OF g that(1)] S other [OF that] by (simp add: ptr)
  ultimately show ?thesis using B(1,3) ok by (auto simp: st'_def)
qed

text \<open>The messages of one market, and the actions of one market among those of all.\<close>

definition of_market :: "string \<Rightarrow> orderbook_delta list \<Rightarrow> orderbook_delta list" where
  "of_market t ds = filter (\<lambda>d. c_string (d_ticker d) = t) ds"

definition actions_of :: "string \<Rightarrow> (string \<times> action) list \<Rightarrow> action list" where
  "actions_of t tas = map snd (filter (\<lambda>ta. fst ta = t) tas)"

lemma actions_of_append: "actions_of t (xs @ ys) = actions_of t xs @ actions_of t ys"
  by (simp add: actions_of_def)

lemma actions_of_tag: "actions_of t (map (Pair u) as) = (if u = t then as else [])"
  by (induction as) (auto simp: actions_of_def comp_def)

lemma multi_trade:
  "markets_ok bs T k g \<Longrightarrow> length out = 256 \<Longrightarrow>
    \<forall>d\<in>set ds. delta_wf d \<and> \<bar>d_delta d\<bar> \<le> 50 \<and> c_string (d_ticker d) \<in> T \<Longrightarrow> k + length ds \<le> 40000000 \<Longrightarrow>
    \<exists>tas g' out'. work_all multi_work ds (g, out) = Some (map (\<lambda>(t, a). action_text a t) tas, g', out') \<and>
      length out' = 256 \<and> markets_ok bs T (k + length ds) g' \<and>
      (\<forall>t\<in>T. \<exists>st st'. market g t = Some st \<and> market g' t = Some st' \<and>
         run_strategy (of_market t ds) (ms_book st, ms_om st) = Some (actions_of t tas, ms_book st', ms_om st'))"
proof (induction ds arbitrary: k g out)
  case Nil
  have "\<exists>st st'. market g t = Some st \<and> market g t = Some st' \<and>
      run_strategy (of_market t []) (ms_book st, ms_om st) = Some (actions_of t [], ms_book st', ms_om st')" if "t \<in> T" for t
    using markets_okD(3) [OF Nil.prems(1) that] by (auto simp: of_market_def actions_of_def)
  then show ?case using Nil.prems(1,2) by (intro exI [of _ "[]"] exI [of _ g] exI [of _ out]) simp
next
  case (Cons d ds)
  let ?t = "c_string (d_ticker d)"
  have D: "delta_wf d" "\<bar>d_delta d\<bar> \<le> 50" "?t \<in> T" "k < 40000000" using Cons.prems(3,4) by simp_all
  obtain st where st: "market g ?t = Some st" using markets_okD(3) [OF Cons.prems(1) D(3)] by blast
  obtain b g1 out1 where B: "book_apply d (ms_book st) = Some b"
      "multi_work d (g, out) = Some (map (\<lambda>a. action_text a ?t) (reconcile_actions (ms_om st) (evaluate b)), g1, out1)"
      "length out1 = 256" "markets_ok bs T (Suc k) g1"
      "market g1 ?t = Some \<lparr>ms_book = b, ms_om = reconciled (ms_om st) (evaluate b)\<rparr>"
      "\<forall>u\<in>T. u \<noteq> ?t \<longrightarrow> market g1 u = market g u"
    using multi_step [OF Cons.prems(1,2) D(1,2,4) refl D(3) st] by blast
  obtain tas g' out' where I: "work_all multi_work ds (g1, out1) = Some (map (\<lambda>(t, a). action_text a t) tas, g', out')"
      "length out' = 256" "markets_ok bs T (Suc k + length ds) g'"
    and R: "\<And>t. t \<in> T \<Longrightarrow> \<exists>st st'. market g1 t = Some st \<and> market g' t = Some st' \<and>
         run_strategy (of_market t ds) (ms_book st, ms_om st) = Some (actions_of t tas, ms_book st', ms_om st')"
    using Cons.IH [OF B(4,3)] Cons.prems(3,4) by auto
  define as where "as = reconcile_actions (ms_om st) (evaluate b)"
  let ?tas = "map (Pair ?t) as @ tas"
  have "work_all multi_work (d # ds) (g, out) = Some (map (\<lambda>(t, a). action_text a t) ?tas, g', out')"
    using B(2) I(1) by (simp add: as_def comp_def)
  moreover have "\<exists>s0 s1. market g t = Some s0 \<and> market g' t = Some s1 \<and>
      run_strategy (of_market t (d # ds)) (ms_book s0, ms_om s0) = Some (actions_of t ?tas, ms_book s1, ms_om s1)" if "t \<in> T" for t
  proof (cases "t = ?t")
    case True
    then show ?thesis using R [OF that] st B(1,5) by (auto simp: of_market_def actions_of_append actions_of_tag as_def)
  next
    case False
    then show ?thesis using R [OF that] B(6) that by (auto simp: of_market_def actions_of_append actions_of_tag)
  qed
  ultimately show ?case using I(2,3) by (intro exI [of _ ?tas] exI [of _ g'] exI [of _ out']) simp
qed

interpretation multi: message_worker "\<lambda>k (g, out). (\<exists>bs. markets_ok bs tickers k g) \<and> length out = 256"
  "\<lambda>d. delta_wf d \<and> \<bar>d_delta d\<bar> \<le> 50 \<and> c_string (d_ticker d) \<in> tickers" multi_work 40000000
proof
  fix k and s :: "markets \<times> char list" and d
  assume a: "case s of (g, out) \<Rightarrow> (\<exists>bs. markets_ok bs tickers k g) \<and> length out = 256"
    and d: "delta_wf d \<and> \<bar>d_delta d\<bar> \<le> 50 \<and> c_string (d_ticker d) \<in> tickers" "k < 40000000"
  obtain g out bs where s: "s = (g, out)" "markets_ok bs tickers k g" "length out = 256" using a by (cases s) auto
  obtain st where "market g (c_string (d_ticker d)) = Some st" using markets_okD(3) [OF s(2)] d(1) by blast
  then show "\<exists>ts s'. multi_work d s = Some (ts, s') \<and> (case s' of (g, out) \<Rightarrow> (\<exists>bs. markets_ok bs tickers (Suc k) g) \<and> length out = 256)"
    using multi_step [OF s(2,3) _ _ d(2) refl, of d st] d(1) unfolding s(1) by force
qed

section \<open>The messages\<close>

lemma multi_payload_loop_ok:
  "length (multi_payload_loop lf is s) = length is \<and> (\<forall>p\<in>set (multi_payload_loop lf is s). \<exists>i<N_TICKERS. payload_ok (ticker_name i) p)"
proof (induction "is" arbitrary: s)
  case (Cons i "is")
  obtain tid s' where x: "xorshift_range 0 (of_nat (N_TICKERS - 1)) s = (tid, s')" by fastforce
  have "tid \<le> 255" using xorshift_range_ok(2) [of 0 "of_nat (N_TICKERS - 1)" s] x by (simp add: N_TICKERS_def)
  then have "unat tid < N_TICKERS" by (simp add: N_TICKERS_def word_le_nat_alt)
  then show ?case using Cons one_payload_ok [of "ticker_name (unat tid)" lf i s'] x by (auto simp: split_beta)
qed simp

lemma multi_delta_at_ok:
  assumes "\<And>i. i < N_TICKERS \<Longrightarrow> reads_payloads sj (ticker_name i)" "length (d_ticker d0) = 32"
    "pp_pool pp = build_multi_pool lf" "pp_sj pp = sj" "\<And>i. pp_index pp i < N_PAYLOADS"
  shows "delta_wf (delta_at pp d0 (Suc n)) \<and> \<bar>d_delta (delta_at pp d0 (Suc n))\<bar> \<le> 50 \<and> c_string (d_ticker (delta_at pp d0 (Suc n))) \<in> tickers"
proof -
  have p: "\<exists>i<N_TICKERS. payload_ok (ticker_name i) (pp_pool pp ! pp_index pp n)" for n
    using multi_payload_loop_ok [of lf "[0..<N_PAYLOADS]" "0xDEADBEEFCAFEBABE"] assms(5) [of n]
    by (simp add: assms(3) build_multi_pool_def)
  have step: "\<exists>d. parse_orderbook_delta sj (pp_pool pp ! pp_index pp n) out = (True, d) \<and> delta_wf d \<and> \<bar>d_delta d\<bar> \<le> 50 \<and>
      c_string (d_ticker d) \<in> tickers" if "length (d_ticker out) = 32" for n out
  proof -
    obtain i where i: "i < N_TICKERS" "payload_ok (ticker_name i) (pp_pool pp ! pp_index pp n)" using p by blast
    then show ?thesis using parse_payload [OF assms(1) [OF i(1)] i(2) names_ok(1,2) that] by (auto simp: tickers_def)
  qed
  have l: "length (d_ticker (delta_at pp d0 n)) = 32" for n
  proof (induction n)
    case (Suc n)
    then show ?case using step [OF Suc, of n] assms(4) by (auto simp: delta_wf_def)
  qed (simp add: assms(2))
  show ?thesis using step [OF l, of n n] assms(4) by auto
qed

section \<open>The whole program\<close>

definition multi_run :: "('d, 'o) simdjson \<Rightarrow> bool \<Rightarrow> hot_msg \<Rightarrow> (markets \<times> char list) pipe \<Rightarrow> bool" where
  "multi_run sj lf msg s \<longleftrightarrow> (\<forall>i<N_TICKERS. reads_payloads sj (ticker_name i)) \<and> length (d_ticker (hm_delta msg)) = 32 \<and>
     (\<exists>data out bs base mem slots g. length data = 1024 \<and> length out = 256 \<and> 0 < bs \<and> 0 < base \<and> length slots = 1024 \<and>
       multi_start bs (Some (base, mem)) (Some slots) = Some g \<and>
       pipe_reach (bench_hotpath_multi sj lf) (pipe_start data msg (g, out) (replicate 1000000 0)) s)"

lemma multi_program_sel:
  "pp_index (bench_hotpath_multi sj lf) i < N_PAYLOADS"
  "pp_pool (bench_hotpath_multi sj lf) = build_multi_pool lf" "pp_sj (bench_hotpath_multi sj lf) = sj"
  "pp_work (bench_hotpath_multi sj lf) = multi_work" "n_warmup (bench_hotpath_multi sj lf) = 10000"
  "n_total (bench_hotpath_multi sj lf) = 1010000" "queue_cap (bench_hotpath_multi sj lf) = 1024"
  by (simp_all add: bench_hotpath_multi_def N_PAYLOADS_def)

lemma multi_run_inv:
  assumes "multi_run sj lf msg s"
  obtains g out bs ms where "sync_ok (bench_hotpath_multi sj lf) s" "flow_ok (bench_hotpath_multi sj lf) (hm_delta msg) (g, out) s ms"
    "length out = 256" "markets_ok bs tickers 0 g"
    "\<forall>i<N_TICKERS. market g (ticker_name i) = Some \<lparr>ms_book = Book_new, ms_om = OrderManager_new\<rparr>"
proof -
  let ?pp = "bench_hotpath_multi sj lf"
  obtain data out bs base mem slots g where R: "length data = 1024" "length out = 256" "0 < bs" "0 < base" "length slots = 1024"
      "multi_start bs (Some (base, mem)) (Some slots) = Some g" "pipe_reach ?pp (pipe_start data msg (g, out) (replicate 1000000 0)) s"
    using assms unfolding multi_run_def by blast
  have g: "markets_ok bs tickers 0 g" "\<forall>i<N_TICKERS. market g (ticker_name i) = Some \<lparr>ms_book = Book_new, ms_om = OrderManager_new\<rparr>"
    using multi_start_ok [OF R(3-5), of mem] R(6) by auto
  have "sync_ok ?pp s" "\<exists>ms. flow_ok ?pp (hm_delta msg) (g, out) s ms"
    using pipe_invariant [OF R(7)] R(1) cap_ok_1024 by (simp_all add: multi_program_sel)
  then show thesis using that R(2) g by blast
qed

lemma multi_messages_ok:
  assumes "multi_run sj lf msg s"
  shows "\<forall>d\<in>set (messages (bench_hotpath_multi sj lf) (hm_delta msg) n). delta_wf d \<and> \<bar>d_delta d\<bar> \<le> 50 \<and> c_string (d_ticker d) \<in> tickers"
  using multi_delta_at_ok [of sj "hm_delta msg" "bench_hotpath_multi sj lf" lf] assms
  by (auto simp: messages_def multi_run_def multi_program_sel simp del: delta_at.simps)

text \<open>Registration never aborts: whatever memory the pool and the hash map get, the 256 markets are
  all allocated and inserted, although their keys are hashes, and each ticker then leads to a block of
  its own that holds an empty book and a fresh order manager.\<close>

theorem register_markets_ok:
  assumes "0 < bs" "0 < base" "length slots = 1024"
  shows "\<exists>g. multi_start bs (Some (base, mem)) (Some slots) = Some g \<and>
    (\<forall>i<N_TICKERS. market g (ticker_name i) = Some \<lparr>ms_book = Book_new, ms_om = OrderManager_new\<rparr>) \<and>
    inj_on (\<lambda>i. market_ptr g (ticker_name i)) {..<N_TICKERS}"
proof -
  obtain g where g: "multi_start bs (Some (base, mem)) (Some slots) = Some g" "markets_ok bs tickers 0 g"
      "\<forall>i<N_TICKERS. market g (ticker_name i) = Some \<lparr>ms_book = Book_new, ms_om = OrderManager_new\<rparr>"
    using multi_start_ok [OF assms] by blast
  have "inj_on ticker_name {..<N_TICKERS}"
    using inj_keys inj_on_imageI2 [of ticker_key ticker_name "{..<256}"] by (simp add: comp_def N_TICKERS_def)
  moreover have "inj_on (market_ptr g) (ticker_name ` {..<N_TICKERS})" using g(2) by (simp add: markets_ok_def tickers_def)
  ultimately have "inj_on (\<lambda>i. market_ptr g (ticker_name i)) {..<N_TICKERS}" using comp_inj_on [of ticker_name] by (simp add: comp_def)
  then show ?thesis using g by blast
qed

theorem register_markets_ok_witness:
  "\<exists>g. multi_start 4096 (Some (65536, \<lambda>_. Link 7)) (Some (replicate 1024 \<lparr>slot_key = 3, slot_value = 9\<rparr>)) = Some g \<and>
     market g ''MKT-255'' = Some \<lparr>ms_book = Book_new, ms_om = OrderManager_new\<rparr>"
proof -
  have "ticker_name 255 = ''MKT-255''" "255 < N_TICKERS" by code_simp+
  then show ?thesis
    using register_markets_ok [of 4096 65536 "replicate 1024 \<lparr>slot_key = 3, slot_value = 9\<rparr>" "\<lambda>_. Link 7"]
    by (metis length_replicate zero_less_numeral)
qed

text \<open>(C5) The shared pipeline with 256 markets refines 256 independent single-market pipelines: in every
  interleaving of the threads nothing aborts, and the actions emitted for each market, its book and its
  order manager are exactly those of a private sequential pipeline that is fed only the messages of that
  market, in their order. So the hash dispatch never misses and never mixes two markets.\<close>

theorem multi_refines:
  assumes "multi_run sj lf msg s"
  shows "\<exists>tas g out. c_work s = Some (map (\<lambda>(t, a). action_text a t) tas, g, out) \<and>
    (\<forall>i<N_TICKERS. \<exists>b om. market g (ticker_name i) = Some \<lparr>ms_book = b, ms_om = om\<rparr> \<and>
       run_strategy (of_market (ticker_name i) (messages (bench_hotpath_multi sj lf) (hm_delta msg) (c_i s))) (Book_new, OrderManager_new) =
         Some (actions_of (ticker_name i) tas, b, om))"
proof -
  let ?pp = "bench_hotpath_multi sj lf" and ?d = "hm_delta msg"
  obtain g0 out0 bs ms where I: "sync_ok ?pp s" "flow_ok ?pp ?d (g0, out0) s ms" "length out0 = 256" "markets_ok bs tickers 0 g0"
    "\<forall>i<N_TICKERS. market g0 (ticker_name i) = Some \<lparr>ms_book = Book_new, ms_om = OrderManager_new\<rparr>" using multi_run_inv [OF assms] .
  have w: "c_i s \<le> 1010000" "c_work s = work_all multi_work (messages ?pp ?d (c_i s)) (g0, out0)"
    using I(2) by (simp_all add: flow_ok_def multi_program_sel)
  obtain tas g out where M: "c_work s = Some (map (\<lambda>(t, a). action_text a t) tas, g, out)"
    and R: "\<And>t. t \<in> tickers \<Longrightarrow> \<exists>st st'. market g0 t = Some st \<and> market g t = Some st' \<and>
         run_strategy (of_market t (messages ?pp ?d (c_i s))) (ms_book st, ms_om st) = Some (actions_of t tas, ms_book st', ms_om st')"
    using multi_trade [OF I(4,3) multi_messages_ok [OF assms, of "c_i s"]] w by auto
  have "\<exists>b om. market g (ticker_name i) = Some \<lparr>ms_book = b, ms_om = om\<rparr> \<and>
       run_strategy (of_market (ticker_name i) (messages ?pp ?d (c_i s))) (Book_new, OrderManager_new) = Some (actions_of (ticker_name i) tas, b, om)"
    if "i < N_TICKERS" for i
  proof -
    have "ticker_name i \<in> tickers" using that by (simp add: tickers_def)
    from R [OF this] obtain st' where "market g (ticker_name i) = Some st'"
      "run_strategy (of_market (ticker_name i) (messages ?pp ?d (c_i s))) (Book_new, OrderManager_new) = Some (actions_of (ticker_name i) tas, ms_book st', ms_om st')"
      using I(5) \<open>i < N_TICKERS\<close> by auto
    then show ?thesis by (cases st') simp
  qed
  then show ?thesis using M by blast
qed

lemma multi_run_start:
  "\<exists>s. multi_run payload_json True \<lparr>hm_delta = blank_delta, hm_tsc = 0\<rparr> s"
proof -
  let ?m = "\<lparr>hm_delta = blank_delta, hm_tsc = 0\<rparr>"
  have l: "length (replicate 1024 ?m) = 1024" "length (replicate 256 (CHR 0x00)) = 256" "length (d_ticker (hm_delta ?m)) = 32"
    by (simp_all add: blank_delta_def)
  have "decode_payload (payload_text (ticker_name i) seq price delta sd ts) = Some (seq, ticker_name i, ucast price, delta, sd, uint ts)"
    if "i < N_TICKERS" "payload_fields price delta sd ts" for i seq price delta sd ts
    using that names_ok(3) by (intro decode_payload_text) (auto simp: payload_fields_def)
  then have "\<forall>i<N_TICKERS. reads_payloads payload_json (ticker_name i)" by (simp add: reads_payloads_def payload_json_def)
  moreover obtain g where "multi_start 4096 (Some (65536, \<lambda>_. Link 7)) (Some (replicate 1024 \<lparr>slot_key = 3, slot_value = 9\<rparr>)) = Some g"
    using multi_start_ok [of 4096 65536 "replicate 1024 \<lparr>slot_key = 3, slot_value = 9\<rparr>" "\<lambda>_. Link 7"] by auto
  moreover have "(0::nat) < 4096" "(0::nat) < 65536" "length (replicate 1024 \<lparr>slot_key = 3, slot_value = 9 :: nat\<rparr>) = 1024" by simp_all
  ultimately show ?thesis unfolding multi_run_def using l pipe_reach.start by blast
qed

theorem multi_refines_witness:
  "\<exists>s tas g out b om. multi_run payload_json True \<lparr>hm_delta = blank_delta, hm_tsc = 0\<rparr> s \<and>
     c_work s = Some (map (\<lambda>(t, a). action_text a t) tas, g, out) \<and> market g (ticker_name 42) = Some \<lparr>ms_book = b, ms_om = om\<rparr> \<and>
     run_strategy (of_market (ticker_name 42) (messages (bench_hotpath_multi payload_json True) blank_delta (c_i s))) (Book_new, OrderManager_new) =
       Some (actions_of (ticker_name 42) tas, b, om)"
proof -
  obtain s where s: "multi_run payload_json True \<lparr>hm_delta = blank_delta, hm_tsc = 0\<rparr> s" using multi_run_start by blast
  have "42 < N_TICKERS" by (simp add: N_TICKERS_def)
  then show ?thesis using multi_refines [OF s] s by (metis hot_msg.select_convs(1))
qed

end
