(* ===== verification/Paced_Config.thy ===== *)
theory Paced_Config
  imports Cpp_String Hot_Path
begin

text \<open>
  The command line and the arrival schedule of \<open>bench/bench_hotpath_paced.cpp\<close>. Numbers of type
  \<open>double\<close> are left abstract: their operations are a record (\<open>floats\<close>) about which nothing is
  assumed, so what is shown of the schedule holds for every rounding.
\<close>

unbundle bit_operations_syntax

section \<open>The command line\<close>

datatype pace_mode = UNIFORM | POISSON | BURST

record 'r paced_config =
  g_n_measure :: int
  g_rate_hz :: 'r
  g_burst_size :: int
  g_core_prod :: u32
  g_core_cons :: u32
  g_csv :: bool
  g_mode :: pace_mode

definition default_config :: "'r \<Rightarrow> 'r paced_config" where
  "default_config rate = \<lparr>g_n_measure = 1000000, g_rate_hz = rate, g_burst_size = 64, g_core_prod = 16, g_core_cons = 18,
     g_csv = False, g_mode = UNIFORM\<rparr>"

text \<open>\<open>std::atoi\<close>: zero without digits, undefined if the number does not fit an \<open>int\<close>.\<close>

definition atoi :: "string \<Rightarrow> int option" where
  "atoi s =
    (let s = dropWhile is_space s;
         neg = (s \<noteq> [] \<and> hd s = CHR ''-'');
         s = (if s \<noteq> [] \<and> (hd s = CHR ''-'' \<or> hd s = CHR ''+'') then tl s else s);
         n = int (value_of (takeWhile is_digit s));
         v = (if neg then - n else n)
     in if v < - (2 ^ 31) \<or> v \<ge> 2 ^ 31 then None else Some v)"

text \<open>The program exits with a status, or goes on with a configuration, or its behaviour is undefined.\<close>

datatype 'c args_result = Exits nat | Args_undefined | Config 'c

definition with_int :: "string \<Rightarrow> (int \<Rightarrow> 'c args_result) \<Rightarrow> 'c args_result" where
  "with_int v f = (case atoi v of None \<Rightarrow> Args_undefined | Some n \<Rightarrow> f n)"

lemma with_int_cong [fundef_cong]:
  "v = w \<Longrightarrow> (\<And>n. f n = g n) \<Longrightarrow> with_int v f = with_int w g"
  by (simp add: with_int_def split: option.split)

fun args_loop :: "(string \<Rightarrow> 'r) \<Rightarrow> string list \<Rightarrow> 'r paced_config \<Rightarrow> 'r paced_config args_result" where
  "args_loop atof [] c = Config c"
| "args_loop atof (a # as) c =
    (if a = ''--rate'' then
       (case as of [] \<Rightarrow> Exits 2 | v # as \<Rightarrow> args_loop atof as (c\<lparr>g_rate_hz := atof v\<rparr>))
     else if a = ''--n'' then
       (case as of [] \<Rightarrow> Exits 2 | v # as \<Rightarrow> with_int v (\<lambda>n. args_loop atof as (c\<lparr>g_n_measure := n\<rparr>)))
     else if a = ''--burst'' then
       (case as of [] \<Rightarrow> Exits 2 | v # as \<Rightarrow> with_int v (\<lambda>n. args_loop atof as (c\<lparr>g_burst_size := n\<rparr>)))
     else if a = ''--pcore'' then
       (case as of [] \<Rightarrow> Exits 2 | v # as \<Rightarrow> with_int v (\<lambda>n. args_loop atof as (c\<lparr>g_core_prod := of_int n\<rparr>)))
     else if a = ''--ccore'' then
       (case as of [] \<Rightarrow> Exits 2 | v # as \<Rightarrow> with_int v (\<lambda>n. args_loop atof as (c\<lparr>g_core_cons := of_int n\<rparr>)))
     else if a = ''--csv'' then args_loop atof as (c\<lparr>g_csv := True\<rparr>)
     else if a = ''--mode'' then
       (case as of
          [] \<Rightarrow> Exits 2
        | m # as \<Rightarrow>
            if m = ''uniform'' then args_loop atof as (c\<lparr>g_mode := UNIFORM\<rparr>)
            else if m = ''poisson'' then args_loop atof as (c\<lparr>g_mode := POISSON\<rparr>)
            else if m = ''burst'' then args_loop atof as (c\<lparr>g_mode := BURST\<rparr>)
            else Exits 2)
     else Exits 2)"

definition parse_args :: "(string \<Rightarrow> 'r) \<Rightarrow> ('r \<Rightarrow> bool) \<Rightarrow> 'r \<Rightarrow> string list \<Rightarrow> 'r paced_config args_result" where
  "parse_args atof le_zero rate args =
    (case args_loop atof args (default_config rate) of
       Config c \<Rightarrow> if le_zero (g_rate_hz c) \<or> g_n_measure c \<le> 0 \<or> g_burst_size c \<le> 0 then Exits 2 else Config c
     | r \<Rightarrow> r)"

section \<open>The schedule\<close>

record 'r floats =
  fl_zero :: 'r
  fl_one :: 'r
  fl_1e9 :: 'r
  fl_2p53_1 :: 'r
  fl_add :: "'r \<Rightarrow> 'r \<Rightarrow> 'r"
  fl_mul :: "'r \<Rightarrow> 'r \<Rightarrow> 'r"
  fl_div :: "'r \<Rightarrow> 'r \<Rightarrow> 'r"
  fl_neg :: "'r \<Rightarrow> 'r"
  fl_log :: "'r \<Rightarrow> 'r"
  fl_of_u64 :: "u64 \<Rightarrow> 'r"
  fl_of_int :: "int \<Rightarrow> 'r"
  fl_to_u64 :: "'r \<Rightarrow> u64 option"

definition xorshift_unit :: "'r floats \<Rightarrow> u64 \<Rightarrow> 'r \<times> u64" where
  "xorshift_unit fl s =
    (let s = xorshift_next s
     in (fl_div fl (fl_add fl (fl_of_u64 fl (drop_bit 11 s)) (fl_one fl)) (fl_2p53_1 fl), s))"

fun uniform_loop :: "'r floats \<Rightarrow> 'r \<Rightarrow> 'r \<Rightarrow> nat list \<Rightarrow> 'r \<Rightarrow> u64 list option" where
  "uniform_loop fl gap cpn [] t = Some []"
| "uniform_loop fl gap cpn (i # is) t = do {
     x \<leftarrow> fl_to_u64 fl (fl_mul fl t cpn);
     xs \<leftarrow> uniform_loop fl gap cpn is (fl_add fl t gap);
     Some (x # xs)
   }"

fun poisson_loop :: "'r floats \<Rightarrow> 'r \<Rightarrow> 'r \<Rightarrow> nat list \<Rightarrow> 'r \<Rightarrow> u64 \<Rightarrow> u64 list option" where
  "poisson_loop fl gap cpn [] t s = Some []"
| "poisson_loop fl gap cpn (i # is) t s = do {
     x \<leftarrow> fl_to_u64 fl (fl_mul fl t cpn);
     (case xorshift_unit fl s of (u, s) \<Rightarrow> do {
        xs \<leftarrow> poisson_loop fl gap cpn is (fl_add fl t (fl_mul fl (fl_neg fl (fl_log fl u)) gap)) s;
        Some (x # xs)
      })
   }"

fun burst_loop :: "'r floats \<Rightarrow> 'r \<Rightarrow> 'r \<Rightarrow> nat \<Rightarrow> nat list \<Rightarrow> 'r \<Rightarrow> u64 list option" where
  "burst_loop fl gap cpn burst [] t = Some []"
| "burst_loop fl gap cpn burst (i # is) t =
    (let t = (if i \<noteq> 0 \<and> i mod burst = 0 then fl_add fl t gap else t)
     in do {
       x \<leftarrow> fl_to_u64 fl (fl_mul fl t cpn);
       xs \<leftarrow> burst_loop fl gap cpn burst is t;
       Some (x # xs)
     })"

definition build_schedule :: "'r floats \<Rightarrow> nat \<Rightarrow> 'r \<Rightarrow> pace_mode \<Rightarrow> nat \<Rightarrow> 'r \<Rightarrow> u64 list option" where
  "build_schedule fl n rate mode burst cpn =
    (let mean_gap = fl_div fl (fl_1e9 fl) rate
     in case mode of
          UNIFORM \<Rightarrow> uniform_loop fl mean_gap cpn [0..<n] (fl_zero fl)
        | POISSON \<Rightarrow> poisson_loop fl mean_gap cpn [0..<n] (fl_zero fl) 0x0123456789ABCDEF
        | BURST \<Rightarrow> burst_loop fl (fl_mul fl mean_gap (fl_of_int fl (int burst))) cpn burst [0..<n] (fl_zero fl))"

section \<open>What the configuration and the schedule guarantee\<close>

lemma parse_args_valid:
  assumes "parse_args atof le_zero rate args = Config c"
  shows "0 < g_n_measure c" "0 < g_burst_size c" "\<not> le_zero (g_rate_hz c)"
  using assms by (auto simp: parse_args_def split: args_result.splits if_splits)

lemma schedule_length:
  assumes "build_schedule fl n rate mode burst cpn = Some xs"
  shows "length xs = n"
proof -
  have "uniform_loop fl gap cpn is t = Some xs \<Longrightarrow> length xs = length is" for gap "is" t
    by (induction "is" arbitrary: t xs) (auto split: bind_splits)
  moreover have "poisson_loop fl gap cpn is t s = Some xs \<Longrightarrow> length xs = length is" for gap "is" t s
    by (induction "is" arbitrary: t xs s) (auto split: bind_splits prod.splits)
  moreover have "burst_loop fl gap cpn burst is t = Some xs \<Longrightarrow> length xs = length is" for gap "is" t
    by (induction "is" arbitrary: t xs) (auto simp: Let_def split: bind_splits)
  ultimately show ?thesis using assms by (fastforce simp: build_schedule_def Let_def split: pace_mode.splits)
qed

text \<open>The start time of a burst, by repeated addition.\<close>

definition burst_start :: "'r floats \<Rightarrow> 'r \<Rightarrow> nat \<Rightarrow> 'r" where
  "burst_start fl gap k = ((\<lambda>t. fl_add fl t gap) ^^ k) (fl_zero fl)"

lemma burst_start_Suc: "burst_start fl gap (Suc k) = fl_add fl (burst_start fl gap k) gap"
  by (simp add: burst_start_def)

lemma burst_loop_nth:
  assumes "0 < burst"
  shows "burst_loop fl gap cpn burst [m..<n] (burst_start fl gap ((m - 1) div burst)) = Some xs \<Longrightarrow> m \<le> i \<Longrightarrow> i < n \<Longrightarrow>
    fl_to_u64 fl (fl_mul fl (burst_start fl gap (i div burst)) cpn) = Some (xs ! (i - m))"
proof (induction "n - m" arbitrary: m xs)
  case (Suc k)
  let ?t = "burst_start fl gap (m div burst)"
  have t: "(if m \<noteq> 0 \<and> m mod burst = 0 then fl_add fl (burst_start fl gap ((m - 1) div burst)) gap else burst_start fl gap ((m - 1) div burst)) = ?t"
  proof (cases m)
    case (Suc j)
    then show ?thesis by (simp add: burst_start_Suc [symmetric] div_Suc)
  qed simp
  have "m < n" using Suc.hyps(2) by simp
  then have u: "[m..<n] = m # [Suc m..<n]" by (rule upt_conv_Cons)
  have "burst_loop fl gap cpn burst (m # [Suc m..<n]) (burst_start fl gap ((m - 1) div burst)) = Some xs" using Suc.prems(1) unfolding u .
  then obtain x ys where xs: "xs = x # ys" "fl_to_u64 fl (fl_mul fl ?t cpn) = Some x" "burst_loop fl gap cpn burst [Suc m..<n] ?t = Some ys"
    unfolding burst_loop.simps Let_def t by (auto split: bind_splits)
  show ?case
  proof (cases "i = m")
    case False
    then have "fl_to_u64 fl (fl_mul fl (burst_start fl gap (i div burst)) cpn) = Some (ys ! (i - Suc m))"
      using Suc.hyps(1) [of "Suc m" ys] Suc.hyps(2) Suc.prems(2,3) xs(3) by simp
    then show ?thesis using False Suc.prems(2) xs(1) by (simp add: nth_Cons')
  qed (simp add: xs)
qed simp

text \<open>All messages of a burst are due at the same time, and the bursts start at equal distances, whatever
  the rounding.\<close>

lemma burst_schedule:
  assumes "build_schedule fl n rate BURST burst cpn = Some xs" "0 < burst" "i < n"
  shows "fl_to_u64 fl (fl_mul fl (burst_start fl (fl_mul fl (fl_div fl (fl_1e9 fl) rate) (fl_of_int fl (int burst))) (i div burst)) cpn) = Some (xs ! i)"
    "j < n \<Longrightarrow> j div burst = i div burst \<Longrightarrow> xs ! j = xs ! i"
proof -
  let ?gap = "fl_mul fl (fl_div fl (fl_1e9 fl) rate) (fl_of_int fl (int burst))"
  have z: "burst_start fl ?gap ((0 - 1) div burst) = fl_zero fl" by (simp add: burst_start_def)
  have *: "fl_to_u64 fl (fl_mul fl (burst_start fl ?gap (k div burst)) cpn) = Some (xs ! k)" if "k < n" for k
    using burst_loop_nth [OF assms(2), of fl ?gap cpn 0 n xs k] assms(1) that z by (simp add: build_schedule_def Let_def)
  show "fl_to_u64 fl (fl_mul fl (burst_start fl ?gap (i div burst)) cpn) = Some (xs ! i)" using * [OF assms(3)] .
  show "j < n \<Longrightarrow> j div burst = i div burst \<Longrightarrow> xs ! j = xs ! i" using * [OF assms(3)] * [of j] by simp
qed

end
