(* ===== verification/Hot_Paced.thy ===== *)
theory Hot_Paced
  imports Hot_Pipe Paced_Config
begin

text \<open>
  The open-loop benchmark \<open>bench/bench_hotpath_paced.cpp\<close>: the producer releases each measured message
  when it is due and stamps it with the time at which it was due. The threads are those of
  \<open>Hot_Pipe\<close> but for the producer between the barrier and the queue; every step is a step of \<open>Hot_Pipe\<close>
  or leaves its state alone, which carries over what is known of the pipeline.
\<close>

section \<open>The threads\<close>

text \<open>The state of \<open>Hot_Pipe\<close>, whether the producer has read the clock after the barrier, its \<open>t0\<close> and
  \<open>max_late\<close>, and for each measured message its deadline and the clock reading that released it (the
  last is a history that the program does not keep).\<close>

record 's paced =
  pz_pipe :: "'s pipe"
  pz_anchored :: bool
  pz_t0 :: u64
  pz_max_late :: u64
  pz_released :: "(u64 \<times> u64) list"

definition release :: "('d, 'o, 's) pipe_program \<Rightarrow> u64 \<Rightarrow> u64 \<Rightarrow> 's paced \<Rightarrow> 's paced" where
  "release pp deadline now s =
    (let b = pz_pipe s;
         late = now - deadline;
         d = snd (parse_orderbook_delta (pp_sj pp) (pp_pool pp ! pp_index pp (p_i b)) (hm_delta (p_msg b)))
     in s\<lparr>pz_max_late := (if late > pz_max_late s then late else pz_max_late s),
          pz_pipe := b\<lparr>p_msg := \<lparr>hm_delta = d, hm_tsc = deadline\<rparr>, p_pc := At_queue\<rparr>,
          pz_released := pz_released s @ [(deadline, now)]\<rparr>)"

inductive paced_step :: "('d, 'o, 's) pipe_program \<Rightarrow> u64 list \<Rightarrow> 's paced \<Rightarrow> 's paced \<Rightarrow> bool" for pp offsets where
  pace_warm: "p_i (pz_pipe s) < n_warmup pp \<Longrightarrow> producer_step pp (pz_pipe s) b \<Longrightarrow> paced_step pp offsets s (s\<lparr>pz_pipe := b\<rparr>)"
| pace_arrive: "p_i (pz_pipe s) = n_warmup pp \<Longrightarrow> p_pc (pz_pipe s) = At_head \<Longrightarrow> producer_step pp (pz_pipe s) b \<Longrightarrow>
    paced_step pp offsets s (s\<lparr>pz_pipe := b\<rparr>)"
| pace_anchor: "p_pc (pz_pipe s) = At_barrier \<Longrightarrow> alloc_armed (pz_pipe s) \<Longrightarrow> \<not> pz_anchored s \<Longrightarrow>
    paced_step pp offsets s (s\<lparr>pz_anchored := True, pz_t0 := tsc + 10000\<rparr>)"
| pace_release: "pz_anchored s \<Longrightarrow> may_pass pp (p_pc (pz_pipe s)) (p_i (pz_pipe s)) (alloc_armed (pz_pipe s)) \<Longrightarrow>
    i = p_i (pz_pipe s) - n_warmup pp \<Longrightarrow> n_warmup pp \<le> p_i (pz_pipe s) \<Longrightarrow> i < length offsets \<Longrightarrow>
    pp_index pp (p_i (pz_pipe s)) < length (pp_pool pp) \<Longrightarrow>
    deadline = pz_t0 s + offsets ! i \<Longrightarrow> \<not> now < deadline \<Longrightarrow> paced_step pp offsets s (release pp deadline now s)"
| pace_queue: "p_pc (pz_pipe s) = At_queue \<Longrightarrow> producer_step pp (pz_pipe s) b \<Longrightarrow> paced_step pp offsets s (s\<lparr>pz_pipe := b\<rparr>)"
| pace_cons: "consumer_step pp (pz_pipe s) b \<Longrightarrow> paced_step pp offsets s (s\<lparr>pz_pipe := b\<rparr>)"
| pace_main: "main_step pp (pz_pipe s) b \<Longrightarrow> paced_step pp offsets s (s\<lparr>pz_pipe := b\<rparr>)"

definition paced_start :: "'s pipe \<Rightarrow> 's paced" where
  "paced_start b = \<lparr>pz_pipe = b, pz_anchored = False, pz_t0 = 0, pz_max_late = 0, pz_released = []\<rparr>"

inductive paced_reach :: "('d, 'o, 's) pipe_program \<Rightarrow> u64 list \<Rightarrow> 's pipe \<Rightarrow> 's paced \<Rightarrow> bool" for pp offsets b0 where
  begins: "paced_reach pp offsets b0 (paced_start b0)"
| paces: "paced_reach pp offsets b0 s \<Longrightarrow> paced_step pp offsets s s' \<Longrightarrow> paced_reach pp offsets b0 s'"

text \<open>The constants of the program; the payloads are walked from the start again after the warm-up.\<close>

definition bench_hotpath_paced :: "('d, 'o) simdjson \<Rightarrow> bool \<Rightarrow> nat \<Rightarrow> ('d, 'o, pipeline) pipe_program" where
  "bench_hotpath_paced sj lf n = \<lparr>pp_sj = sj, pp_pool = build_payload_pool lf,
     pp_index = (\<lambda>i. (if i < 10000 then i else i - 10000) mod N_PAYLOADS), pp_work = hot_step c_ticker,
     n_warmup = 10000, n_total = 10000 + n, queue_cap = 1024\<rparr>"

section \<open>The paced pipeline is a pipeline\<close>

lemma release_step:
  assumes "may_pass pp (p_pc (pz_pipe s)) (p_i (pz_pipe s)) (alloc_armed (pz_pipe s))" "pp_index pp (p_i (pz_pipe s)) < length (pp_pool pp)"
  shows "producer_step pp (pz_pipe s) (pz_pipe (release pp deadline now s))"
  using producer_step.p_parse [OF assms refl, of deadline] by (simp add: release_def Let_def)

lemma paced_simulates:
  "paced_step pp offsets s s' \<Longrightarrow> pipe_step pp (pz_pipe s) (pz_pipe s') \<or> pz_pipe s' = pz_pipe s"
  by (induction rule: paced_step.induct) (auto intro: pipe_step.intros release_step)

lemma paced_pipe_reach: "paced_reach pp offsets b0 s \<Longrightarrow> pipe_reach pp b0 (pz_pipe s)"
proof (induction rule: paced_reach.induct)
  case begins
  show ?case by (simp add: paced_start_def pipe_reach.start)
next
  case (paces s s')
  then show ?case using paced_simulates [OF paces(2)] pipe_reach.step by metis
qed

section \<open>The schedule is kept\<close>

text \<open>How many measured messages have been released.\<close>

definition n_released :: "('d, 'o, 's) pipe_program \<Rightarrow> 's pipe \<Rightarrow> nat" where
  "n_released pp b = p_i b - n_warmup pp + (if p_pc b = At_queue \<and> n_warmup pp \<le> p_i b then 1 else 0)"

definition stamp_ok :: "('d, 'o, 's) pipe_program \<Rightarrow> u64 list \<Rightarrow> u64 \<Rightarrow> nat \<Rightarrow> hot_msg \<Rightarrow> bool" where
  "stamp_ok pp offsets t0 i m \<longleftrightarrow> (n_warmup pp \<le> i \<longrightarrow> hm_tsc m = t0 + offsets ! (i - n_warmup pp))"

definition history_ok :: "('d, 'o, 's) pipe_program \<Rightarrow> u64 list \<Rightarrow> 's paced \<Rightarrow> bool" where
  "history_ok pp offsets s \<longleftrightarrow> length (pz_released s) = n_released pp (pz_pipe s) \<and>
     map fst (pz_released s) = map (\<lambda>k. pz_t0 s + offsets ! k) [0..<n_released pp (pz_pipe s)] \<and>
     list_all (\<lambda>(deadline, now). deadline \<le> now) (pz_released s) \<and>
     pz_max_late s = foldl max 0 (map (\<lambda>(deadline, now). now - deadline) (pz_released s)) \<and>
     (\<not> pz_anchored s \<longrightarrow> pz_released s = [])"

lemma history_pipe: "n_released pp b = n_released pp (pz_pipe s) \<Longrightarrow> history_ok pp offsets s \<Longrightarrow> history_ok pp offsets (s\<lparr>pz_pipe := b\<rparr>)"
  by (simp add: history_ok_def)

definition stamps_ok :: "('d, 'o, 's) pipe_program \<Rightarrow> u64 list \<Rightarrow> u64 \<Rightarrow> 's pipe \<Rightarrow> bool" where
  "stamps_ok pp offsets t0 b \<longleftrightarrow>
     (p_pc b = At_queue \<longrightarrow> stamp_ok pp offsets t0 (p_i b) (p_msg b)) \<and>
     (\<forall>j<length (sq_contents (queue_cap pp) (pq b)). stamp_ok pp offsets t0 (c_i b + j) (sq_contents (queue_cap pp) (pq b) ! j))"

text \<open>The steps of the producer that are not paced.\<close>

definition unpaced :: "('d, 'o, 's) pipe_program \<Rightarrow> 's pipe \<Rightarrow> bool" where
  "unpaced pp b \<longleftrightarrow> p_i b < n_warmup pp \<or> p_i b = n_warmup pp \<and> p_pc b = At_head \<or> p_pc b = At_queue"

lemma unpaced_released: "producer_step pp b b' \<Longrightarrow> unpaced pp b \<Longrightarrow> n_released pp b' = n_released pp b"
  by (induction rule: producer_step.induct) (auto simp: unpaced_def n_released_def may_pass_def)

lemma unpaced_stamps:
  assumes "producer_step pp b b'" "unpaced pp b" "stamps_ok pp offsets t0 b" "flow_ok pp d0 w0 b ms"
  shows "stamps_ok pp offsets t0 b'"
  using assms(1)
proof cases
  case (p_push q)
  have l: "length (sq_contents (queue_cap pp) (pq b)) = p_i b - c_i b" "c_i b \<le> p_i b" "sq_ok (queue_cap pp) (pq b)"
    using assms(4) by (simp_all add: flow_ok_def)
  have "sq_contents (queue_cap pp) q = sq_contents (queue_cap pp) (pq b) @ [p_msg b]" using push_cases(2) [OF l(3) p_push(3)] by simp
  then show ?thesis using assms(3) p_push(1,2) l(1,2) by (auto simp: stamps_ok_def nth_append less_Suc_eq)
next
  case (p_spin q)
  have "sq_contents (queue_cap pp) q = sq_contents (queue_cap pp) (pq b)" using push_cases(2) [OF _ p_spin(3)] assms(4) by (simp add: flow_ok_def)
  then show ?thesis using assms(3) p_spin by (simp add: stamps_ok_def)
next
  case (p_parse d tsc)
  then have "p_i b < n_warmup pp" using assms(2) by (auto simp: unpaced_def may_pass_def)
  then show ?thesis using assms(3) p_parse(1) by (simp add: stamps_ok_def stamp_ok_def)
qed (use assms(3) in \<open>simp add: stamps_ok_def\<close>)

lemma consumer_stamps:
  assumes "consumer_step pp b b'" "stamps_ok pp offsets t0 b" "flow_ok pp d0 w0 b ms"
  shows "stamps_ok pp offsets t0 b' \<and> n_released pp b' = n_released pp b"
  using assms(1)
proof cases
  case (c_take m q timed j r end_tsc)
  have c: "sq_contents (queue_cap pp) (pq b) = m # sq_contents (queue_cap pp) q" using pop_Some(1) [OF _ c_take(3)] assms(3) by (simp add: flow_ok_def)
  have "stamp_ok pp offsets t0 (Suc (c_i b) + k) (sq_contents (queue_cap pp) q ! k)" if "k < length (sq_contents (queue_cap pp) q)" for k
    using assms(2) that unfolding stamps_ok_def c by (metis Suc_less_eq add_Suc_shift length_Cons nth_Cons_Suc)
  then show ?thesis using assms(2) c_take(1) by (simp add: stamps_ok_def n_released_def)
next
  case (c_spin q)
  have "sq_contents (queue_cap pp) q = []" using pop_None(3) [OF _ c_spin(3)] assms(3) by (simp add: flow_ok_def)
  then show ?thesis using assms(2) c_spin(1) by (simp add: stamps_ok_def n_released_def)
qed (use assms(2) in \<open>simp_all add: stamps_ok_def n_released_def\<close>)

lemma main_stamps:
  "main_step pp b b' \<Longrightarrow> stamps_ok pp offsets t0 b \<Longrightarrow> stamps_ok pp offsets t0 b' \<and> n_released pp b' = n_released pp b"
  by (induction rule: main_step.induct) (simp_all add: stamps_ok_def n_released_def)

lemma release_history:
  assumes "history_ok pp offsets s" "pz_anchored s" "may_pass pp (p_pc (pz_pipe s)) (p_i (pz_pipe s)) armed"
    "n_warmup pp \<le> p_i (pz_pipe s)" "deadline = pz_t0 s + offsets ! (p_i (pz_pipe s) - n_warmup pp)" "\<not> now < deadline"
  shows "history_ok pp offsets (release pp deadline now s)"
proof -
  let ?i = "p_i (pz_pipe s) - n_warmup pp"
  have "p_pc (pz_pipe s) \<noteq> At_queue" using assms(3) by (auto simp: may_pass_def)
  then have "n_released pp (pz_pipe s) = ?i" by (simp add: n_released_def)
  moreover have "n_released pp (pz_pipe (release pp deadline now s)) = Suc ?i"
    using assms(4) by (simp add: n_released_def release_def Let_def)
  moreover have "pz_max_late (release pp deadline now s) = max (pz_max_late s) (now - deadline)"
    by (auto simp: release_def Let_def max_def)
  moreover have "pz_released (release pp deadline now s) = pz_released s @ [(deadline, now)]" "pz_t0 (release pp deadline now s) = pz_t0 s"
      "pz_anchored (release pp deadline now s) = pz_anchored s"
    by (simp_all add: release_def Let_def)
  ultimately show ?thesis using assms(1,2,5,6) by (simp add: history_ok_def not_less)
qed

lemma paced_step_ok:
  assumes "paced_step pp offsets s s'" "history_ok pp offsets s" "stamps_ok pp offsets (pz_t0 s) (pz_pipe s)"
    "flow_ok pp d0 w0 (pz_pipe s) ms" "sync_ok pp (pz_pipe s)"
  shows "history_ok pp offsets s' \<and> stamps_ok pp offsets (pz_t0 s') (pz_pipe s')"
  using assms(1)
proof cases
  case (pace_anchor tsc)
  have w: "p_i (pz_pipe s) = n_warmup pp" using assms(5) pace_anchor(2) by (simp add: sync_ok_def thread_ok_def)
  have "length (sq_contents (queue_cap pp) (pq (pz_pipe s))) = p_i (pz_pipe s) - c_i (pz_pipe s)" using assms(4) by (simp add: flow_ok_def)
  then have "stamps_ok pp offsets (tsc + 10000) (pz_pipe s)"
    using w pace_anchor(2) by (auto simp: stamps_ok_def stamp_ok_def)
  moreover have "n_released pp (pz_pipe s) = 0" "pz_released s = []" using assms(2) pace_anchor(4) by (auto simp: history_ok_def)
  ultimately show ?thesis using assms(2) pace_anchor(1) by (simp add: history_ok_def)
next
  case (pace_release i deadline now)
  have "history_ok pp offsets s'"
    unfolding pace_release(1) using release_history [OF assms(2) pace_release(2,3,5)] pace_release(4,8,9) by simp
  moreover have "stamps_ok pp offsets (pz_t0 s) (pz_pipe s')"
    using assms(3) pace_release(4,8) unfolding pace_release(1) by (simp add: stamps_ok_def stamp_ok_def release_def Let_def)
  ultimately show ?thesis using pace_release(1) by (simp add: release_def Let_def)
next
  case (pace_warm b)
  then show ?thesis
    using history_pipe [OF unpaced_released [OF pace_warm(3)] assms(2)] unpaced_stamps [OF pace_warm(3) _ assms(3,4)] by (simp add: unpaced_def)
next
  case (pace_arrive b)
  then show ?thesis
    using history_pipe [OF unpaced_released [OF pace_arrive(4)] assms(2)] unpaced_stamps [OF pace_arrive(4) _ assms(3,4)] by (simp add: unpaced_def)
next
  case (pace_queue b)
  then show ?thesis
    using history_pipe [OF unpaced_released [OF pace_queue(3)] assms(2)] unpaced_stamps [OF pace_queue(3) _ assms(3,4)] by (simp add: unpaced_def)
next
  case (pace_cons b)
  then show ?thesis using consumer_stamps [OF pace_cons(2) assms(3,4)] history_pipe [OF _ assms(2)] by simp
next
  case (pace_main b)
  then show ?thesis using main_stamps [OF pace_main(2) assms(3)] history_pipe [OF _ assms(2)] by simp
qed

lemma paced_invariant:
  assumes "paced_reach pp offsets (pipe_start data msg w0 lat) s" "cap_ok (queue_cap pp)" "length data = unat (queue_cap pp)"
    "n_warmup pp < n_total pp" "length lat = n_total pp - n_warmup pp"
  shows "history_ok pp offsets s \<and> stamps_ok pp offsets (pz_t0 s) (pz_pipe s)"
  using assms(1)
proof (induction rule: paced_reach.induct)
  case begins
  have "sq_contents (queue_cap pp) (SPSCQueue_new data) = []" using sq_new_ok [OF assms(2,3)] by simp
  then show ?case by (simp add: history_ok_def stamps_ok_def n_released_def paced_start_def pipe_start_def)
next
  case (paces s s')
  note I = pipe_invariant [OF paced_pipe_reach [OF paces(1)] assms(2-5)]
  obtain ms where "flow_ok pp (hm_delta msg) w0 (pz_pipe s) ms" using I(2) by blast
  then show ?case using paced_step_ok [OF paces(2) _ _ _ I(1)] paces(3) by blast
qed

section \<open>The whole program\<close>

text \<open>A run: the command line is accepted, the schedule is computed, and the threads are started.\<close>

definition paced_run ::
    "(string \<Rightarrow> 'r) \<Rightarrow> ('r \<Rightarrow> bool) \<Rightarrow> 'r \<Rightarrow> string list \<Rightarrow> 'r floats \<Rightarrow> 'r \<Rightarrow> ('d, 'o) simdjson \<Rightarrow> bool \<Rightarrow> hot_msg \<Rightarrow>
     'r paced_config \<Rightarrow> u64 list \<Rightarrow> pipeline paced \<Rightarrow> bool" where
  "paced_run atof le_zero rate args fl cpn sj lf msg c offsets s \<longleftrightarrow>
     parse_args atof le_zero rate args = Config c \<and>
     build_schedule fl (nat (g_n_measure c)) (g_rate_hz c) (g_mode c) (nat (g_burst_size c)) cpn = Some offsets \<and>
     reads_payloads sj kTicker \<and> length (d_ticker (hm_delta msg)) = 32 \<and>
     (\<exists>data out. length data = 1024 \<and> length out = 256 \<and>
       paced_reach (bench_hotpath_paced sj lf (nat (g_n_measure c))) offsets
         (pipe_start data msg (pipeline_new out) (replicate (nat (g_n_measure c)) 0)) s)"

lemma paced_program_sel:
  "pp_pool (bench_hotpath_paced sj lf n) = build_payload_pool lf" "pp_sj (bench_hotpath_paced sj lf n) = sj"
  "pp_index (bench_hotpath_paced sj lf n) i < N_PAYLOADS" "pp_work (bench_hotpath_paced sj lf n) = hot_step c_ticker"
  "n_warmup (bench_hotpath_paced sj lf n) = 10000" "n_total (bench_hotpath_paced sj lf n) = 10000 + n"
  "queue_cap (bench_hotpath_paced sj lf n) = 1024"
  by (simp_all add: bench_hotpath_paced_def N_PAYLOADS_def)

lemma paced_run_inv:
  assumes "paced_run atof le_zero rate args fl cpn sj lf msg c offsets s"
  obtains out ms where "length out = 256" "sync_ok (bench_hotpath_paced sj lf (nat (g_n_measure c))) (pz_pipe s)"
    "flow_ok (bench_hotpath_paced sj lf (nat (g_n_measure c))) (hm_delta msg) (pipeline_new out) (pz_pipe s) ms"
    "history_ok (bench_hotpath_paced sj lf (nat (g_n_measure c))) offsets s"
    "stamps_ok (bench_hotpath_paced sj lf (nat (g_n_measure c))) offsets (pz_t0 s) (pz_pipe s)"
    "length offsets = nat (g_n_measure c)"
proof -
  let ?pp = "bench_hotpath_paced sj lf (nat (g_n_measure c))"
  have n: "0 < g_n_measure c" using parse_args_valid(1) [of atof le_zero rate args c] assms by (simp add: paced_run_def)
  have "length offsets = nat (g_n_measure c)" using assms by (auto simp: paced_run_def schedule_length)
  moreover obtain data out where r: "length data = 1024" "length out = 256"
      "paced_reach ?pp offsets (pipe_start data msg (pipeline_new out) (replicate (nat (g_n_measure c)) 0)) s"
    using assms unfolding paced_run_def by blast
  have P: "cap_ok (queue_cap ?pp)" "length data = unat (queue_cap ?pp)" "n_warmup ?pp < n_total ?pp"
      "length (replicate (nat (g_n_measure c)) (0 :: u64)) = n_total ?pp - n_warmup ?pp"
    using r(1) cap_ok_1024 n by (simp_all add: paced_program_sel)
  moreover obtain ms where "flow_ok ?pp (hm_delta msg) (pipeline_new out) (pz_pipe s) ms"
    using pipe_invariant(2) [OF paced_pipe_reach [OF r(3)] P] by blast
  ultimately show thesis
    using that [OF r(2) pipe_invariant(1) [OF paced_pipe_reach [OF r(3)] P]] paced_invariant [OF r(3) P] by blast
qed

text \<open>(C27) Pacing changes nothing but the times: whatever the command line (up to 30 million measured
  messages, so that no level of the book overflows), the schedule and the clock
  readings, in every interleaving the texts that the consumer has emitted and its book and order
  manager are those of sequential processing of the messages, which walk the payloads from the start
  again after the warm-up.\<close>

theorem paced_refines:
  assumes "paced_run atof le_zero rate args fl cpn sj lf msg c offsets s" "g_n_measure c \<le> 30000000"
  shows "\<exists>as b om out.
    run_strategy (messages (bench_hotpath_paced sj lf (nat (g_n_measure c))) (hm_delta msg) (c_i (pz_pipe s))) (Book_new, OrderManager_new) =
      Some (as, b, om) \<and>
    c_work (pz_pipe s) = Some (map (\<lambda>a. action_text a kTicker) as, \<lparr>pl_book = b, pl_om = om, pl_out = out\<rparr>)"
proof -
  let ?pp = "bench_hotpath_paced sj lf (nat (g_n_measure c))" and ?d = "hm_delta msg" and ?b = "pz_pipe s"
  obtain out ms where I: "length out = 256" "flow_ok ?pp ?d (pipeline_new out) ?b ms" using paced_run_inv [OF assms(1)] by metis
  have "reads_payloads sj kTicker" "length (d_ticker ?d) = 32" using assms(1) by (simp_all add: paced_run_def)
  from delta_at_ok [OF this, of ?pp lf] have "\<forall>d\<in>set (messages ?pp ?d (c_i ?b)). delta_wf d \<and> \<bar>d_delta d\<bar> \<le> 50"
    by (auto simp: messages_def paced_program_sel simp del: delta_at.simps)
  moreover have "nat (g_n_measure c) \<le> 30000000" using assms(2) by simp
  then have "c_i ?b \<le> 40000000" using I(2) by (simp add: flow_ok_def paced_program_sel)
  moreover have "c_work ?b = work_all (hot_step c_ticker) (messages ?pp ?d (c_i ?b)) (pipeline_new out)"
    using I(2) by (simp add: flow_ok_def paced_program_sel)
  moreover have "book_sane (50 * int 0) (pl_book (pipeline_new out))" "length (pl_out (pipeline_new out)) = 256"
    using book_sane_new I(1) by (simp_all add: pipeline_new_def)
  ultimately show ?thesis using work_trade [of 0 "pipeline_new out" "messages ?pp ?d (c_i ?b)"] by (auto simp: pipeline_new_def)
qed

text \<open>An instance: times in whole nanoseconds, two messages in bursts.\<close>

definition whole_ns :: "int floats" where
  "whole_ns = \<lparr>fl_zero = 0, fl_one = 1, fl_1e9 = 1000000000, fl_2p53_1 = 9007199254740993, fl_add = (+), fl_mul = (*), fl_div = (div),
     fl_neg = id, fl_log = id, fl_of_u64 = uint, fl_of_int = id, fl_to_u64 = (\<lambda>x. Some (of_int x))\<rparr>"

definition demo_config :: "int paced_config" where
  "demo_config = (default_config 1000000)\<lparr>g_n_measure := 2, g_mode := BURST\<rparr>"

lemma demo_args: "parse_args (int \<circ> value_of) (\<lambda>r. r \<le> 0) 1000000 [''--n'', ''2'', ''--mode'', ''burst''] = Config demo_config"
  by code_simp

lemma demo_schedule: "build_schedule whole_ns 2 1000000 BURST 64 3 = Some [0, 0]"
  by code_simp

lemma paced_run_start:
  "\<exists>s. paced_run (int \<circ> value_of) (\<lambda>r. r \<le> 0) 1000000 [''--n'', ''2'', ''--mode'', ''burst''] whole_ns 3 payload_json True
     \<lparr>hm_delta = blank_delta, hm_tsc = 0\<rparr> demo_config [0, 0] s"
proof -
  let ?m = "\<lparr>hm_delta = blank_delta, hm_tsc = 0\<rparr>"
  have "length (replicate 1024 ?m) = 1024" "length (replicate 256 (CHR 0x00)) = 256" "length (d_ticker (hm_delta ?m)) = 32"
    by (simp_all add: blank_delta_def)
  moreover have "build_schedule whole_ns (nat (g_n_measure demo_config)) (g_rate_hz demo_config) (g_mode demo_config) (nat (g_burst_size demo_config)) 3 =
      Some [0, 0]"
    using demo_schedule by (simp add: demo_config_def default_config_def)
  ultimately show ?thesis unfolding paced_run_def using payload_json_reads demo_args paced_reach.begins by blast
qed

theorem paced_refines_witness:
  "\<exists>s as b om out. paced_run (int \<circ> value_of) (\<lambda>r. r \<le> 0) 1000000 [''--n'', ''2'', ''--mode'', ''burst''] whole_ns 3 payload_json True
       \<lparr>hm_delta = blank_delta, hm_tsc = 0\<rparr> demo_config [0, 0] s \<and>
     run_strategy (messages (bench_hotpath_paced payload_json True 2) blank_delta (c_i (pz_pipe s))) (Book_new, OrderManager_new) = Some (as, b, om) \<and>
     c_work (pz_pipe s) = Some (map (\<lambda>a. action_text a kTicker) as, \<lparr>pl_book = b, pl_om = om, pl_out = out\<rparr>)"
proof -
  obtain s where s: "paced_run (int \<circ> value_of) (\<lambda>r. r \<le> 0) 1000000 [''--n'', ''2'', ''--mode'', ''burst''] whole_ns 3 payload_json True
       \<lparr>hm_delta = blank_delta, hm_tsc = 0\<rparr> demo_config [0, 0] s" using paced_run_start by blast
  have n: "nat (g_n_measure demo_config) = 2" "g_n_measure demo_config \<le> 30000000" by (simp_all add: demo_config_def)
  show ?thesis using paced_refines [OF s n(2)] s unfolding n(1) hot_msg.select_convs by blast
qed

lemma foldl_max:
  fixes a :: u64
  shows "a \<le> foldl max a xs" "x \<in> set xs \<Longrightarrow> x \<le> foldl max a xs" "foldl max a xs = a \<or> foldl max a xs \<in> set xs"
proof -
  have *: "a \<le> foldl max a xs" for a :: u64 and xs by (induction xs arbitrary: a) (simp, metis foldl_Cons max.boundedE)
  then show "a \<le> foldl max a xs" .
  show "x \<in> set xs \<Longrightarrow> x \<le> foldl max a xs"
  proof (induction xs arbitrary: a)
    case (Cons y ys)
    then show ?case using * [of "max a y"] by auto
  qed simp
  show "foldl max a xs = a \<or> foldl max a xs \<in> set xs"
  proof (induction xs arbitrary: a)
    case (Cons y ys)
    then show ?case using Cons [of "max a y"] by (auto simp: max_def split: if_splits)
  qed simp
qed

text \<open>(C26) The schedule is kept without coordinated omission: measured message number \<open>k\<close> is released
  exactly once, never before it is due at \<open>t0 + offset[k]\<close>; the reported lateness is the greatest
  delay of a release; and whatever the delays, every measured message that waits in the queue carries
  the time at which it was due, from which its latency is then counted.\<close>

theorem paced_schedule:
  assumes "paced_run atof le_zero rate args fl cpn sj lf msg c offsets s"
  shows "length (pz_released s) = p_i (pz_pipe s) - 10000 + (if p_pc (pz_pipe s) = At_queue \<and> 10000 \<le> p_i (pz_pipe s) then 1 else 0) \<and>
    (\<forall>k<length (pz_released s). fst (pz_released s ! k) = pz_t0 s + offsets ! k \<and> fst (pz_released s ! k) \<le> snd (pz_released s ! k) \<and>
       snd (pz_released s ! k) - fst (pz_released s ! k) \<le> pz_max_late s) \<and>
    (pz_max_late s = 0 \<or> (\<exists>k<length (pz_released s). pz_max_late s = snd (pz_released s ! k) - fst (pz_released s ! k))) \<and>
    (\<forall>j<length (sq_contents 1024 (pq (pz_pipe s))). 10000 \<le> c_i (pz_pipe s) + j \<longrightarrow>
       hm_tsc (sq_contents 1024 (pq (pz_pipe s)) ! j) = pz_t0 s + offsets ! (c_i (pz_pipe s) + j - 10000))"
proof -
  let ?pp = "bench_hotpath_paced sj lf (nat (g_n_measure c))" and ?r = "pz_released s"
  obtain out ms where I: "history_ok ?pp offsets s" "stamps_ok ?pp offsets (pz_t0 s) (pz_pipe s)" using paced_run_inv [OF assms] by metis
  let ?l = "map (\<lambda>(deadline, now). now - deadline) ?r"
  have n: "length ?r = n_released ?pp (pz_pipe s)" and d: "map fst ?r = map (\<lambda>k. pz_t0 s + offsets ! k) [0..<length ?r]"
    and le: "list_all (\<lambda>(deadline, now). deadline \<le> now) ?r" and late: "pz_max_late s = foldl max 0 ?l"
    using I(1) by (simp_all add: history_ok_def)
  have l: "?l ! k = snd (?r ! k) - fst (?r ! k)" if "k < length ?r" for k using that by (simp add: case_prod_beta)
  have "fst (?r ! k) = pz_t0 s + offsets ! k \<and> fst (?r ! k) \<le> snd (?r ! k) \<and> snd (?r ! k) - fst (?r ! k) \<le> pz_max_late s" if k: "k < length ?r" for k
  proof -
    have "map fst ?r ! k = pz_t0 s + offsets ! k" unfolding d using k by simp
    moreover have "fst (?r ! k) \<le> snd (?r ! k)" using le k by (auto simp: list_all_length case_prod_beta)
    moreover have "?l ! k \<le> pz_max_late s" unfolding late using k by (intro foldl_max(2) nth_mem) simp
    ultimately show ?thesis using k l [OF k] by simp
  qed
  moreover have "pz_max_late s = 0 \<or> (\<exists>k<length ?r. pz_max_late s = snd (?r ! k) - fst (?r ! k))"
    using foldl_max(3) [of 0 ?l] l unfolding late in_set_conv_nth by (metis length_map)
  moreover have "hm_tsc (sq_contents 1024 (pq (pz_pipe s)) ! j) = pz_t0 s + offsets ! (c_i (pz_pipe s) + j - 10000)"
    if "j < length (sq_contents 1024 (pq (pz_pipe s)))" "10000 \<le> c_i (pz_pipe s) + j" for j
    using I(2) that by (simp add: stamps_ok_def stamp_ok_def paced_program_sel)
  moreover have "length ?r = p_i (pz_pipe s) - 10000 + (if p_pc (pz_pipe s) = At_queue \<and> 10000 \<le> p_i (pz_pipe s) then 1 else 0)"
    unfolding n by (simp add: n_released_def paced_program_sel)
  ultimately show ?thesis by blast
qed

theorem paced_schedule_witness:
  "\<exists>s. paced_run (int \<circ> value_of) (\<lambda>r. r \<le> 0) 1000000 [''--n'', ''2'', ''--mode'', ''burst''] whole_ns 3 payload_json True
       \<lparr>hm_delta = blank_delta, hm_tsc = 0\<rparr> demo_config [0, 0] s \<and>
     length (pz_released s) = p_i (pz_pipe s) - 10000 + (if p_pc (pz_pipe s) = At_queue \<and> 10000 \<le> p_i (pz_pipe s) then 1 else 0)"
proof -
  obtain s where s: "paced_run (int \<circ> value_of) (\<lambda>r. r \<le> 0) 1000000 [''--n'', ''2'', ''--mode'', ''burst''] whole_ns 3 payload_json True
       \<lparr>hm_delta = blank_delta, hm_tsc = 0\<rparr> demo_config [0, 0] s" using paced_run_start by blast
  show ?thesis using paced_schedule [OF s] s by blast
qed

end
