(* ===== verification/Bench_Workloads.thy ===== *)
theory Bench_Workloads
  imports Flat_Hash_Map Pool_Alloc Spsc_Queue "HOL-Library.Monad_Syntax"
begin

text \<open>
  The workloads of \<open>bench/bench_flat_hash_map.cpp\<close>, \<open>bench/bench_pool.cpp\<close> and (for one thread)
  \<open>bench/bench_spsc.cpp\<close> on the repository's own containers, each with the number of iterations that
  the benchmark library chooses as an argument. What they rely on comes from the interfaces \<open>fixed_map\<close>,
  \<open>block_allocator\<close> and \<open>bounded_queue\<close>. The workloads on containers of the standard library are not
  modelled.
\<close>

section \<open>Map workloads\<close>

definition FILL_N :: nat where "FILL_N = 4096"
definition LIVE :: nat where "LIVE = 100000"
definition SMALL_CAP :: u64 where "SMALL_CAP = 8192"
definition CAPACITY :: u64 where "CAPACITY = 524288"

text \<open>The loops that fill a table with the keys below a bound, and the fresh tables.\<close>

fun fill_keys :: "u64 \<Rightarrow> (u64 \<Rightarrow> u64) \<Rightarrow> u64 list \<Rightarrow> u64 flat_hash_map \<Rightarrow> u64 flat_hash_map" where
  "fill_keys cap val [] m = m"
| "fill_keys cap val (k # ks) m = fill_keys cap val ks (fst (fhm_insert cap m k (val k)))"

definition keys_below :: "nat \<Rightarrow> u64 list" where
  "keys_below n = map of_nat [0..<n]"

definition filled :: "u64 \<Rightarrow> (u64 \<Rightarrow> u64) \<Rightarrow> nat \<Rightarrow> u64 slot list option \<Rightarrow> u64 flat_hash_map option" where
  "filled cap val n mem = do { m \<leftarrow> FlatHashMap_new mem; Some (fill_keys cap val (keys_below n) m) }"

definition BM_FlatMap_FillDrain :: "u64 slot list option \<Rightarrow> u64 flat_hash_map option" where
  "BM_FlatMap_FillDrain mem = filled SMALL_CAP (\<lambda>i. i) FILL_N mem"

fun find_hit_loop :: "nat \<Rightarrow> u64 \<Rightarrow> u64 flat_hash_map \<Rightarrow> u64 option list" where
  "find_hit_loop 0 k m = []"
| "find_hit_loop (Suc n) k m = fhm_get CAPACITY m k # find_hit_loop n ((k + 1) mod of_nat LIVE) m"

definition BM_FlatMap_FindHit :: "nat \<Rightarrow> u64 slot list option \<Rightarrow> u64 option list option" where
  "BM_FlatMap_FindHit n mem = do { m \<leftarrow> filled CAPACITY (\<lambda>i. i * 7) LIVE mem; Some (find_hit_loop n 0 m) }"

fun find_miss_loop :: "nat \<Rightarrow> u64 \<Rightarrow> u64 flat_hash_map \<Rightarrow> u64 option list" where
  "find_miss_loop 0 k m = []"
| "find_miss_loop (Suc n) k m = fhm_get CAPACITY m k # find_miss_loop n (k + 1) m"

definition BM_FlatMap_FindMiss :: "nat \<Rightarrow> u64 slot list option \<Rightarrow> u64 option list option" where
  "BM_FlatMap_FindMiss n mem = do { m \<leftarrow> filled CAPACITY (\<lambda>i. i * 7) LIVE mem; Some (find_miss_loop n (of_nat LIVE) m) }"

fun churn_loop :: "nat \<Rightarrow> u64 flat_hash_map \<times> u64 \<times> u64 \<Rightarrow> (u64 flat_hash_map \<times> u64 \<times> u64) option" where
  "churn_loop 0 s = Some s"
| "churn_loop (Suc n) (m, old_id, new_id) = do {
     (m, _) \<leftarrow> fhm_erase 4096 m old_id;
     churn_loop n (fst (fhm_insert 4096 m new_id new_id), old_id + 1, new_id + 1)
   }"

definition BM_FlatMap_Churning :: "nat \<Rightarrow> u64 slot list option \<Rightarrow> (u64 flat_hash_map \<times> u64 \<times> u64) option" where
  "BM_FlatMap_Churning n mem = do { m \<leftarrow> filled 4096 (\<lambda>i. i) 1024 mem; churn_loop n (m, 0, 1024) }"

text \<open>The results of the lookups are kept in the order of the iterations.\<close>

fun mixed_loop ::
    "nat \<Rightarrow> u64 \<Rightarrow> u64 option list \<Rightarrow> u64 flat_hash_map \<times> u64 \<times> u64 \<Rightarrow> (u64 option list \<times> u64 flat_hash_map \<times> u64 \<times> u64) option" where
  "mixed_loop 0 k found s = Some (found, s)"
| "mixed_loop (Suc n) k found (m, oldest, next_id) =
    (if k mod 20 < 19
     then mixed_loop n (k + 1) (found @ [fhm_get CAPACITY m (oldest + k mod of_nat LIVE)]) (m, oldest, next_id)
     else do {
       (m, _) \<leftarrow> fhm_erase CAPACITY m oldest;
       mixed_loop n (k + 1) found (fst (fhm_insert CAPACITY m next_id next_id), oldest + 1, next_id + 1)
     })"

definition BM_FlatMap_MixedWorkload ::
    "nat \<Rightarrow> u64 slot list option \<Rightarrow> (u64 option list \<times> u64 flat_hash_map \<times> u64 \<times> u64) option" where
  "BM_FlatMap_MixedWorkload n mem = do { m \<leftarrow> filled CAPACITY (\<lambda>i. i) LIVE mem; mixed_loop n 0 [] (m, 0, of_nat LIVE) }"

fun drain :: "u64 \<Rightarrow> u64 list \<Rightarrow> u64 flat_hash_map \<Rightarrow> u64 flat_hash_map option" where
  "drain cap [] m = Some m"
| "drain cap (k # ks) m = do { (m, _) \<leftarrow> fhm_erase cap m k; drain cap ks m }"

definition BM_FlatMap_DrainAll :: "u64 slot list option \<Rightarrow> u64 flat_hash_map option" where
  "BM_FlatMap_DrainAll mem = do { m \<leftarrow> filled SMALL_CAP (\<lambda>i. i) 4096 mem; drain SMALL_CAP (keys_below 4096) m }"

section \<open>Pool workloads\<close>

text \<open>Blocks are named by their addresses; what \<open>RealisticUsage\<close> writes into the block is the object \<open>f\<close>
  of the next number.\<close>

fun alloc_dealloc_loop :: "nat \<Rightarrow> 'a pool \<Rightarrow> (ptr list \<times> 'a pool) option" where
  "alloc_dealloc_loop 0 pl = Some ([], pl)"
| "alloc_dealloc_loop (Suc n) pl = do {
     (p, pl) \<leftarrow> allocate pl;
     (ps, pl) \<leftarrow> alloc_dealloc_loop n (deallocate p pl);
     Some (p # ps, pl)
   }"

fun realistic_loop :: "(u64 \<Rightarrow> 'a) \<Rightarrow> nat \<Rightarrow> u64 \<Rightarrow> 'a pool \<Rightarrow> (ptr list \<times> 'a pool) option" where
  "realistic_loop f 0 next_id pl = Some ([], pl)"
| "realistic_loop f (Suc n) next_id pl = do {
     (p, pl) \<leftarrow> allocate pl;
     (ps, pl) \<leftarrow> realistic_loop f n (next_id + 1) (deallocate p (store_obj p (f (next_id + 1)) pl));
     Some (p # ps, pl)
   }"

fun alloc_loop :: "nat \<Rightarrow> 'a pool \<Rightarrow> (ptr list \<times> 'a pool) option" where
  "alloc_loop 0 pl = Some ([], pl)"
| "alloc_loop (Suc n) pl = do {
     (p, pl) \<leftarrow> allocate pl;
     (ps, pl) \<leftarrow> alloc_loop n pl;
     Some (p # ps, pl)
   }"

fun dealloc_loop :: "ptr list \<Rightarrow> 'a pool \<Rightarrow> 'a pool" where
  "dealloc_loop [] pl = pl"
| "dealloc_loop (p # ps) pl = dealloc_loop ps (deallocate p pl)"

fun fill_drain_loop :: "nat \<Rightarrow> nat \<Rightarrow> 'a pool \<Rightarrow> (ptr list list \<times> 'a pool) option" where
  "fill_drain_loop N 0 pl = Some ([], pl)"
| "fill_drain_loop N (Suc n) pl = do {
     (ptrs, pl) \<leftarrow> alloc_loop N pl;
     (pss, pl) \<leftarrow> fill_drain_loop N n (dealloc_loop ptrs pl);
     Some (ptrs # pss, pl)
   }"

fun pool_churn_loop :: "nat \<Rightarrow> nat \<Rightarrow> ptr list \<times> 'a pool \<Rightarrow> (ptr list \<times> 'a pool) option" where
  "pool_churn_loop 0 idx s = Some s"
| "pool_churn_loop (Suc n) idx (live, pl) = do {
     (p, pl) \<leftarrow> allocate (deallocate (live ! idx) pl);
     pool_churn_loop n ((idx + 1) mod 1024) (live[idx := p], pl)
   }"

definition BM_Pool_Churning :: "nat \<Rightarrow> 'a pool \<Rightarrow> (ptr list \<times> ptr list \<times> 'a pool) option" where
  "BM_Pool_Churning n pl = do {
     (live, pl) \<leftarrow> alloc_loop 1024 pl;
     (live', pl) \<leftarrow> pool_churn_loop n 0 (live, pl);
     Some (live, live', dealloc_loop live' pl)
   }"

section \<open>Queue workloads\<close>

fun push_pop_loop :: "'a \<Rightarrow> nat \<Rightarrow> 'a spsc \<Rightarrow> 'a option list \<times> 'a spsc" where
  "push_pop_loop x 0 q = ([], q)"
| "push_pop_loop x (Suc n) q =
    (let (_, q) = try_push 1024 x q; (out, q) = try_pop 1024 q; (outs, q) = push_pop_loop x n q
     in (out # outs, q))"

partial_function (option) drain_queue :: "'a spsc \<Rightarrow> 'a spsc option" where
  "drain_queue q = (case try_pop 1024 q of (None, q) \<Rightarrow> Some q | (Some _, q) \<Rightarrow> drain_queue q)"

text \<open>The counter is the \<open>int\<close> \<open>i\<close>, whose overflow is undefined; a push that is refused has already advanced it.\<close>

fun push_loop :: "nat \<Rightarrow> int \<Rightarrow> int spsc \<Rightarrow> (int \<times> int spsc) option" where
  "push_loop 0 i q = Some (i, q)"
| "push_loop (Suc n) i q =
    (case try_push 1024 i q of
       (True, q) \<Rightarrow> if i + 1 \<ge> 2 ^ 31 then None else push_loop n (i + 1) q
     | (False, q) \<Rightarrow>
         if i + 2 \<ge> 2 ^ 31 then None
         else do {
           q \<leftarrow> drain_queue q;
           push_loop n (i + 2) (snd (try_push 1024 (i + 1) q))
         })"

fun refill :: "int list \<Rightarrow> int spsc \<Rightarrow> int spsc" where
  "refill [] q = q"
| "refill (i # is) q = refill is (snd (try_push 1024 i q))"

fun pop_loop :: "nat \<Rightarrow> int spsc \<Rightarrow> int option list \<times> int spsc" where
  "pop_loop 0 q = ([], q)"
| "pop_loop (Suc n) q =
    (let (out, q) = (case try_pop 1024 q of
           (None, q) \<Rightarrow> try_pop 1024 (refill [0..1023] q)
         | (Some x, q) \<Rightarrow> (Some x, q));
         (outs, q) = pop_loop n q
     in (out # outs, q))"

section \<open>What the map workloads leave behind\<close>

context fixed_map
begin

text \<open>Replacing one key by another never fails, even in a full table.\<close>

lemma slide:
  assumes "inv m" "valid a" "valid b" "a \<in> dom (abs m)" "card (dom (abs m)) \<le> capacity"
  shows "\<exists>m1 m2. erase_op m a = Some (m1, True) \<and> insert_op m1 b v = (m2, True) \<and> inv m2 \<and> abs m2 = (abs m)(a := None, b \<mapsto> v)"
proof -
  obtain m1 where m1: "erase_op m a = Some (m1, True)" "inv m1" "abs m1 = (abs m)(a := None)" using erase_abs [OF assms(1,2)] assms(4) by auto
  have "card (dom (abs m1)) < card (dom (abs m))" unfolding m1(3) using finite_abs [OF assms(1)] assms(4) by (intro psubset_card_mono) auto
  then show ?thesis using insert_abs [OF m1(2) assms(3), of v] m1 assms(5) by auto
qed

end

lemma fill_abs:
  "fhm_inv cap m \<Longrightarrow> EMPTY \<notin> set ks \<Longrightarrow> card (dom (fhm_abs m) \<union> set ks) \<le> unat cap \<Longrightarrow>
    fhm_inv cap (fill_keys cap val ks m) \<and> fhm_abs (fill_keys cap val ks m) = (\<lambda>k. if k \<in> set ks then Some (val k) else fhm_abs m k)"
proof (induction ks arbitrary: m)
  case (Cons k ks)
  have fin: "finite (dom (fhm_abs m) \<union> set (k # ks))" using fhm.finite_abs [OF Cons.prems(1)] by simp
  have "card (dom (fhm_abs m)) < unat cap \<or> k \<in> dom (fhm_abs m)"
  proof (rule disjCI)
    assume "k \<notin> dom (fhm_abs m)"
    then have "dom (fhm_abs m) \<subset> dom (fhm_abs m) \<union> set (k # ks)" by auto
    from psubset_card_mono [OF fin this] Cons.prems(3) show "card (dom (fhm_abs m)) < unat cap" by (rule order.strict_trans2)
  qed
  then obtain m1 where m1: "fhm_insert cap m k (val k) = (m1, True)" "fhm_inv cap m1" "fhm_abs m1 = (fhm_abs m)(k \<mapsto> val k)"
    using fhm.insert_abs [OF Cons.prems(1), of k "val k"] Cons.prems(2) by auto
  have "dom (fhm_abs m1) \<union> set ks = dom (fhm_abs m) \<union> set (k # ks)" unfolding m1(3) by auto
  then have "fhm_inv cap (fill_keys cap val ks m1) \<and> fhm_abs (fill_keys cap val ks m1) = (\<lambda>j. if j \<in> set ks then Some (val j) else fhm_abs m1 j)"
    using Cons.IH [OF m1(2)] Cons.prems(2,3) by simp
  then show ?case using m1(1,3) by (simp add: fun_eq_iff)
qed simp

lemma keys_below_set: "n < 2 ^ 64 \<Longrightarrow> set (keys_below n) = {k. unat k < n}"
proof -
  assume n: "n < 2 ^ 64"
  have "unat (of_nat i :: u64) = i" if "i < n" for i using that n by (simp add: unat_of_nat)
  moreover have "k \<in> of_nat ` {0..<n}" if "unat k < n" for k :: u64 by (rule image_eqI [of _ _ "unat k"]) (simp_all add: that)
  ultimately show ?thesis unfolding keys_below_def set_map set_upt by auto
qed

definition window :: "u64 \<Rightarrow> nat \<Rightarrow> u64 \<rightharpoonup> u64" where
  "window a L k = (if unat a \<le> unat k \<and> unat k < unat a + L then Some k else None)"

lemma dom_window: "unat a + L \<le> 2 ^ 64 \<Longrightarrow> card (dom (window a L)) = L"
proof -
  assume l: "unat a + L \<le> 2 ^ 64"
  have "bij_betw unat (dom (window a L)) {unat a..<unat a + L}"
  proof (rule bij_betw_byWitness [where f' = of_nat])
    show "of_nat ` {unat a..<unat a + L} \<subseteq> dom (window a L)" using l by (auto simp: window_def dom_def unat_of_nat)
    show "\<forall>i\<in>{unat a..<unat a + L}. unat (of_nat i :: u64) = i" using l by (simp add: unat_of_nat)
  qed (auto simp: window_def dom_def split: if_splits)
  then show ?thesis using bij_betw_same_card by fastforce
qed

lemma window_slide:
  assumes "unat a + L < 2 ^ 64" "0 < L"
  shows "(window a L)(a := None, a + of_nat L \<mapsto> a + of_nat L) = window (a + 1) L" "unat (a + of_nat L) = unat a + L" "unat (a + 1) = unat a + 1"
proof -
  have L: "unat (of_nat L :: u64) = L" using assms by (simp add: unat_of_nat)
  show e: "unat (a + of_nat L) = unat a + L" using assms(1) L by (subst unat_plus_simple [THEN iffD1]) (simp_all add: word_le_nat_alt unat_word_ariths)
  show s: "unat (a + 1) = unat a + 1" using assms by (subst unat_plus_simple [THEN iffD1]) (simp_all add: word_le_nat_alt unat_word_ariths)
  have u: "x = y \<longleftrightarrow> unat x = unat y" for x y :: u64 by (simp add: word_unat_eq_iff)
  show "(window a L)(a := None, a + of_nat L \<mapsto> a + of_nat L) = window (a + 1) L"
  proof (rule ext)
    fix k :: u64
    show "((window a L)(a := None, a + of_nat L \<mapsto> a + of_nat L)) k = window (a + 1) L k"
      using assms(2) by (auto simp: window_def u e s)
  qed
qed

lemma filled_ok:
  assumes "cap_ok cap" "length mem = unat cap" "n \<le> unat cap" "n < 2 ^ 64 - 1"
  shows "\<exists>m. filled cap val n (Some mem) = Some m \<and> fhm_inv cap m \<and> fhm_abs m = (\<lambda>k. if unat k < n then Some (val k) else None)"
proof -
  obtain m0 where m0: "FlatHashMap_new (Some mem) = Some m0" "fhm_inv cap m0" "fhm_abs m0 = Map.empty"
    using FlatHashMap_new_inv [OF assms(1,2)] by blast
  have k: "set (keys_below n) = {k. unat k < n}" using keys_below_set assms(4) by simp
  have "unat EMPTY = 2 ^ 64 - 1" by (simp add: EMPTY_def unsigned_minus_1_eq_mask mask_eq_exp_minus_1)
  then have "EMPTY \<notin> set (keys_below n)" unfolding k using assms(4) by simp
  moreover have "card (set (keys_below n)) \<le> n" using card_length [of "keys_below n"] by (simp add: keys_below_def)
  then have "card (dom (fhm_abs m0) \<union> set (keys_below n)) \<le> unat cap" using assms(3) m0(3) by simp
  moreover have "fhm_abs m0 k = None" for k using m0(3) by simp
  ultimately show ?thesis using fill_abs [OF m0(2), of "keys_below n" val] m0(1) unfolding k by (simp add: filled_def cong: if_cong)
qed

lemma filled_window: "(\<lambda>k. if unat k < n then Some k else None) = window 0 n"
  by (simp add: window_def fun_eq_iff)

lemma not_EMPTY: "unat k < 2 ^ 64 - 1 \<Longrightarrow> k \<noteq> EMPTY"
  by (auto simp: EMPTY_def unsigned_minus_1_eq_mask mask_eq_exp_minus_1)

text \<open>One replacement of the oldest key by a new one slides the window.\<close>

lemma slide_window:
  assumes "fhm_inv cap m" "fhm_abs m = window a L" "unat a + L < 2 ^ 64 - 1" "0 < L" "L \<le> unat cap"
  shows "\<exists>m1 m2. fhm_erase cap m a = Some (m1, True) \<and> fhm_insert cap m1 (a + of_nat L) (a + of_nat L) = (m2, True) \<and> fhm_inv cap m2 \<and>
    fhm_abs m2 = window (a + 1) L"
proof -
  have l: "unat a + L < 2 ^ 64" using assms(3) by simp
  note W = window_slide [OF l assms(4)]
  have v: "a \<noteq> EMPTY" "a + of_nat L \<noteq> EMPTY" using W(2) assms(3) by (simp_all add: not_EMPTY)
  have "a \<in> dom (fhm_abs m)" using assms(2,4) by (simp add: dom_def window_def)
  moreover have "card (dom (fhm_abs m)) \<le> unat cap" using dom_window [of a L] l assms(2,5) by simp
  ultimately show ?thesis using fhm.slide [OF assms(1) v, of "a + of_nat L"] unfolding assms(2) W(1) by blast
qed

lemma churn_loop_ok:
  "fhm_inv 4096 m \<Longrightarrow> fhm_abs m = window a 1024 \<Longrightarrow> unat a + 1024 + n < 2 ^ 64 - 1 \<Longrightarrow>
    \<exists>m'. churn_loop n (m, a, a + 1024) = Some (m', a + of_nat n, a + of_nat n + 1024) \<and> fhm_inv 4096 m' \<and> fhm_abs m' = window (a + of_nat n) 1024"
proof (induction n arbitrary: m a)
  case (Suc n)
  obtain m1 m2 where S: "fhm_erase 4096 m a = Some (m1, True)" "fhm_insert 4096 m1 (a + 1024) (a + 1024) = (m2, True)" "fhm_inv 4096 m2"
      "fhm_abs m2 = window (a + 1) 1024"
    using slide_window [OF Suc.prems(1,2)] Suc.prems(3) by auto
  have "unat (a + 1) = unat a + 1" using window_slide(3) [of a 1024] Suc.prems(3) by simp
  then have "unat (a + 1) + 1024 + n < 2 ^ 64 - 1" using Suc.prems(3) by simp
  from Suc.IH [OF S(3,4) this] show ?case using S(1,2) by (simp add: algebra_simps)
qed simp

text \<open>The churning table always holds the 1024 newest keys.\<close>

lemma churning_window:
  assumes "length mem = 4096" "n < 2 ^ 64 - 1025"
  shows "\<exists>m. BM_FlatMap_Churning n (Some mem) = Some (m, of_nat n, of_nat n + 1024) \<and> fhm_inv 4096 m \<and> fhm_abs m = window (of_nat n) 1024"
proof -
  have c: "cap_ok 4096" by (simp add: cap_ok_def)
  obtain m where "filled 4096 (\<lambda>i. i) 1024 (Some mem) = Some m" "fhm_inv 4096 m" "fhm_abs m = window 0 1024"
    using filled_ok [OF c, of mem 1024 "\<lambda>i. i"] assms(1) unfolding filled_window by auto
  then show ?thesis using churn_loop_ok [of m 0 n] assms(2) by (simp add: BM_FlatMap_Churning_def)
qed

lemma mixed_loop_ok:
  "fhm_inv CAPACITY m \<Longrightarrow> fhm_abs m = window a LIVE \<Longrightarrow> unat a + LIVE + n < 2 ^ 64 - 1 \<Longrightarrow> None \<notin> set found \<Longrightarrow>
    \<exists>found' m' a'. mixed_loop n k found (m, a, a + of_nat LIVE) = Some (found', m', a', a' + of_nat LIVE) \<and> None \<notin> set found' \<and>
      fhm_inv CAPACITY m' \<and> fhm_abs m' = window a' LIVE \<and> unat a' + LIVE < 2 ^ 64 - 1"
proof (induction n arbitrary: m a k found)
  case (Suc n)
  show ?case
  proof (cases "k mod 20 < 19")
    case True
    let ?j = "k mod of_nat LIVE"
    have j: "unat ?j < LIVE" by (simp add: unat_mod LIVE_def)
    have "unat (a + ?j) = unat a + unat ?j" using Suc.prems(3) j by (subst unat_plus_simple [THEN iffD1]) (simp_all add: word_le_nat_alt unat_word_ariths)
    then have "fhm_abs m (a + ?j) = Some (a + ?j)" "a + ?j \<noteq> EMPTY" using Suc.prems(2,3) j by (simp_all add: window_def not_EMPTY)
    then have g: "fhm_get CAPACITY m (a + ?j) = Some (a + ?j)" using fhm_get_abs [OF Suc.prems(1)] by simp
    show ?thesis using Suc.IH [OF Suc.prems(1,2), of "found @ [Some (a + ?j)]" "k + 1"] Suc.prems(3,4) True g by simp
  next
    case False
    obtain m1 m2 where S: "fhm_erase CAPACITY m a = Some (m1, True)" "fhm_insert CAPACITY m1 (a + of_nat LIVE) (a + of_nat LIVE) = (m2, True)"
        "fhm_inv CAPACITY m2" "fhm_abs m2 = window (a + 1) LIVE"
      using slide_window [OF Suc.prems(1,2)] Suc.prems(3) by (auto simp: LIVE_def CAPACITY_def)
    have "unat (a + 1) = unat a + 1" using window_slide(3) [of a LIVE] Suc.prems(3) by (simp add: LIVE_def)
    then have l: "unat (a + 1) + LIVE + n < 2 ^ 64 - 1" using Suc.prems(3) by simp
    have n: "a + of_nat LIVE + 1 = a + 1 + of_nat LIVE" by (simp add: algebra_simps)
    show ?thesis using Suc.IH [OF S(3,4) l Suc.prems(4), of "k + 1"] S(1,2) False unfolding mixed_loop.simps n by simp
  qed
qed (simp add: algebra_simps)

text \<open>The lookups of present keys all hit and those of absent keys all miss.\<close>

lemma find_hit_loop_ok:
  "fhm_inv CAPACITY m \<Longrightarrow> fhm_abs m = (\<lambda>k. if unat k < LIVE then Some (k * 7) else None) \<Longrightarrow> unat k < LIVE \<Longrightarrow> None \<notin> set (find_hit_loop n k m)"
proof (induction n arbitrary: k)
  case (Suc n)
  have "k \<noteq> EMPTY" using Suc.prems(3) by (intro not_EMPTY) (simp add: LIVE_def)
  then have "fhm_get CAPACITY m k = Some (k * 7)" using fhm_get_abs [OF Suc.prems(1)] Suc.prems(2,3) by simp
  moreover have "unat ((k + 1) mod of_nat LIVE) < LIVE" by (simp add: unat_mod LIVE_def)
  ultimately show ?case using Suc.IH [OF Suc.prems(1,2)] by simp
qed simp

lemma find_miss_loop_ok:
  "fhm_inv CAPACITY m \<Longrightarrow> fhm_abs m = (\<lambda>k. if unat k < LIVE then Some (k * 7) else None) \<Longrightarrow> LIVE \<le> unat k \<Longrightarrow>
    unat k + n < 2 ^ 64 \<Longrightarrow> find_miss_loop n k m = replicate n None"
proof (induction n arbitrary: k)
  case (Suc n)
  have "k \<noteq> EMPTY" using Suc.prems(4) by (intro not_EMPTY) simp
  then have "fhm_get CAPACITY m k = None" using fhm_get_abs [OF Suc.prems(1)] Suc.prems(2,3) by simp
  moreover have "unat (k + 1) = unat k + 1" using window_slide(3) [of k 1] Suc.prems(4) by simp
  ultimately show ?case using Suc.IH [OF Suc.prems(1,2)] Suc.prems(3,4) by simp
qed simp

lemma lookups_ok:
  assumes "length mem = 524288"
  shows "\<exists>rs. BM_FlatMap_FindHit n (Some mem) = Some rs \<and> None \<notin> set rs"
    "n < 2 ^ 64 - 100000 \<Longrightarrow> BM_FlatMap_FindMiss n (Some mem) = Some (replicate n None)"
proof -
  have c: "cap_ok CAPACITY" "unat CAPACITY = 524288" by (simp_all add: cap_ok_def CAPACITY_def)
  obtain m where m: "filled CAPACITY (\<lambda>i. i * 7) LIVE (Some mem) = Some m" "fhm_inv CAPACITY m"
      "fhm_abs m = (\<lambda>k. if unat k < LIVE then Some (k * 7) else None)"
    using filled_ok [OF c(1), of mem LIVE "\<lambda>i. i * 7"] assms(1) c(2) by (auto simp: LIVE_def)
  have L: "unat (of_nat LIVE :: u64) = LIVE" by (simp add: LIVE_def)
  show "\<exists>rs. BM_FlatMap_FindHit n (Some mem) = Some rs \<and> None \<notin> set rs"
    using find_hit_loop_ok [OF m(2,3), of 0 n] m(1) by (simp add: BM_FlatMap_FindHit_def LIVE_def)
  show "n < 2 ^ 64 - 100000 \<Longrightarrow> BM_FlatMap_FindMiss n (Some mem) = Some (replicate n None)"
    using find_miss_loop_ok [OF m(2,3), of "of_nat LIVE" n] m(1) L by (simp add: BM_FlatMap_FindMiss_def LIVE_def)
qed

lemma drain_ok:
  "fhm_inv cap m \<Longrightarrow> EMPTY \<notin> set ks \<Longrightarrow> \<exists>m'. drain cap ks m = Some m' \<and> fhm_inv cap m' \<and> dom (fhm_abs m') = dom (fhm_abs m) - set ks"
proof (induction ks arbitrary: m)
  case (Cons k ks)
  obtain m1 where m1: "fhm_erase cap m k = Some (m1, k \<in> dom (fhm_abs m))" "fhm_inv cap m1" "fhm_abs m1 = (fhm_abs m)(k := None)"
    using fhm.erase_abs [OF Cons.prems(1), of k] Cons.prems(2) by auto
  obtain m' where "drain cap ks m1 = Some m'" "fhm_inv cap m'" "dom (fhm_abs m') = dom (fhm_abs m1) - set ks"
    using Cons.IH [OF m1(2)] Cons.prems(2) by auto
  then show ?case using m1(1,3) by auto
qed simp

lemma drain_all_empty:
  assumes "length mem = 8192"
  shows "\<exists>m. BM_FlatMap_DrainAll (Some mem) = Some m \<and> fhm_inv SMALL_CAP m \<and> fhm_abs m = Map.empty"
proof -
  have c: "cap_ok SMALL_CAP" "unat SMALL_CAP = 8192" by (simp_all add: cap_ok_def SMALL_CAP_def)
  obtain m where m: "filled SMALL_CAP (\<lambda>i. i) 4096 (Some mem) = Some m" "fhm_inv SMALL_CAP m" "fhm_abs m = (\<lambda>k. if unat k < 4096 then Some k else None)"
    using filled_ok [OF c(1), of mem 4096 "\<lambda>i. i"] assms(1) c(2) by auto
  have k: "set (keys_below 4096) = {k. unat k < 4096}" using keys_below_set [of 4096] by simp
  have "EMPTY \<notin> set (keys_below 4096)" unfolding k by (simp add: EMPTY_def unsigned_minus_1_eq_mask mask_eq_exp_minus_1)
  from drain_ok [OF m(2) this] obtain m' where d: "drain SMALL_CAP (keys_below 4096) m = Some m'" "fhm_inv SMALL_CAP m'"
      "dom (fhm_abs m') = dom (fhm_abs m) - {k. unat k < 4096}" unfolding k by blast
  have "dom (fhm_abs m') = {}" unfolding d(3) m(3) by (auto simp: dom_def split: if_splits)
  then have "fhm_abs m' = Map.empty" by (simp only: dom_eq_empty_conv)
  then show ?thesis using m(1) d(1,2) by (simp add: BM_FlatMap_DrainAll_def)
qed

text \<open>(C30) The mixed workload measures what it says: however many iterations run (below the exhaustion of
  the 64-bit ids), no lookup misses, no insertion fails, the table holds exactly \<open>LIVE\<close> entries, and
  these are the newest ids.\<close>

theorem mixed_always_hits:
  assumes "length mem = 524288" "n < 2 ^ 64 - 100001"
  shows "\<exists>found m oldest. BM_FlatMap_MixedWorkload n (Some mem) = Some (found, m, oldest, oldest + of_nat LIVE) \<and> None \<notin> set found \<and>
    unat (fhm_size m) = 100000 \<and>
    (\<forall>k. k \<noteq> EMPTY \<longrightarrow> fhm_get CAPACITY m k = (if unat oldest \<le> unat k \<and> unat k < unat oldest + LIVE then Some k else None))"
proof -
  have c: "cap_ok CAPACITY" "unat CAPACITY = 524288" by (simp_all add: cap_ok_def CAPACITY_def)
  obtain m0 where m0: "filled CAPACITY (\<lambda>i. i) LIVE (Some mem) = Some m0" "fhm_inv CAPACITY m0" "fhm_abs m0 = window 0 LIVE"
    using filled_ok [OF c(1), of mem LIVE "\<lambda>i. i"] assms(1) c(2) unfolding filled_window by (auto simp: LIVE_def)
  have l: "unat (0 :: u64) + LIVE + n < 2 ^ 64 - 1" using assms(2) by (simp add: LIVE_def)
  obtain found m a where M: "mixed_loop n 0 [] (m0, 0, 0 + of_nat LIVE) = Some (found, m, a, a + of_nat LIVE)" "None \<notin> set found"
      "fhm_inv CAPACITY m" "fhm_abs m = window a LIVE" "unat a + LIVE < 2 ^ 64 - 1"
    using mixed_loop_ok [OF m0(2,3) l, of "[]" 0] by auto
  have "unat (fhm_size m) = LIVE" using fhm_size_card [OF M(3)] dom_window [of a LIVE] M(4,5) by (simp add: fhm_size_def)
  moreover have "fhm_get CAPACITY m k = window a LIVE k" if "k \<noteq> EMPTY" for k using fhm_get_abs [OF M(3) that] M(4) by simp
  ultimately show ?thesis using m0(1) M(1,2) by (simp add: BM_FlatMap_MixedWorkload_def window_def LIVE_def)
qed

theorem mixed_always_hits_witness:
  "\<exists>found m oldest. BM_FlatMap_MixedWorkload 1000000 (Some (replicate 524288 \<lparr>slot_key = 5, slot_value = 0\<rparr>)) =
     Some (found, m, oldest, oldest + of_nat LIVE) \<and> None \<notin> set found \<and> unat (fhm_size m) = 100000"
  using mixed_always_hits [of "replicate 524288 \<lparr>slot_key = 5, slot_value = 0\<rparr>" 1000000] by auto

section \<open>What the queue workloads leave behind\<close>

lemma push_pop_loop_ok:
  "sq_ok 1024 q \<Longrightarrow> sq_contents 1024 q = [] \<Longrightarrow>
    \<exists>q'. push_pop_loop x n q = (replicate n (Some x), q') \<and> sq_ok 1024 q' \<and> sq_contents 1024 q' = []"
proof (induction n arbitrary: q)
  case (Suc n)
  let ?q = "snd (try_push 1024 x q)"
  have p: "sq_ok 1024 ?q" "sq_contents 1024 ?q = [x]" using sq.push_inv [OF Suc.prems(1)] sq.push_room [OF Suc.prems(1), of x] Suc.prems(2) by simp_all
  have o: "sq_ok 1024 (snd (try_pop 1024 ?q))" "fst (try_pop 1024 ?q) = Some x" "sq_contents 1024 (snd (try_pop 1024 ?q)) = []"
    using sq.pop_inv [OF p(1)] sq.pop_item [OF p] by simp_all
  show ?case using Suc.IH [OF o(1,3)] o(2) by (auto simp: split_beta)
qed simp

lemma drain_queue_ok:
  "sq_ok 1024 q \<Longrightarrow> \<exists>q'. drain_queue q = Some q' \<and> sq_ok 1024 q' \<and> sq_contents 1024 q' = []"
proof (induction "sq_contents 1024 q" arbitrary: q)
  case Nil
  then show ?case
    using sq.pop_empty [OF Nil.prems] sq.pop_inv [OF Nil.prems] by (subst drain_queue.simps) (auto split: prod.split option.split)
next
  case (Cons x xs)
  have p: "fst (try_pop 1024 q) = Some x" "sq_contents 1024 (snd (try_pop 1024 q)) = xs" "sq_ok 1024 (snd (try_pop 1024 q))"
    using sq.pop_item [OF Cons.prems Cons.hyps(2) [symmetric]] sq.pop_inv [OF Cons.prems] by simp_all
  have "drain_queue q = drain_queue (snd (try_pop 1024 q))" using p(1) by (subst drain_queue.simps) (simp add: case_prod_beta)
  then show ?case using Cons.hyps(1) [OF p(2) [symmetric] p(3)] by simp
qed

text \<open>The pushing workload always returns, and after every iteration something is in the queue.\<close>

lemma push_loop_ok:
  "sq_ok 1024 q \<Longrightarrow> i + 2 * int n < 2 ^ 31 \<Longrightarrow> \<exists>j q'. push_loop n i q = Some (j, q') \<and> sq_ok 1024 q' \<and> (0 < n \<longrightarrow> sq_contents 1024 q' \<noteq> [])"
proof (induction n arbitrary: i q)
  case (Suc n)
  have step: "\<exists>j q'. push_loop n k (snd (try_push 1024 y p)) = Some (j, q') \<and> sq_ok 1024 q' \<and> sq_contents 1024 q' \<noteq> []"
    if "sq_ok 1024 p" "length (sq_contents 1024 p) < 1024" "k + 2 * int n < 2 ^ 31" for k y p
  proof -
    have q: "sq_ok 1024 (snd (try_push 1024 y p))" "sq_contents 1024 (snd (try_push 1024 y p)) \<noteq> []"
      using sq.push_inv [OF that(1)] sq.push_room [OF that(1)] that(2) by simp_all
    show ?thesis using Suc.IH [OF q(1) that(3)] q by (cases n) auto
  qed
  show ?case
  proof (cases "length (sq_contents 1024 q) < 1024")
    case True
    then have "fst (try_push 1024 i q)" using sq.push_room [OF Suc.prems(1)] by simp
    then show ?thesis using step [OF Suc.prems(1) True, of "i + 1" i] Suc.prems(2) by (cases "try_push 1024 i q") auto
  next
    case False
    then have "length (sq_contents 1024 q) = 1024" using sq.bounded [OF Suc.prems(1)] by simp
    then have f: "\<not> fst (try_push 1024 i q)" using sq.push_full [OF Suc.prems(1)] by simp
    obtain p where p: "drain_queue (snd (try_push 1024 i q)) = Some p" "sq_ok 1024 p" "sq_contents 1024 p = []"
      using drain_queue_ok [OF sq.push_inv [OF Suc.prems(1)]] by blast
    then show ?thesis using step [OF p(2), of "i + 2" "i + 1"] f Suc.prems(2) by (cases "try_push 1024 i q") auto
  qed
qed simp

lemma refill_ok:
  "sq_ok 1024 q \<Longrightarrow> length (sq_contents 1024 q) + length is \<le> 1024 \<Longrightarrow>
    sq_ok 1024 (refill is q) \<and> sq_contents 1024 (refill is q) = sq_contents 1024 q @ is"
proof (induction "is" arbitrary: q)
  case (Cons i "is")
  have "sq_ok 1024 (snd (try_push 1024 i q))" "sq_contents 1024 (snd (try_push 1024 i q)) = sq_contents 1024 q @ [i]"
    using sq.push_inv [OF Cons.prems(1)] sq.push_room [OF Cons.prems(1), of i] Cons.prems(2) by simp_all
  then show ?case using Cons.IH Cons.prems(2) by simp
qed simp

text \<open>The popping workload never measures a failed pop.\<close>

lemma pop_loop_ok: "sq_ok 1024 q \<Longrightarrow> None \<notin> set (fst (pop_loop n q)) \<and> sq_ok 1024 (snd (pop_loop n q))"
proof (induction n arbitrary: q)
  case (Suc n)
  show ?case
  proof (cases "sq_contents 1024 q")
    case Nil
    let ?q = "snd (try_pop 1024 q)" and ?r = "refill [0..1023] (snd (try_pop 1024 q))"
    have e: "fst (try_pop 1024 q) = None" "sq_ok 1024 ?q" "sq_contents 1024 ?q = []" using sq.pop_empty [OF Suc.prems Nil] sq.pop_inv [OF Suc.prems] by simp_all
    have r: "sq_ok 1024 ?r" "sq_contents 1024 ?r = [0..1023]" using refill_ok [OF e(2), of "[0..1023]"] e(3) by simp_all
    have "sq_contents 1024 ?r = 0 # [1..1023]" using r(2) by (simp add: upto_rec1)
    from sq.pop_item [OF r(1) this] have p: "fst (try_pop 1024 ?r) = Some 0" "sq_ok 1024 (snd (try_pop 1024 ?r))" using sq.pop_inv [OF r(1)] by simp_all
    then show ?thesis using Suc.IH [OF p(2)] e(1) by (simp add: split_beta case_prod_beta)
  next
    case (Cons x xs)
    have p: "fst (try_pop 1024 q) = Some x" "sq_ok 1024 (snd (try_pop 1024 q))" using sq.pop_item [OF Suc.prems Cons] sq.pop_inv [OF Suc.prems] by simp_all
    then show ?thesis using Suc.IH [OF p(2)] by (simp add: split_beta case_prod_beta)
  qed
qed simp

section \<open>What the pool workloads leave behind\<close>

lemma alloc_loop_n: "alloc_loop n pl = pl.alloc_n n pl"
  by (induction n arbitrary: pl) (auto split: bind_splits option.splits prod.splits)

lemma dealloc_loop_ok:
  "pool_inv cap bs pl \<Longrightarrow> distinct ps \<Longrightarrow> set ps \<subseteq> set (pool_blocks cap bs pl) - set (free_list cap pl) \<Longrightarrow>
    pool_inv cap bs (dealloc_loop ps pl) \<and> set (pool_blocks cap bs (dealloc_loop ps pl)) = set (pool_blocks cap bs pl) \<and>
    free_list cap (dealloc_loop ps pl) = rev ps @ free_list cap pl"
proof (induction ps arbitrary: pl)
  case (Cons p ps)
  have "p \<in> set (pool_blocks cap bs pl) - set (free_list cap pl)" using Cons.prems(3) by simp
  note D = pl.dealloc_live [OF Cons.prems(1) this]
  have "set ps \<subseteq> set (pool_blocks cap bs (deallocate p pl)) - set (free_list cap (deallocate p pl))" using Cons.prems(2,3) D by auto
  then show ?case using Cons.IH [of "deallocate p pl"] Cons.prems(2) D by simp
qed simp

text \<open>\<open>n\<close> blocks are taken and given back: the blocks are different and not null, and all are free again.\<close>

lemma take_give_back:
  assumes "pool_inv cap bs pl" "n \<le> length (free_list cap pl)"
  shows "\<exists>ptrs pl1. alloc_loop n pl = Some (ptrs, pl1) \<and> ptrs = take n (free_list cap pl) \<and> distinct ptrs \<and> 0 \<notin> set ptrs \<and>
    pool_inv cap bs pl1 \<and> set ptrs \<subseteq> set (pool_blocks cap bs pl1) - set (free_list cap pl1) \<and>
    pool_inv cap bs (dealloc_loop ptrs pl1) \<and> set (free_list cap (dealloc_loop ptrs pl1)) = set (free_list cap pl) \<and>
    length (free_list cap (dealloc_loop ptrs pl1)) = length (free_list cap pl)"
proof -
  let ?f = "free_list cap pl"
  obtain pl1 where A: "alloc_loop n pl = Some (take n ?f, pl1)" "pool_inv cap bs pl1" "set (pool_blocks cap bs pl1) = set (pool_blocks cap bs pl)"
      "free_list cap pl1 = drop n ?f"
    using pl.alloc_n_free [OF assms] unfolding alloc_loop_n by blast
  have f: "distinct ?f" "set ?f \<subseteq> set (pool_blocks cap bs pl)" using pl.free_blocks [OF assms(1)] by simp_all
  have t: "set (take n ?f) \<subseteq> set ?f" by (rule set_take_subset)
  have d: "distinct (take n ?f)" "set (take n ?f) \<inter> set (drop n ?f) = {}" using f(1) by (simp_all add: set_take_disj_set_drop_if_distinct)
  then have s: "set (take n ?f) \<subseteq> set (pool_blocks cap bs pl1) - set (free_list cap pl1)" using t f(2) A(3,4) by auto
  note D = dealloc_loop_ok [OF A(2) d(1) s]
  have "set (rev (take n ?f) @ drop n ?f) = set ?f" using set_append [of "take n ?f" "drop n ?f"] by simp
  moreover have "0 \<notin> set (take n ?f)" using t f(2) pl.null_not_block [OF assms(1)] by auto
  ultimately show ?thesis using A(1,2,4) d(1) s D assms(2) by simp
qed

lemma fill_drain_loop_ok:
  "pool_inv cap bs pl \<Longrightarrow> N \<le> length (free_list cap pl) \<Longrightarrow>
    \<exists>pss pl'. fill_drain_loop N n pl = Some (pss, pl') \<and> length pss = n \<and> pool_inv cap bs pl' \<and> set (free_list cap pl') = set (free_list cap pl) \<and>
      length (free_list cap pl') = length (free_list cap pl) \<and> list_all (\<lambda>ps. distinct ps \<and> length ps = N \<and> 0 \<notin> set ps) pss"
proof (induction n arbitrary: pl)
  case (Suc n)
  obtain ptrs pl1 where T: "alloc_loop N pl = Some (ptrs, pl1)" "ptrs = take N (free_list cap pl)" "distinct ptrs" "0 \<notin> set ptrs"
      "pool_inv cap bs (dealloc_loop ptrs pl1)" "set (free_list cap (dealloc_loop ptrs pl1)) = set (free_list cap pl)"
      "length (free_list cap (dealloc_loop ptrs pl1)) = length (free_list cap pl)"
    using take_give_back [OF Suc.prems] by blast
  have "length ptrs = N" using T(2) Suc.prems(2) by simp
  then show ?case using Suc.IH [OF T(5)] T Suc.prems(2) by auto
qed simp

lemma pool_churn_loop_ok:
  "pool_inv cap bs pl \<Longrightarrow> set live \<subseteq> set (pool_blocks cap bs pl) - set (free_list cap pl) \<Longrightarrow> length live = 1024 \<Longrightarrow> idx < 1024 \<Longrightarrow>
    \<exists>pl'. pool_churn_loop n idx (live, pl) = Some (live, pl') \<and> pool_inv cap bs pl' \<and>
      set (pool_blocks cap bs pl') = set (pool_blocks cap bs pl) \<and> free_list cap pl' = free_list cap pl"
proof (induction n arbitrary: idx pl)
  case (Suc n)
  have "live ! idx \<in> set live" using Suc.prems(3,4) by simp
  then have "live ! idx \<in> set (pool_blocks cap bs pl) - set (free_list cap pl)" using Suc.prems(2) by blast
  note D = pl.dealloc_live [OF Suc.prems(1) this]
  obtain pl1 where A: "allocate (deallocate (live ! idx) pl) = Some (live ! idx, pl1)" "pool_inv cap bs pl1"
      "set (pool_blocks cap bs pl1) = set (pool_blocks cap bs pl)" "free_list cap pl1 = free_list cap pl"
    using pl.alloc_block [of cap bs "deallocate (live ! idx) pl" "live ! idx" "free_list cap pl"] D by auto
  show ?case using Suc.IH [OF A(2), of "(idx + 1) mod 1024"] Suc.prems(2,3) A by simp
qed simp

text \<open>An order that is created, used and completed always gets the same block.\<close>

lemma realistic_loop_ok:
  "pool_inv cap bs pl \<Longrightarrow> free_list cap pl = p # ps \<Longrightarrow>
    \<exists>pl'. realistic_loop f n next_id pl = Some (replicate n p, pl') \<and> pool_inv cap bs pl' \<and> free_list cap pl' = p # ps"
proof (induction n arbitrary: pl next_id)
  case (Suc n)
  obtain pl1 where A: "allocate pl = Some (p, pl1)" "pool_inv cap bs pl1" "set (pool_blocks cap bs pl1) = set (pool_blocks cap bs pl)" "free_list cap pl1 = ps"
    using pl.alloc_block [OF Suc.prems] by blast
  have l: "p \<in> set (pool_blocks cap bs pl1) - set (free_list cap pl1)" using pl.free_blocks [OF Suc.prems(1)] Suc.prems(2) A(3,4) by auto
  note S = pl.store_live [OF A(2) l, of "f (next_id + 1)"]
  have "p \<in> set (pool_blocks cap bs (store_obj p (f (next_id + 1)) pl1)) - set (free_list cap (store_obj p (f (next_id + 1)) pl1))" using S l by simp
  note D = pl.dealloc_live [OF S [THEN conjunct1] this]
  show ?case using Suc.IH [of "deallocate p (store_obj p (f (next_id + 1)) pl1)" "next_id + 1"] A(1,4) S D by auto
qed simp

lemma alloc_dealloc_loop_ok:
  "pool_inv cap bs pl \<Longrightarrow> free_list cap pl = p # ps \<Longrightarrow>
    \<exists>pl'. alloc_dealloc_loop n pl = Some (replicate n p, pl') \<and> pool_inv cap bs pl' \<and> free_list cap pl' = p # ps"
proof (induction n arbitrary: pl)
  case (Suc n)
  obtain pl1 where A: "allocate pl = Some (p, pl1)" "pool_inv cap bs pl1" "set (pool_blocks cap bs pl1) = set (pool_blocks cap bs pl)" "free_list cap pl1 = ps"
    using pl.alloc_block [OF Suc.prems] by blast
  have l: "p \<in> set (pool_blocks cap bs pl1) - set (free_list cap pl1)" using pl.free_blocks [OF Suc.prems(1)] Suc.prems(2) A(3,4) by auto
  show ?case using Suc.IH [of "deallocate p pl1"] A(1,4) pl.dealloc_live [OF A(2) l] by auto
qed simp

text \<open>(C33) The pool workloads never run out of blocks and lose none, however many iterations run: filling
  and draining takes different, non-null blocks each time and frees them all; and in the churning
  workload every freed block is the one that is handed out next, so that the set of orders kept open
  stays the same, and everything is free at the end.\<close>

theorem pool_workloads:
  assumes "Pool_new 4096 bs (Some (base, mem)) = Some pl" "0 < bs" "0 < base"
  shows "(\<exists>pss pl'. fill_drain_loop 4096 n pl = Some (pss, pl') \<and> length pss = n \<and>
      list_all (\<lambda>ps. distinct ps \<and> length ps = 4096 \<and> 0 \<notin> set ps) pss \<and> set (free_list 4096 pl') = set (pool_blocks 4096 bs pl)) \<and>
    (\<exists>live pl'. BM_Pool_Churning n pl = Some (live, live, pl') \<and> distinct live \<and> length live = 1024 \<and> 0 \<notin> set live \<and>
      set (free_list 4096 pl') = set (pool_blocks 4096 bs pl))"
proof
  have I: "pool_inv 4096 bs pl" "free_list 4096 pl = pool_blocks 4096 bs pl" using Pool_new_inv [OF assms(1) _ assms(2,3)] by simp_all
  then have l: "length (free_list 4096 pl) = 4096" by (simp add: pool_blocks_def)
  then show "\<exists>pss pl'. fill_drain_loop 4096 n pl = Some (pss, pl') \<and> length pss = n \<and>
      list_all (\<lambda>ps. distinct ps \<and> length ps = 4096 \<and> 0 \<notin> set ps) pss \<and> set (free_list 4096 pl') = set (pool_blocks 4096 bs pl)"
    using fill_drain_loop_ok [OF I(1), of 4096 n] unfolding I(2) [symmetric] by auto
  obtain live pl1 where T: "alloc_loop 1024 pl = Some (live, pl1)" "live = take 1024 (free_list 4096 pl)" "distinct live" "0 \<notin> set live"
      "pool_inv 4096 bs pl1" "set live \<subseteq> set (pool_blocks 4096 bs pl1) - set (free_list 4096 pl1)"
      "set (free_list 4096 (dealloc_loop live pl1)) = set (free_list 4096 pl)"
    using take_give_back [OF I(1), of 1024] l by auto
  have n: "length live = 1024" using T(2) l by simp
  obtain pl2 where C: "pool_churn_loop n 0 (live, pl1) = Some (live, pl2)" "pool_inv 4096 bs pl2"
      "set (pool_blocks 4096 bs pl2) = set (pool_blocks 4096 bs pl1)" "free_list 4096 pl2 = free_list 4096 pl1"
    using pool_churn_loop_ok [OF T(5,6) n, of 0 n] by auto
  have "set (free_list 4096 (dealloc_loop live pl2)) = set (free_list 4096 (dealloc_loop live pl1))"
    using dealloc_loop_ok [OF T(5,3,6)] dealloc_loop_ok [OF C(2) T(3)] T(6) C(3,4) by simp
  then show "\<exists>live pl'. BM_Pool_Churning n pl = Some (live, live, pl') \<and> distinct live \<and> length live = 1024 \<and> 0 \<notin> set live \<and>
      set (free_list 4096 pl') = set (pool_blocks 4096 bs pl)"
    using T(1,3,4,7) n C(1) unfolding I(2) [symmetric] by (simp add: BM_Pool_Churning_def)
qed

theorem pool_workloads_witness:
  "\<exists>(pl :: nat pool) live pl'. Pool_new 4096 64 (Some (65536, \<lambda>_. Link 7)) = Some pl \<and> BM_Pool_Churning 1000000 pl = Some (live, live, pl') \<and>
     distinct live \<and> 0 \<notin> set live"
proof -
  obtain pl :: "nat pool" where pl: "Pool_new 4096 64 (Some (65536, \<lambda>_. Link 7)) = Some pl" by (simp add: Pool_new_def Let_def)
  show ?thesis using pool_workloads [OF pl, of 1000000] pl by auto
qed

end
