(* ===== verification/Echo_Servers.thy ===== *)
theory Echo_Servers
  imports Rest_Server
begin

text \<open>
  The stand-alone socket programs of \<open>experiments/\<close>: an echo server that serves one client after the
  other, one on level-triggered and one on edge-triggered \<open>epoll\<close>, and a raw HTTP client. The results
  of the system calls are scripts, as in \<open>Rest_Server\<close>.
\<close>

section \<open>Writing back\<close>

text \<open>The loop that writes a chunk: any negative result ends it, what was not written is lost.\<close>

fun echo_write :: "string \<Rightarrow> nat \<Rightarrow> write_result list \<Rightarrow> nat \<times> write_result list" where
  "echo_write buf n [] = (length buf, [])"
| "echo_write buf n (r # rs) =
    (if n = length buf then (n, r # rs)
     else case r of
       Wrote k \<Rightarrow> echo_write buf (n + min k (length buf - n)) rs
     | Write_eintr \<Rightarrow> (n, rs)
     | Write_error \<Rightarrow> (n, rs))"

definition write_ok :: "write_result list \<Rightarrow> bool" where
  "write_ok ws \<longleftrightarrow> Write_eintr \<notin> set ws \<and> Write_error \<notin> set ws"

lemma echo_write_all:
  "write_ok ws \<Longrightarrow> n \<le> length buf \<Longrightarrow> \<exists>ws'. echo_write buf n ws = (length buf, ws') \<and> write_ok ws'"
proof (induction ws arbitrary: n)
  case (Cons w ws)
  show ?case
  proof (cases "n = length buf")
    case False
    then show ?thesis using Cons by (cases w) (auto simp: write_ok_def)
  qed (use Cons.prems(1) in simp)
qed (simp add: write_ok_def)

section \<open>One client after the other\<close>

text \<open>The inner loop of \<open>tcp_echo_server.cpp\<close>: what is written back, and whether the client was closed
  (the server otherwise blocks in \<open>read\<close>).\<close>

fun serve_client :: "read_result list \<Rightarrow> write_result list \<Rightarrow> string \<times> bool" where
  "serve_client (Data s # rs) ws =
    (let (n, ws) = echo_write s 0 ws; (t, done) = serve_client rs ws
     in (take n s @ t, done))"
| "serve_client [] ws = ([], False)"
| "serve_client (r # rs) ws = ([], True)"

text \<open>The outer loop, with what \<open>accept\<close> returns and what each client does.\<close>

fun echo_server_loop :: "(read_result list \<times> write_result list) option list \<Rightarrow> string list" where
  "echo_server_loop [] = []"
| "echo_server_loop (None # cs) = echo_server_loop cs"
| "echo_server_loop (Some (rs, ws) # cs) =
    (case serve_client rs ws of (t, done) \<Rightarrow> t # (if done then echo_server_loop cs else []))"

section \<open>Event loops\<close>

record echo =
  watched :: "fd \<Rightarrow> bool"
  e_accepts :: "accept_result list"
  e_reads :: "fd \<Rightarrow> read_result list"
  e_writes :: "fd \<Rightarrow> write_result list"
  e_sent :: "fd \<Rightarrow> string"
  e_closed :: "fd list"

definition echo_chunk :: "fd \<Rightarrow> string \<Rightarrow> echo \<Rightarrow> echo" where
  "echo_chunk f s e =
    (let (n, ws) = echo_write s 0 (e_writes e f)
     in e\<lparr>e_writes := (e_writes e)(f := ws), e_sent := (e_sent e)(f := e_sent e f @ take n s)\<rparr>)"

definition echo_close :: "fd \<Rightarrow> echo \<Rightarrow> echo" where
  "echo_close f e = e\<lparr>e_closed := e_closed e @ [f]\<rparr>"

definition unwatch :: "fd \<Rightarrow> echo \<Rightarrow> echo" where
  "unwatch f e = echo_close f (e\<lparr>watched := (watched e)(f := False)\<rparr>)"

text \<open>An event of \<open>tcp_echo_epoll.cpp\<close>; its sockets block, so without anything to read it does not return.\<close>

definition lt_accept :: "os \<Rightarrow> echo \<Rightarrow> echo" where
  "lt_accept sys e =
    (case e_accepts e of
       Accepted c # as \<Rightarrow>
         (let e = e\<lparr>e_accepts := as\<rparr>
          in if ctl_allows sys CTL_ADD c then e\<lparr>watched := (watched e)(c := True)\<rparr> else e)
     | _ # as \<Rightarrow> e\<lparr>e_accepts := as\<rparr>
     | [] \<Rightarrow> e)"

definition lt_event :: "os \<Rightarrow> fd \<Rightarrow> fd \<Rightarrow> echo \<Rightarrow> echo option" where
  "lt_event sys lfd f e =
    (if f = lfd then Some (lt_accept sys e)
     else case e_reads e f of
       [] \<Rightarrow> None
     | r # rs \<Rightarrow>
         (let e = e\<lparr>e_reads := (e_reads e)(f := rs)\<rparr>
          in case r of
               Data s \<Rightarrow> Some (echo_chunk f s e)
             | _ \<Rightarrow> Some (if ctl_allows sys CTL_DEL f then unwatch f e else e)))"

text \<open>An event of \<open>tcp_echo_epollet.cpp\<close>; when a script is used up, the call reports \<open>EAGAIN\<close>.\<close>

fun et_accept_loop :: "os \<Rightarrow> accept_result list \<Rightarrow> echo \<Rightarrow> echo" where
  "et_accept_loop sys [] e = e\<lparr>e_accepts := []\<rparr>"
| "et_accept_loop sys (Accept_again # as) e = e\<lparr>e_accepts := as\<rparr>"
| "et_accept_loop sys (Accept_error # as) e = et_accept_loop sys as e"
| "et_accept_loop sys (Accepted c # as) e =
    et_accept_loop sys as
      (if \<not> fcntl_ok sys c then echo_close c e
       else if \<not> ctl_allows sys CTL_ADD c then echo_close c e
       else e\<lparr>watched := (watched e)(c := True)\<rparr>)"

fun et_read_loop :: "os \<Rightarrow> fd \<Rightarrow> read_result list \<Rightarrow> echo \<Rightarrow> echo" where
  "et_read_loop sys f [] e = e\<lparr>e_reads := (e_reads e)(f := [])\<rparr>"
| "et_read_loop sys f (Read_again # rs) e = e\<lparr>e_reads := (e_reads e)(f := rs)\<rparr>"
| "et_read_loop sys f (Data s # rs) e = et_read_loop sys f rs (echo_chunk f s e)"
| "et_read_loop sys f (r # rs) e =
    (if ctl_allows sys CTL_DEL f then unwatch f (e\<lparr>e_reads := (e_reads e)(f := rs)\<rparr>) else et_read_loop sys f rs e)"

definition et_event :: "os \<Rightarrow> fd \<Rightarrow> fd \<Rightarrow> echo \<Rightarrow> echo option" where
  "et_event sys lfd f e = Some (if f = lfd then et_accept_loop sys (e_accepts e) e else et_read_loop sys f (e_reads e f) e)"

text \<open>The loop over the ready descriptors and the loop around \<open>epoll_wait\<close>.\<close>

fun echo_events :: "(fd \<Rightarrow> echo \<Rightarrow> echo option) \<Rightarrow> fd list \<Rightarrow> echo \<Rightarrow> echo option" where
  "echo_events ev [] e = Some e"
| "echo_events ev (f # fs) e = do { e \<leftarrow> ev f e; echo_events ev fs e }"

fun echo_loop :: "(fd \<Rightarrow> echo \<Rightarrow> echo option) \<Rightarrow> wait_result list \<Rightarrow> echo \<Rightarrow> echo option" where
  "echo_loop ev [] e = Some e"
| "echo_loop ev (Wait_events fs # ws) e = do { e \<leftarrow> echo_events ev (map fst fs) e; echo_loop ev ws e }"
| "echo_loop ev (_ # ws) e = echo_loop ev ws e"

text \<open>The set-up of the two event-driven servers, the edge-triggered one with a non-blocking listener: the
  descriptors closed before the program exits with status 1, or the listening descriptor.\<close>

definition echo_setup :: "bool \<Rightarrow> listen_setup \<Rightarrow> fd \<Rightarrow> os \<Rightarrow> fd list + fd" where
  "echo_setup nonblock su epfd sys =
    (let s = socket_result su
     in if s < 0 then Inl []
        else if nonblock \<and> \<not> setup_fcntl_ok su then Inl [s]
        else if \<not> setsockopt_ok su then Inl [s]
        else if \<not> bind_ok su then Inl [s]
        else if \<not> listen_ok su then Inl [s]
        else if epfd < 0 then Inl [s]
        else if \<not> ctl_allows sys CTL_ADD s then Inl [s, epfd]
        else Inr s)"

text \<open>A set-up that fails closes the socket if it was opened.\<close>

lemma echo_setup_closes: "echo_setup nonblock su epfd sys = Inl fs \<Longrightarrow> 0 \<le> socket_result su \<Longrightarrow> socket_result su \<in> set fs"
  by (auto simp: echo_setup_def Let_def split: if_splits)

section \<open>The raw client\<close>

definition raw_request :: "string \<Rightarrow> string \<Rightarrow> string" where
  "raw_request path host = take 1023 (''GET '' @ path @ '' HTTP/1.0'' @ crlf @ ''Host: '' @ host @ crlf @ crlf)"

text \<open>The client's write loop retries an interrupted call; its read loop prints all it gets, \<open>None\<close> while
  it blocks.\<close>

fun print_loop :: "read_result list \<Rightarrow> (string \<times> bool) option" where
  "print_loop [] = None"
| "print_loop (Data s # rs) = map_option (\<lambda>(t, ok). (s @ t, ok)) (print_loop rs)"
| "print_loop (Eof # rs) = Some ([], True)"
| "print_loop (r # rs) = Some ([], False)"

text \<open>The exit status, what was sent and what was printed.\<close>

definition raw_client :: "string list \<Rightarrow> bool \<Rightarrow> fd \<Rightarrow> bool \<Rightarrow> write_result list \<Rightarrow> read_result list \<Rightarrow> (nat \<times> string \<times> string) option" where
  "raw_client args resolved sock connected ws rs =
    (case args of
       host # path # _ \<Rightarrow>
         if \<not> resolved \<or> sock < 0 \<or> \<not> connected then Some (1, [], [])
         else
           (let req = raw_request path host
            in case write_loop req 0 ws of
                 (False, n, _) \<Rightarrow> Some (1, take n req, [])
               | (True, n, _) \<Rightarrow> map_option (\<lambda>(t, ok). (if ok then 0 else 1, take n req, t)) (print_loop rs))
     | _ \<Rightarrow> Some (1, [], []))"

section \<open>What is echoed\<close>

lemma serve_client_exact:
  "write_ok ws \<Longrightarrow> serve_client (map Data cs @ Eof # rs) ws = (concat cs, True)"
proof (induction cs arbitrary: ws)
  case (Cons c cs)
  obtain ws' where "echo_write c 0 ws = (length c, ws')" "write_ok ws'" using echo_write_all [OF Cons.prems, of 0 c] by auto
  then show ?case using Cons.IH by simp
qed simp

text \<open>After a failed write the rest of the chunk is missing from the stream, and later chunks follow it.\<close>

lemma echo_gap: "serve_client [Data ''ab'', Data ''cd'', Eof] [Wrote 1, Write_error] = (''acd'', True)"
  by code_simp

lemma raw_client_ok:
  assumes "Write_error \<notin> set ws" "0 \<le> sock"
  shows "raw_client [host, path] True sock True ws (map Data cs @ Eof # rs) = Some (0, raw_request path host, concat cs)"
proof -
  have "print_loop (map Data cs @ Eof # rs) = Some (concat cs, True)" by (induction cs) simp_all
  moreover obtain ws' where "write_loop (raw_request path host) 0 ws = (True, length (raw_request path host), ws')"
    using write_loop_all [OF assms(1), of 0] by auto
  ultimately show ?thesis using assms(2) by (simp add: raw_client_def Let_def)
qed

text \<open>What a connection delivers: chunks, and possibly its end or an error. The data of such a script.\<close>

fun script_ok :: "read_result list \<Rightarrow> bool" where
  "script_ok [] = True"
| "script_ok (Data s # rs) = script_ok rs"
| "script_ok (Read_again # rs) = False"
| "script_ok (r # rs) = (rs = [])"

fun script_data :: "read_result list \<Rightarrow> string" where
  "script_data (Data s # rs) = s @ script_data rs"
| "script_data rs = []"

text \<open>The part of the state that belongs to a connection, with how often it was closed, and what one event
  of the level-triggered server does to it.\<close>

type_synonym conn = "read_result list \<times> write_result list \<times> string \<times> bool \<times> nat"

definition conn_of :: "echo \<Rightarrow> fd \<Rightarrow> conn" where
  "conn_of e f = (e_reads e f, e_writes e f, e_sent e f, watched e f, count_list (e_closed e) f)"

fun conn_step :: "os \<Rightarrow> fd \<Rightarrow> conn \<Rightarrow> conn" where
  "conn_step sys f (Data s # rs, ws, out, w, n) = (let (k, ws) = echo_write s 0 ws in (rs, ws, out @ take k s, w, n))"
| "conn_step sys f ([], ws, out, w, n) = ([], ws, out, w, n)"
| "conn_step sys f (r # rs, ws, out, w, n) = (if ctl_allows sys CTL_DEL f then (rs, ws, out, False, Suc n) else (rs, ws, out, w, n))"

text \<open>Two states that differ at most in the order in which descriptors were closed.\<close>

definition same_echo :: "echo \<Rightarrow> echo \<Rightarrow> bool" where
  "same_echo e e' \<longleftrightarrow> e = e'\<lparr>e_closed := e_closed e\<rparr> \<and> mset (e_closed e) = mset (e_closed e')"

lemma same_echoI:
  assumes "conn_of e = conn_of e'" "e_accepts e = e_accepts e'"
  shows "same_echo e e'"
proof -
  have "count (mset (e_closed e)) f = count (mset (e_closed e')) f" for f
    using fun_cong [OF assms(1), of f] by (simp add: conn_of_def count_mset)
  then show ?thesis using assms by (cases e; cases e') (simp add: same_echo_def conn_of_def fun_eq_iff multiset_eq_iff)
qed

lemma lt_event_step:
  assumes "e_reads e f = r # rs" "script_ok (r # rs)" "f \<noteq> lfd"
  shows "\<exists>e'. lt_event sys lfd f e = Some e' \<and> conn_of e' = (conn_of e)(f := conn_step sys f (conn_of e f)) \<and> e_accepts e' = e_accepts e \<and>
    e_reads e' = (e_reads e)(f := rs)"
  using assms by (cases r) (auto simp: lt_event_def echo_chunk_def unwatch_def echo_close_def Let_def conn_of_def fun_eq_iff split: prod.splits)

lemma script_ok_tl: "script_ok (r # rs) \<Longrightarrow> script_ok rs"
  by (cases r) auto

lemma lt_events_steps:
  "lfd \<notin> set xs \<Longrightarrow> \<forall>f\<in>set xs. script_ok (e_reads e f) \<and> count_list xs f \<le> length (e_reads e f) \<Longrightarrow>
    \<exists>e'. echo_events (lt_event sys lfd) xs e = Some e' \<and> conn_of e' = (\<lambda>g. (conn_step sys g ^^ count_list xs g) (conn_of e g)) \<and>
      e_accepts e' = e_accepts e"
proof (induction xs arbitrary: e)
  case (Cons f xs)
  have f: "script_ok (e_reads e f)" "Suc (count_list xs f) \<le> length (e_reads e f)" using Cons.prems(2) by simp_all
  obtain r rs where r: "e_reads e f = r # rs" using f(2) by (cases "e_reads e f") auto
  obtain e1 where E: "lt_event sys lfd f e = Some e1" "conn_of e1 = (conn_of e)(f := conn_step sys f (conn_of e f))"
      "e_accepts e1 = e_accepts e" "e_reads e1 = (e_reads e)(f := rs)"
    using lt_event_step [OF r, of lfd sys] f(1) r Cons.prems(1) by auto
  have "script_ok (e_reads e1 g) \<and> count_list xs g \<le> length (e_reads e1 g)" if "g \<in> set xs" for g
  proof (cases "g = f")
    case True
    then show ?thesis using f r E(4) script_ok_tl [of r rs] by simp
  next
    case False
    then show ?thesis using Cons.prems(2) that E(4) by auto
  qed
  then obtain e' where "echo_events (lt_event sys lfd) xs e1 = Some e'" "conn_of e' = (\<lambda>g. (conn_step sys g ^^ count_list xs g) (conn_of e1 g))"
      "e_accepts e' = e_accepts e1"
    using Cons.IH [of e1] Cons.prems(1) by auto
  then show ?case using E(1-3) by (auto simp: fun_eq_iff funpow_swap1)
qed simp

lemma et_read_steps:
  "script_ok rs \<Longrightarrow> \<exists>e'. et_read_loop sys f rs e = e' \<and> conn_of e' f = (conn_step sys f ^^ length rs) (rs, snd (conn_of e f)) \<and>
    (\<forall>g. g \<noteq> f \<longrightarrow> conn_of e' g = conn_of e g) \<and> e_accepts e' = e_accepts e"
proof (induction rs arbitrary: e rule: script_ok.induct)
  case 1
  show ?case by (simp add: conn_of_def)
next
  case (2 c rs)
  let ?e = "echo_chunk f c e"
  have s: "(rs, snd (conn_of ?e f)) = conn_step sys f (Data c # rs, snd (conn_of e f))"
    by (simp add: echo_chunk_def conn_of_def Let_def split_beta)
  have o: "conn_of ?e g = conn_of e g" if "g \<noteq> f" for g using that by (simp add: echo_chunk_def conn_of_def Let_def split_beta)
  have r: "e_accepts ?e = e_accepts e" by (simp add: echo_chunk_def Let_def split_beta)
  show ?case using "2.IH" [of ?e] "2.prems" o r unfolding s by (simp add: funpow_swap1)
qed (auto simp: conn_of_def unwatch_def echo_close_def)

lemma et_events_steps:
  "distinct fs \<Longrightarrow> lfd \<notin> set fs \<Longrightarrow> \<forall>f\<in>set fs. script_ok (e_reads e f) \<Longrightarrow>
    \<exists>e'. echo_events (et_event sys lfd) fs e = Some e' \<and> e_accepts e' = e_accepts e \<and>
      conn_of e' = (\<lambda>g. if g \<in> set fs then (conn_step sys g ^^ length (e_reads e g)) (conn_of e g) else conn_of e g)"
proof (induction fs arbitrary: e)
  case (Cons f fs)
  have ok: "script_ok (e_reads e f)" using Cons.prems(3) by simp
  obtain e1 where E: "et_event sys lfd f e = Some e1" "conn_of e1 f = (conn_step sys f ^^ length (e_reads e f)) (conn_of e f)"
      "\<And>g. g \<noteq> f \<Longrightarrow> conn_of e1 g = conn_of e g" "e_accepts e1 = e_accepts e"
    using et_read_steps [OF ok, of sys f e] Cons.prems(2) by (auto simp: et_event_def conn_of_def)
  have rd: "e_reads e1 g = e_reads e g" if "g \<noteq> f" for g using E(3) [OF that] by (simp add: conn_of_def)
  have "script_ok (e_reads e1 g)" if "g \<in> set fs" for g
    using that Cons.prems(1,3) rd [of g] by (metis distinct.simps(2) list.set_intros(2))
  then obtain e' where A: "echo_events (et_event sys lfd) fs e1 = Some e'" "e_accepts e' = e_accepts e1"
      "conn_of e' = (\<lambda>g. if g \<in> set fs then (conn_step sys g ^^ length (e_reads e1 g)) (conn_of e1 g) else conn_of e1 g)"
    using Cons.IH [of e1] Cons.prems(1,2) by auto
  have "conn_of e' g = (if g \<in> set (f # fs) then (conn_step sys g ^^ length (e_reads e g)) (conn_of e g) else conn_of e g)" for g
  proof (cases "g = f")
    case True
    then show ?thesis using A(3) E(2) Cons.prems(1) by simp
  next
    case False
    then show ?thesis using A(3) E(3) [OF False] rd [OF False] by simp
  qed
  then show ?case using A(1,2) E(1,4) by (simp add: fun_eq_iff)
qed simp

text \<open>All of the script is consumed; if no write fails, all of its data is sent.\<close>

lemma conn_steps_all:
  "script_ok rs \<Longrightarrow> \<exists>ws' out' w' n'. (conn_step sys f ^^ length rs) (rs, ws, out, w, n) = ([], ws', out', w', n') \<and>
    (write_ok ws \<longrightarrow> out' = out @ script_data rs)"
proof (induction rs arbitrary: ws out rule: script_ok.induct)
  case (2 c rs)
  obtain k ws1 where k: "echo_write c 0 ws = (k, ws1)" by fastforce
  have "k = length c \<and> write_ok ws1" if "write_ok ws" using echo_write_all [OF that, of 0 c] k by auto
  then show ?case using "2.IH" [of ws1 "out @ take k c"] "2.prems" k by (auto simp: funpow_swap1)
qed auto

text \<open>(C28) The level-triggered and the edge-triggered echo server do the same to their connections. Given the
  same results of \<open>read\<close> and \<open>write\<close>, failed and partial writes included, if every connection has chunks
  waiting that may be followed by its end or an error, one event per connection, in any order, takes
  the edge-triggered server to the state that the level-triggered one reaches after one event per
  result of \<open>read\<close>, in any interleaving of the connections; only the order in which descriptors were
  closed may differ. Everything that was waiting has been read, and a connection on which no write
  fails got back exactly its own bytes. (On its non-blocking sockets a write of the edge-triggered
  server may fail with \<open>EAGAIN\<close> where the other one blocks; then the results of \<open>write\<close> differ.)\<close>

theorem echo_equivalent:
  assumes "distinct fs" "lfd \<notin> set fs" "\<And>f. f \<in> set fs \<Longrightarrow> script_ok (e_reads e f)"
    "set xs \<subseteq> set fs" "\<And>f. f \<in> set fs \<Longrightarrow> count_list xs f = length (e_reads e f)"
  shows "\<exists>e1 e2. echo_events (lt_event sys lfd) xs e = Some e1 \<and> echo_events (et_event sys lfd) fs e = Some e2 \<and> same_echo e1 e2 \<and>
    (\<forall>f\<in>set fs. e_reads e2 f = [] \<and> (write_ok (e_writes e f) \<longrightarrow> e_sent e2 f = e_sent e f @ script_data (e_reads e f)))"
proof -
  have n: "count_list xs g = 0" if "g \<notin> set fs" for g using assms(4) that by (simp add: count_list_0_iff subset_iff) blast
  have "\<forall>f\<in>set xs. script_ok (e_reads e f) \<and> count_list xs f \<le> length (e_reads e f)" using assms(3-5) by auto
  then obtain e1 where L: "echo_events (lt_event sys lfd) xs e = Some e1" "conn_of e1 = (\<lambda>g. (conn_step sys g ^^ count_list xs g) (conn_of e g))"
      "e_accepts e1 = e_accepts e"
    using lt_events_steps [of lfd xs e sys] assms(2,4) by blast
  have "\<forall>f\<in>set fs. script_ok (e_reads e f)" using assms(3) by blast
  from et_events_steps [OF assms(1,2) this] obtain e2 where E: "echo_events (et_event sys lfd) fs e = Some e2" "e_accepts e2 = e_accepts e"
      "conn_of e2 = (\<lambda>g. if g \<in> set fs then (conn_step sys g ^^ length (e_reads e g)) (conn_of e g) else conn_of e g)" by blast
  have "conn_of e1 = conn_of e2" unfolding L(2) E(3) using assms(5) n by (auto simp: fun_eq_iff)
  then have "same_echo e1 e2" using L(3) E(2) by (intro same_echoI) simp_all
  moreover have "e_reads e2 f = [] \<and> (write_ok (e_writes e f) \<longrightarrow> e_sent e2 f = e_sent e f @ script_data (e_reads e f))" if "f \<in> set fs" for f
    using conn_steps_all [OF assms(3) [OF that], of sys f "e_writes e f" "e_sent e f" "watched e f" "count_list (e_closed e) f"]
      fun_cong [OF E(3), of f] that by (auto simp: conn_of_def)
  ultimately show ?thesis using L(1) E(1) by blast
qed

definition demo_echo :: echo where
  "demo_echo = \<lparr>watched = (\<lambda>_. True), e_accepts = [], e_reads = (\<lambda>f. if f = 5 then [Data ''ab'', Data ''c'', Eof] else if f = 6 then [Data ''xyz'', Eof] else []),
     e_writes = (\<lambda>f. if f = 6 then [Wrote 1, Write_error] else []), e_sent = (\<lambda>_. []), e_closed = []\<rparr>"

text \<open>Two connections that end, one of which loses bytes to a failed write, served in different orders.\<close>

theorem echo_equivalent_witness:
  "\<exists>e1 e2. echo_events (lt_event \<lparr>ctl_allows = (\<lambda>_ _. True), fcntl_ok = (\<lambda>_. True)\<rparr> 3) [5, 6, 5, 5, 6] demo_echo = Some e1 \<and>
     echo_events (et_event \<lparr>ctl_allows = (\<lambda>_ _. True), fcntl_ok = (\<lambda>_. True)\<rparr> 3) [6, 5] demo_echo = Some e2 \<and>
     same_echo e1 e2 \<and> e_sent e2 5 = ''abc''"
proof -
  let ?sys = "\<lparr>ctl_allows = (\<lambda>_ _. True), fcntl_ok = (\<lambda>_. True)\<rparr>"
  have h: "distinct [6, 5 :: fd]" "3 \<notin> set [6, 5 :: fd]" "\<And>f. f \<in> set [6, 5] \<Longrightarrow> script_ok (e_reads demo_echo f)"
    "set [5, 6, 5, 5, 6] \<subseteq> set [6, 5 :: fd]" "\<And>f. f \<in> set [6, 5] \<Longrightarrow> count_list [5, 6, 5, 5, 6] f = length (e_reads demo_echo f)"
    by (auto simp: demo_echo_def)
  have "write_ok (e_writes demo_echo 5)" "e_sent demo_echo 5 @ script_data (e_reads demo_echo 5) = ''abc''" by (simp_all add: demo_echo_def write_ok_def)
  with echo_equivalent [OF h, of ?sys] show ?thesis by (metis list.set_intros)
qed

end
