(* ===== verification/Epoll_Shim.thy ===== *)
theory Epoll_Shim
  imports Reactor "HOL-Library.Monad_Syntax"
begin

text \<open>
  The stand-in for \<open>epoll\<close> over \<open>kqueue\<close>, \<open>sim/compat/epoll_shim.h\<close>. The call \<open>kevent\<close> is a parameter;
  what is documented of it is \<open>kqueue_law\<close>: changes are made in order, and without room for an event
  list the call stops at the first change that fails, as the deletion of a filter that is not there. An
  addition always succeeds here; a bad descriptor or a lack of memory is not considered.
\<close>

unbundle bit_operations_syntax

section \<open>The functions\<close>

definition EPOLLIN :: u32 where "EPOLLIN = 0x001"
definition EPOLLOUT :: u32 where "EPOLLOUT = 0x004"
definition EPOLLERR :: u32 where "EPOLLERR = 0x008"
definition EPOLLHUP :: u32 where "EPOLLHUP = 0x010"
definition EPOLLET :: u32 where "EPOLLET = 0x80000000"

datatype kfilter = EVFILT_READ | EVFILT_WRITE

text \<open>A change: the descriptor and the filter, and for an addition whether it has \<open>EV_CLEAR\<close> and its tag.\<close>

datatype kchange = Kdelete fd kfilter | Kadd fd kfilter bool fd

type_synonym 'q kevent = "kchange list \<Rightarrow> 'q \<Rightarrow> bool \<times> 'q"

definition epoll_ctl_shim :: "'q kevent \<Rightarrow> ctl_op \<Rightarrow> fd \<Rightarrow> u32 option \<Rightarrow> 'q \<Rightarrow> int \<times> 'q" where
  "epoll_ctl_shim kevent op f ev q =
    (let del = [Kdelete f EVFILT_READ, Kdelete f EVFILT_WRITE]
     in if op = CTL_DEL then (0, snd (kevent del q))
        else case ev of
          None \<Rightarrow> (- 1, q)
        | Some events \<Rightarrow>
            let q = (if op = CTL_MOD then snd (kevent del q) else q);
                clear = (events AND EPOLLET \<noteq> 0);
                ch = (if events AND EPOLLIN \<noteq> 0 then [Kadd f EVFILT_READ clear f] else []) @
                     (if events AND EPOLLOUT \<noteq> 0 then [Kadd f EVFILT_WRITE clear f] else [])
            in if ch = [] then (0, q)
               else case kevent ch q of (ok, q) \<Rightarrow> (if ok then 0 else - 1, q))"

text \<open>An event as \<open>kevent\<close> returns it.\<close>

record kresult =
  kr_filter :: kfilter
  kr_eof :: bool
  kr_error :: bool
  kr_udata :: fd

definition event_of :: "kresult \<Rightarrow> fd \<times> u32" where
  "event_of k =
    (let e = 0;
         e = (if kr_filter k = EVFILT_READ then e OR EPOLLIN else e);
         e = (if kr_filter k = EVFILT_WRITE then e OR EPOLLOUT else e);
         e = (if kr_eof k then e OR (EPOLLHUP OR EPOLLIN) else e);
         e = (if kr_error k then e OR EPOLLERR else e)
     in (kr_udata k, e))"

text \<open>The time-out in seconds and nanoseconds (\<open>None\<close> waits for ever), the number of events asked for,
  and the translation of what comes back; \<open>None\<close> stands for the result \<open>-1\<close>.\<close>

definition timeout_spec :: "int \<Rightarrow> (int \<times> int) option" where
  "timeout_spec t = (if t \<ge> 0 then Some (t div 1000, t mod 1000 * 1000000) else None)"

definition epoll_wait_shim :: "(int \<Rightarrow> (int \<times> int) option \<Rightarrow> 'q \<Rightarrow> kresult list option) \<Rightarrow> int \<Rightarrow> int \<Rightarrow> 'q \<Rightarrow> (fd \<times> u32) list option" where
  "epoll_wait_shim wait maxevents t q =
    (let maxevents = (if maxevents > 1024 then 1024 else maxevents)
     in map_option (map event_of) (wait maxevents (timeout_spec t) q))"

section \<open>What is registered\<close>

type_synonym registry_map = "fd \<times> kfilter \<Rightarrow> (bool \<times> fd) option"

fun apply_change :: "kchange \<Rightarrow> registry_map \<Rightarrow> registry_map option" where
  "apply_change (Kdelete f k) r = (if r (f, k) = None then None else Some (r((f, k) := None)))"
| "apply_change (Kadd f k clear tag) r = Some (r((f, k) \<mapsto> (clear, tag)))"

fun apply_changes :: "kchange list \<Rightarrow> registry_map \<Rightarrow> bool \<times> registry_map" where
  "apply_changes [] r = (True, r)"
| "apply_changes (c # cs) r = (case apply_change c r of None \<Rightarrow> (False, r) | Some r \<Rightarrow> apply_changes cs r)"

definition kqueue_law :: "'q kevent \<Rightarrow> ('q \<Rightarrow> registry_map) \<Rightarrow> bool" where
  "kqueue_law kevent reg \<longleftrightarrow> (\<forall>cs q. apply_changes cs (reg q) = (fst (kevent cs q), reg (snd (kevent cs q))))"

text \<open>The filters that the interest set of \<open>epoll\<close> amounts to.\<close>

definition filters_of :: "(fd \<Rightarrow> u32 option) \<Rightarrow> registry_map" where
  "filters_of w = (\<lambda>(f, k).
     case w f of
       None \<Rightarrow> None
     | Some ev \<Rightarrow>
         if ev AND (if k = EVFILT_READ then EPOLLIN else EPOLLOUT) \<noteq> 0 then Some (ev AND EPOLLET \<noteq> 0, f) else None)"

definition reads_all :: "(fd \<Rightarrow> u32 option) \<Rightarrow> bool" where
  "reads_all w \<longleftrightarrow> (\<forall>f e. w f = Some e \<longrightarrow> e AND EPOLLIN \<noteq> 0)"

lemma not_read: "k \<noteq> EVFILT_READ \<longleftrightarrow> k = EVFILT_WRITE"
  by (cases k) simp_all

text \<open>Deleting both filters in one call works if the first one is there, or if neither is.\<close>

lemma delete_both:
  assumes "reads_all w"
  shows "snd (apply_changes [Kdelete f EVFILT_READ, Kdelete f EVFILT_WRITE] (filters_of w)) = filters_of (w(f := None))"
proof (cases "w f")
  case None
  then show ?thesis by (auto simp: filters_of_def fun_eq_iff)
next
  case (Some e)
  then have "e AND EPOLLIN \<noteq> 0" using assms by (simp add: reads_all_def)
  then show ?thesis using Some by (simp add: filters_of_def fun_eq_iff not_read)
qed

lemma kevent_reg: "kqueue_law kevent reg \<Longrightarrow> kevent cs q = (ok, q') \<Longrightarrow> apply_changes cs (reg q) = (ok, reg q')"
  by (metis fst_conv kqueue_law_def snd_conv)

lemma add_filters:
  assumes "w f = None" "e AND EPOLLIN \<noteq> 0"
  shows "apply_changes ((if e AND EPOLLIN \<noteq> 0 then [Kadd f EVFILT_READ (e AND EPOLLET \<noteq> 0) f] else []) @
      (if e AND EPOLLOUT \<noteq> 0 then [Kadd f EVFILT_WRITE (e AND EPOLLET \<noteq> 0) f] else [])) (filters_of w) = (True, filters_of (w(f \<mapsto> e)))"
  using assms by (simp add: fun_eq_iff filters_of_def not_read)

text \<open>One call: where \<open>epoll\<close> as \<open>Reactor\<close> describes it succeeds, the shim succeeds with the same interest.\<close>

lemma shim_step:
  assumes "kqueue_law kevent reg" "reg q = filters_of i" "reads_all i" "epoll_ctl allows op f events i = Some i'"
    "op \<noteq> CTL_DEL \<Longrightarrow> events AND EPOLLIN \<noteq> 0" "op \<noteq> CTL_DEL \<Longrightarrow> ev = Some events"
  shows "\<exists>q'. epoll_ctl_shim kevent op f ev q = (0, q') \<and> reg q' = filters_of i' \<and> reads_all i'"
proof -
  let ?del = "[Kdelete f EVFILT_READ, Kdelete f EVFILT_WRITE]"
  let ?ch = "(if events AND EPOLLIN \<noteq> 0 then [Kadd f EVFILT_READ (events AND EPOLLET \<noteq> 0) f] else []) @
      (if events AND EPOLLOUT \<noteq> 0 then [Kadd f EVFILT_WRITE (events AND EPOLLET \<noteq> 0) f] else [])"
  have del: "reg (snd (kevent ?del q)) = filters_of (i(f := None))"
    using kevent_reg [OF assms(1), of ?del q "fst (kevent ?del q)" "snd (kevent ?del q)"] delete_both [OF assms(3), of f] assms(2) by simp
  have add: "\<exists>q'. kevent ?ch q1 = (True, q') \<and> reg q' = filters_of (j(f \<mapsto> events))"
    if "reg q1 = filters_of j" "j f = None" "events AND EPOLLIN \<noteq> 0" for q1 j
    using kevent_reg [OF assms(1), of ?ch q1 "fst (kevent ?ch q1)" "snd (kevent ?ch q1)"] add_filters [of j f events, OF that(2,3)] that(1)
    by (metis prod.collapse prod.inject)
  show ?thesis
  proof (cases op)
    case CTL_DEL
    then have "i' = i(f := None)" using assms(4) by (simp add: epoll_ctl_def split: if_splits)
    then show ?thesis using del assms(3) CTL_DEL by (simp add: epoll_ctl_shim_def reads_all_def)
  next
    case CTL_ADD
    then have i: "i' = i(f \<mapsto> events)" "i f = None" using assms(4) by (simp_all add: epoll_ctl_def split: if_splits)
    obtain q' where "kevent ?ch q = (True, q')" "reg q' = filters_of i'" using add [OF assms(2) i(2)] assms(5) CTL_ADD i(1) by auto
    then show ?thesis using assms(3,5,6) CTL_ADD i(1) by (simp add: epoll_ctl_shim_def Let_def reads_all_def)
  next
    case CTL_MOD
    then have i: "i' = i(f \<mapsto> events)" using assms(4) by (simp add: epoll_ctl_def split: if_splits)
    obtain q' where "kevent ?ch (snd (kevent ?del q)) = (True, q')" "reg q' = filters_of i'"
      using add [OF del] assms(5) CTL_MOD i by auto
    then show ?thesis using assms(3,5,6) CTL_MOD i by (simp add: epoll_ctl_shim_def Let_def reads_all_def)
  qed
qed

section \<open>The shim in place of epoll\<close>

fun epoll_run :: "(ctl_op \<times> fd \<times> u32) list \<Rightarrow> (fd \<Rightarrow> u32 option) \<Rightarrow> (fd \<Rightarrow> u32 option) option" where
  "epoll_run [] i = Some i"
| "epoll_run ((op, f, ev) # ops) i = do { i \<leftarrow> epoll_ctl (\<lambda>_ _. True) op f ev i; epoll_run ops i }"

fun shim_run :: "'q kevent \<Rightarrow> (ctl_op \<times> fd \<times> u32) list \<Rightarrow> 'q \<Rightarrow> int list \<times> 'q" where
  "shim_run kevent [] q = ([], q)"
| "shim_run kevent ((op, f, ev) # ops) q =
    (let (r, q) = epoll_ctl_shim kevent op f (if op = CTL_DEL then None else Some ev) q; (rs, q) = shim_run kevent ops q
     in (r # rs, q))"

definition reading_ops :: "(ctl_op \<times> fd \<times> u32) list \<Rightarrow> bool" where
  "reading_ops ops \<longleftrightarrow> list_all (\<lambda>(op, f, ev). op = CTL_DEL \<or> ev AND EPOLLIN \<noteq> 0) ops"

lemma shim_run_ok:
  "kqueue_law kevent reg \<Longrightarrow> reg q = filters_of i \<Longrightarrow> reads_all i \<Longrightarrow> reading_ops ops \<Longrightarrow> epoll_run ops i = Some i' \<Longrightarrow>
    fst (shim_run kevent ops q) = replicate (length ops) 0 \<and> reg (snd (shim_run kevent ops q)) = filters_of i'"
proof (induction ops arbitrary: q i)
  case (Cons x ops)
  obtain op f ev where x: "x = (op, f, ev)" by (cases x)
  obtain i1 where i1: "epoll_ctl (\<lambda>_ _. True) op f ev i = Some i1" "epoll_run ops i1 = Some i'" using Cons.prems(5) x by (auto split: bind_splits)
  obtain q1 where q1: "epoll_ctl_shim kevent op f (if op = CTL_DEL then None else Some ev) q = (0, q1)" "reg q1 = filters_of i1" "reads_all i1"
    using shim_step [OF Cons.prems(1-3) i1(1), of "if op = CTL_DEL then None else Some ev"] Cons.prems(4) x by (auto simp: reading_ops_def)
  have "reading_ops ops" using Cons.prems(4) by (simp add: reading_ops_def)
  from Cons.IH [OF Cons.prems(1) q1(2,3) this i1(2)] show ?case using x q1(1) by (simp add: split_beta)
qed simp

text \<open>(C29) For a program that watches descriptors for reading, the shim is as good as \<open>epoll\<close>: any sequence
  of calls that succeeds with \<open>epoll\<close> succeeds with the shim, and then exactly the filters that
  \<open>epoll\<close> would watch are registered, each edge-triggered as asked and tagged with its descriptor.
  Additions that the kernel refuses for reasons of its own, for \<open>epoll\<close> or for \<open>kqueue\<close>, are left out.\<close>

theorem shim_refines_epoll:
  assumes "kqueue_law kevent reg" "reg q = Map.empty" "reading_ops ops" "epoll_run ops Map.empty = Some i"
  shows "fst (shim_run kevent ops q) = replicate (length ops) 0 \<and> reg (snd (shim_run kevent ops q)) = filters_of i"
proof -
  have "reg q = filters_of Map.empty" using assms(2) by (simp add: filters_of_def fun_eq_iff)
  moreover have "reads_all Map.empty" by (simp add: reads_all_def)
  ultimately show ?thesis using shim_run_ok [OF assms(1) _ _ assms(3,4)] by blast
qed

lemma kqueue_law_changes: "kqueue_law apply_changes (\<lambda>r. r)"
  by (simp add: kqueue_law_def)

theorem shim_refines_epoll_witness:
  "\<exists>i. epoll_run [(CTL_ADD, 4, 0x80000001), (CTL_ADD, 7, 0x80000001), (CTL_MOD, 7, 5), (CTL_DEL, 4, 0)] Map.empty = Some i \<and>
     snd (shim_run apply_changes [(CTL_ADD, 4, 0x80000001), (CTL_ADD, 7, 0x80000001), (CTL_MOD, 7, 5), (CTL_DEL, 4, 0)] Map.empty) = filters_of i \<and>
     filters_of i (7, EVFILT_WRITE) = Some (False, 7) \<and> filters_of i (4, EVFILT_READ) = None"
proof -
  let ?ops = "[(CTL_ADD, 4, 0x80000001), (CTL_ADD, 7, 0x80000001), (CTL_MOD, 7, 5), (CTL_DEL, 4, 0)] :: (ctl_op \<times> fd \<times> u32) list"
  have r: "epoll_run ?ops Map.empty = Some (Map.empty(4 := None, 7 \<mapsto> 5))" by (simp add: epoll_ctl_def fun_eq_iff)
  have o: "reading_ops ?ops" by (simp add: reading_ops_def EPOLLIN_def)
  show ?thesis using shim_refines_epoll [OF kqueue_law_changes, of Map.empty, OF refl o r] r by (simp add: filters_of_def EPOLLET_def EPOLLOUT_def)
qed

text \<open>A descriptor that is watched for writing only cannot be removed: the call reports success, but the
  deletion of the absent read filter fails first and the write filter stays.\<close>

theorem write_only_stays:
  assumes "kqueue_law kevent reg" "reg q (f, EVFILT_READ) = None" "reg q (f, EVFILT_WRITE) = Some x"
  shows "fst (epoll_ctl_shim kevent CTL_DEL f None q) = 0 \<and> reg (snd (epoll_ctl_shim kevent CTL_DEL f None q)) (f, EVFILT_WRITE) = Some x"
proof -
  let ?del = "[Kdelete f EVFILT_READ, Kdelete f EVFILT_WRITE]"
  have "apply_changes ?del (reg q) = (fst (kevent ?del q), reg (snd (kevent ?del q)))" using assms(1) unfolding kqueue_law_def by blast
  then show ?thesis using assms(2,3) by (simp add: epoll_ctl_shim_def)
qed

text \<open>A wait asks for at most 1024 events, and a closed peer is always reported as readable.\<close>

lemma wait_events:
  assumes "\<And>n t q ks. wait n t q = Some ks \<Longrightarrow> int (length ks) \<le> n" "epoll_wait_shim wait maxevents t q = Some es"
  shows "int (length es) \<le> maxevents" "int (length es) \<le> 1024"
  using assms(1) [of _ "timeout_spec t" q] assms(2) by (force simp: epoll_wait_shim_def Let_def split: if_splits)+

lemma closed_is_readable: "kr_eof k \<Longrightarrow> snd (event_of k) AND EPOLLIN \<noteq> 0"
  by (cases "kr_filter k") (simp_all add: event_of_def Let_def EPOLLIN_def EPOLLOUT_def EPOLLHUP_def EPOLLERR_def)

end
