(* ===== verification/Spec2Isabelle.thy ===== *)
theory Spec2Isabelle
  imports Matching_Properties Serialize Arena_Alloc Spsc_Queue Simulator Hot_Multi Hot_Paced Bench_Workloads Echo_Servers Epoll_Shim
begin

text \<open>
  Verification of the Kalshi trading engine and of its exchange simulator.

  \<^bold>\<open>The program.\<close> The repository has two halves. The trading side (\<open>src/\<close>) turns market data into
  orders: \<open>feed/parser\<close> reads an order book delta from JSON, \<open>feed/book\<close> keeps the book of a market,
  \<open>strategy/signal\<close> derives a target quote, \<open>strategy/order_manager\<close> compares it with the open orders
  and lists actions, and \<open>net/serialize\<close> prints them. Its containers are under \<open>core/\<close>: a hash map, a
  pool, an arena and a ring buffer between two threads. \<open>net/rest_client\<close> sends a request over a
  socket. The simulator (\<open>sim/\<close>) is the exchange at the other end: a reactor on \<open>epoll\<close>, an HTTP server
  on top of it, handlers that read a request and a matching engine per market, whose orders live in the
  pool and are indexed by the hash map. The programs under \<open>bench/\<close> drive the trading side, in one
  thread or with a producer and a consumer; \<open>experiments/\<close> has four small socket programs.

  \<^bold>\<open>Theories and sources.\<close> Definitions carry the names of the source; each theory opens with a note
  on its conventions.

  \<^item> \<open>Prelude\<close>: machine types, power-of-two masks, circular positions. \<open>Cpp_String\<close>: the part of
    \<open>std::string\<close> that the HTTP code uses.
  \<^item> Interfaces, as locales: \<open>Map_Interface\<close> (\<open>fixed_map\<close>), \<open>Allocator_Interface\<close>
    (\<open>block_allocator\<close>), \<open>Queue_Interface\<close> (\<open>bounded_queue\<close>) and \<open>Worker_Interface\<close>
    (\<open>message_worker\<close>, what a consumer does with a message). They are interpreted on the models of
    \<open>FlatHashMap\<close>, \<open>Pool\<close>, \<open>SPSCQueue\<close> and on the two consumers of the benchmarks.
  \<^item> \<open>Flat_Hash_Map\<close>, \<open>Pool_Alloc\<close>, \<open>Arena_Alloc\<close>, \<open>Spsc_Queue\<close>: the headers of \<open>src/core/\<close>. The
    ring buffer is modelled twice, by functions for one thread and by a step relation that interleaves
    the accesses of both threads to the shared fields.
  \<^item> \<open>Feed_Parser\<close>, \<open>Feed_Book\<close>, \<open>Quote_Signal\<close>, \<open>Order_Manager\<close>, \<open>Serialize\<close>: \<open>src/feed/\<close>,
    \<open>src/strategy/\<close> and \<open>src/net/serialize.cpp\<close>. \<open>Rest_Client\<close>: \<open>src/net/rest_client.cpp\<close>.
  \<^item> \<open>Matching_Engine\<close>: \<open>sim/domain/matching_engine.cpp\<close> at the level of its pointers. \<open>Order_Book\<close>
    is the specification (price-time priority), \<open>Matching_Rep\<close> relates memory to a book,
    \<open>Matching_Refine\<close> and \<open>Matching_Correct\<close> treat the loops and the operations, and
    \<open>Matching_Properties\<close> states the results for every engine that can be reached.
  \<^item> \<open>Reactor\<close>, \<open>Http_Parse\<close>, \<open>Rest_Server\<close>, \<open>Market_Registry\<close>, \<open>Handlers\<close>, \<open>Simulator\<close>:
    \<open>sim/reactor.cpp\<close>, \<open>sim/http/\<close>, \<open>sim/domain/market_registry.cpp\<close> and \<open>sim/main.cpp\<close>.
    \<open>Epoll_Shim\<close>: \<open>sim/compat/epoll_shim.h\<close>, which stands in for \<open>epoll\<close> on systems with \<open>kqueue\<close>.
  \<^item> \<open>Hot_Path\<close>, \<open>Hot_Pipe\<close>, \<open>Ticker_Hash\<close>, \<open>Hot_Multi\<close>, \<open>Paced_Config\<close>, \<open>Hot_Paced\<close>: the four
    programs \<open>bench/bench_hotpath*.cpp\<close>. \<open>Bench_Workloads\<close>: the workloads of \<open>bench_flat_hash_map.cpp\<close>,
    \<open>bench_pool.cpp\<close> and \<open>bench_spsc.cpp\<close> on the repository's containers.
  \<^item> \<open>Echo_Servers\<close>: \<open>experiments/\<close>.

  \<^bold>\<open>What is shown.\<close>

  \<^item> Containers: the hash map implements a finite map under any sequence of operations that does not
    overfill it; the pool and the arena hand out disjoint regions; the queue is first-in first-out and
    free of races in every interleaving, wrap-around of its indices included.
  \<^item> Matching engine: \<open>place_limit\<close> and \<open>cancel\<close> return, without undefined behaviour, what the
    specification says; quantities are conserved, priority is respected, the book is never crossed.
  \<^item> Trading side: the parser accepts exactly the well-formed documents; the book is the net of its
    deltas; quotes lie inside the spread; the order manager knows exactly which orders are live and
    converges in one round; the printed text decodes to the action and stays inside its buffer.
  \<^item> Simulator: the request parser ends on every buffer; a request is answered once however it is
    split; the tables of reactor and server stay in step; the simulator keeps running under the
    conditions stated; an order posted by the client reaches the engine and its result comes back.
  \<^item> Programs: whatever the interleaving, the pipelines emit what sequential processing emits, for
    one market, for 256 markets (each as if it ran alone) and with paced arrivals; the pipeline cannot
    get stuck; the paced producer keeps its schedule. The workloads of the container benchmarks do
    what they claim to measure. Level- and edge-triggered echo servers have the same effect.
  \<^item> Errors of the code are theorems too, stated for the states and inputs that lead to them and not for
    an example only: insertion into a full table (and when it is harmless), a best level driven below
    zero, sizes of the arena that wrap, a descriptor reused within a batch, a \<open>Content-Length\<close> that is
    no number, errors of \<open>accept\<close> that persist, and, in a fresh engine, the reserved order id.

  \<^bold>\<open>Conventions and bounds.\<close> Unsigned integers are words and wrap; signed ones are \<open>int\<close>, with
  overflow written out as undefined behaviour. Undefined behaviour, \<open>abort\<close>, an uncaught exception
  and a loop that never ends are the value \<open>None\<close>; theorems say that the result is \<open>Some\<close>. Loops whose
  end is not evident are defined by \<open>partial_function\<close>, so no fuel is used in the model. Results of
  system calls and readings of the clock are arguments (scripts); code of other projects (simdjson,
  \<open>mmap\<close>, \<open>kevent\<close>, operations on \<open>double\<close>) is a parameter with what is relied on as a hypothesis.
  Template capacities are arguments, powers of two where the source asserts it. The matching engine is
  treated for what its callers may do: quantities up to \<open>2^21 - 1\<close> (the handler refuses more than
  1000000) and ids other than the reserved \<open>2^64 - 1\<close>. Orders of the order manager are live from
  sending to cancelling, since it is told of no fills. Responses and echoes are complete if no \<open>write\<close>
  fails, \<open>EAGAIN\<close> included. Text buffers are
  shorter than \<open>2^63\<close>. Numbers of messages are bounded where a level of the book could otherwise
  exceed 32 bits, each message carrying at most 50 contracts: the benchmarks run with constants far
  below the bound, and the paced one, whose number comes from the command line, is treated up to
  30 million messages.

  \<^bold>\<open>Not modelled.\<close> \<open>core/clock.h\<close> (floating-point conversion of the time stamp counter) and the
  percentiles, histograms and messages that the benchmarks print, apart from the counting of
  \<open>bench_hotpath.cpp\<close>; \<open>system/\<close> (thread affinity and scheduling class); the counter of heap allocations in
  the benchmarks; \<open>net/auth\<close>, which has no implementation, and the empty files; destructors that only
  unmap memory or close descriptors; benchmarks on containers of the standard library, in random order, or
  with two threads on the bare queue; the set-up of the blocking echo server; scripts and unit
  tests. The threads interleave atomically: orderings of a weak memory model are beyond this
  development.
\<close>

end
